(* ===== verification/Prelude.thy ===== *)
theory Prelude
  imports Main "HOL-Library.Word"
begin

text \<open>
  Shared vocabulary of the development: the machine types of \<open>libs/defs.h\<close>, the result
  type in which every panic, failed assertion and endless loop of the kernel is a value, the
  error codes of \<open>libs/error.h\<close>, the rounding macros and the generic lemmas that the component
  theories share.
\<close>

section \<open>Machine types\<close>

text \<open>\<open>libs/defs.h\<close>: \<open>uint8_t\<close>, \<open>uint16_t\<close>, \<open>uint32_t\<close>; addresses, \<open>size_t\<close> and
  \<open>pte_t\<close> are 32 bits wide. C \<open>int\<close> values are read as \<open>int\<close>.\<close>

type_synonym u8 = "8 word"
type_synonym u16 = "16 word"
type_synonym u32 = "32 word"
type_synonym u64 = "64 word"

section \<open>Results\<close>

text \<open>
  \<open>Ok x\<close>: the C function returned \<open>x\<close>. \<open>Panic\<close>: an \<open>assert\<close> failed or \<open>panic()\<close> was
  called, the kernel stops. \<open>Diverge\<close>: a loop used up the iteration bound of the model;
  the theorems show where that cannot happen.
\<close>

datatype 'a res = Ok 'a | Panic | Diverge

primrec res_bind :: "'a res \<Rightarrow> ('a \<Rightarrow> 'b res) \<Rightarrow> 'b res" where
  "res_bind (Ok x) k = k x"
| "res_bind Panic k = Panic"
| "res_bind Diverge k = Diverge"

primrec is_Ok :: "'a res \<Rightarrow> bool" where
  "is_Ok (Ok x) = True"
| "is_Ok Panic = False"
| "is_Ok Diverge = False"

definition assert_c :: "bool \<Rightarrow> 'a res \<Rightarrow> 'a res" where
  "assert_c b k = (if b then k else Panic)"

lemma assert_c_simps [simp]:
  "assert_c True k = k" "assert_c False k = Panic"
  by (simp_all add: assert_c_def)

lemma assert_c_Ok [simp]: "assert_c b k = Ok x \<longleftrightarrow> b \<and> k = Ok x"
  by (simp add: assert_c_def)

lemma res_bind_Ok: "res_bind r k = Ok y \<longleftrightarrow> (\<exists>x. r = Ok x \<and> k x = Ok y)"
  by (cases r) auto

lemma res_bind_assoc: "res_bind (res_bind r f) g = res_bind r (\<lambda>x. res_bind (f x) g)"
  by (cases r) auto

text \<open>\<open>libs/error.h\<close> codes appear negated as C return values; a function that
  returns \<open>0\<close> or \<open>-E_xxx\<close> returns a value of this type.\<close>

datatype errno = E_UNSPECIFIED | E_BAD_PROC | E_INVAL | E_NO_MEM | E_NO_FREE_PROC | E_FAULT
  | E_SWAP_FAULT | E_INVAL_ELF | E_KILLED | E_PANIC | E_TIMEOUT | E_TOO_BIG | E_NO_DEV
  | E_NA_DEV | E_BUSY | E_NOENT | E_ISDIR | E_NOTDIR | E_XDEV | E_UNIMP | E_SEEK
  | E_MAX_OPEN | E_EXISTS | E_NOTEMPTY

section \<open>Rounding macros\<close>

text \<open>\<open>ROUNDDOWN\<close>, \<open>ROUNDUP\<close> and \<open>ROUNDUP_DIV\<close> of \<open>libs/defs.h\<close>, at the width at which the
  kernel evaluates them (\<open>size_t\<close>); the additions wrap.\<close>

definition ROUNDDOWN :: "u32 \<Rightarrow> u32 \<Rightarrow> u32" where
  "ROUNDDOWN a n = a - a mod n"

definition ROUNDUP :: "u32 \<Rightarrow> u32 \<Rightarrow> u32" where
  "ROUNDUP a n = ROUNDDOWN (a + n - 1) n"

definition ROUNDUP_DIV :: "u32 \<Rightarrow> u32 \<Rightarrow> u32" where
  "ROUNDUP_DIV a n = (a + n - 1) div n"

named_theorems round_simps

lemma unat_ROUNDDOWN [round_simps]: "unat (ROUNDDOWN a n) = unat a - unat a mod unat n"
proof -
  have "a mod n \<le> a"
    by (metis mod_less_eq_dividend unat_mod word_le_nat_alt)
  then show ?thesis
    by (simp add: ROUNDDOWN_def unat_sub unat_mod)
qed

lemma ROUNDDOWN_dvd: "unat n dvd unat (ROUNDDOWN a n)"
  by (simp add: unat_ROUNDDOWN minus_mod_eq_mult_div)

lemma ROUNDDOWN_le: "unat (ROUNDDOWN a n) \<le> unat a"
  by (simp add: unat_ROUNDDOWN)

lemma ROUNDDOWN_gt: "0 < unat n \<Longrightarrow> unat a < unat (ROUNDDOWN a n) + unat n"
  by (simp add: unat_ROUNDDOWN minus_mod_eq_mult_div)
     (metis add.commute mod_less_divisor mult_div_mod_eq nat_add_left_cancel_less)

text \<open>Without wrap-around \<open>ROUNDUP\<close> is the least multiple above its argument.\<close>

lemma unat_ROUNDUP [round_simps]:
  assumes "0 < unat n" and "unat a + unat n - 1 < 2 ^ 32"
  shows "unat (ROUNDUP a n) = (unat a + unat n - 1) - (unat a + unat n - 1) mod unat n"
proof -
  have "unat (a + (n - 1)) = unat a + unat (n - 1)"
  proof (rule unat_add_lem [THEN iffD1])
    have "unat (n - 1) = unat n - 1"
      using assms(1) by (simp add: unat_minus_one unat_gt_0)
    then show "unat a + unat (n - 1) < 2 ^ LENGTH(32)"
      using assms by simp
  qed
  moreover have "unat (n - 1) = unat n - 1"
    using assms(1) by (simp add: unat_minus_one unat_gt_0)
  ultimately have "unat (a + n - 1) = unat a + unat n - 1"
    using assms(1) by (simp add: add_diff_eq)
  then show ?thesis by (simp add: ROUNDUP_def unat_ROUNDDOWN)
qed

section \<open>Loops over fallible steps\<close>

text \<open>A loop that need not end is a partial function to \<open>option\<close>; \<open>step_res\<close> runs one fallible step
  of its body and goes on with the result.\<close>

definition step_res :: "'a res \<Rightarrow> ('a \<Rightarrow> 'b res option) \<Rightarrow> 'b res option" where
  "step_res r k = (case r of Ok x \<Rightarrow> k x | Panic \<Rightarrow> Some Panic | Diverge \<Rightarrow> Some Diverge)"

lemma step_res_simps [simp]:
  "step_res (Ok x) k = k x" "step_res Panic k = Some Panic" "step_res Diverge k = Some Diverge"
  by (simp_all add: step_res_def)

lemma step_res_mono [partial_function_mono]:
  assumes "\<And>x. mono_option (\<lambda>f. k f x)"
  shows "mono_option (\<lambda>f. step_res r (k f))"
  by (cases r) (simp_all add: assms option.const_mono)

definition run_loop :: "'a res option \<Rightarrow> 'a res" where
  "run_loop r = (case r of None \<Rightarrow> Diverge | Some x \<Rightarrow> x)"

section \<open>Words read as numbers\<close>

lemma unat_u32_less: "unat (w :: u32) < 2 ^ 32"
  using unsigned_less [of w] by simp

lemma unat_add_u32: "unat a + unat b < 2 ^ 32 \<Longrightarrow> unat (a + b :: u32) = unat a + unat b"
  by (simp add: unat_word_ariths)

lemma unat_of_nat_u32: "n < 2 ^ 32 \<Longrightarrow> unat (of_nat n :: u32) = n"
  by (simp add: unsigned_of_nat take_bit_nat_eq_self)

lemma sint_small: "unat (w :: u32) < 2 ^ 31 \<Longrightarrow> sint w = int (unat w)"
proof -
  assume "unat w < 2 ^ 31"
  then have "uint w < 2 ^ 31" unfolding uint_nat by (simp only: of_nat_less_numeral_power_cancel_iff)
  then have "signed_take_bit 31 (uint w) = uint w"
    by (intro signed_take_bit_int_eq_self) (simp_all add: order_trans [of _ 0])
  then show ?thesis unfolding sint_uint uint_nat [symmetric] by simp
qed

end
