(* ===== verification/DList.thy ===== *)
theory DList
  imports Prelude
begin

text \<open>
  The intrusive circular doubly linked list of \<open>libs/list.h\<close>. A list entry is a node of
  an arbitrary type \<open>'a\<close>; the two pointer fields of all entries are the store
  \<open>'a links\<close>, and every operation is the sequence of pointer writes of the C code.
  \<open>dl_rep h lh xs\<close> says that the entries \<open>xs\<close>, in this order, hang on the list head
  \<open>lh\<close>; the lemmas say what each operation does to that sequence and what it leaves
  alone. The interface is the locale \<open>list_store\<close>, which the list of \<open>list.h\<close>
  interprets.
\<close>

section \<open>The pointer store and the operations of list.h\<close>

record 'a links =
  prev :: "'a \<Rightarrow> 'a"
  nxt :: "'a \<Rightarrow> 'a"

definition list_init :: "'a links \<Rightarrow> 'a \<Rightarrow> 'a links" where
  "list_init h elm = h\<lparr>prev := (prev h)(elm := elm), nxt := (nxt h)(elm := elm)\<rparr>"

definition list_next :: "'a links \<Rightarrow> 'a \<Rightarrow> 'a" where
  "list_next h listelm = nxt h listelm"

definition list_prev :: "'a links \<Rightarrow> 'a \<Rightarrow> 'a" where
  "list_prev h listelm = prev h listelm"

definition list_empty :: "'a links \<Rightarrow> 'a \<Rightarrow> bool" where
  "list_empty h l \<longleftrightarrow> nxt h l = l"

text \<open>\<open>__list_add\<close>: \<open>prev->next = next->prev = elm; elm->next = next; elm->prev = prev\<close>.\<close>

definition list_add_between :: "'a links \<Rightarrow> 'a \<Rightarrow> 'a \<Rightarrow> 'a \<Rightarrow> 'a links" where
  "list_add_between h elm p n =
     (let h1 = h\<lparr>prev := (prev h)(n := elm)\<rparr>;
          h2 = h1\<lparr>nxt := (nxt h1)(p := elm)\<rparr>;
          h3 = h2\<lparr>nxt := (nxt h2)(elm := n)\<rparr>
      in h3\<lparr>prev := (prev h3)(elm := p)\<rparr>)"

text \<open>\<open>__list_del\<close>: \<open>prev->next = next; next->prev = prev\<close>.\<close>

definition list_del_between :: "'a links \<Rightarrow> 'a \<Rightarrow> 'a \<Rightarrow> 'a links" where
  "list_del_between h p n =
     (let h1 = h\<lparr>nxt := (nxt h)(p := n)\<rparr> in h1\<lparr>prev := (prev h1)(n := p)\<rparr>)"

definition list_add_before :: "'a links \<Rightarrow> 'a \<Rightarrow> 'a \<Rightarrow> 'a links" where
  "list_add_before h listelm elm = list_add_between h elm (prev h listelm) listelm"

definition list_add_after :: "'a links \<Rightarrow> 'a \<Rightarrow> 'a \<Rightarrow> 'a links" where
  "list_add_after h listelm elm = list_add_between h elm listelm (nxt h listelm)"

definition list_add :: "'a links \<Rightarrow> 'a \<Rightarrow> 'a \<Rightarrow> 'a links" where
  "list_add h listelm elm = list_add_after h listelm elm"

definition list_del :: "'a links \<Rightarrow> 'a \<Rightarrow> 'a links" where
  "list_del h listelm = list_del_between h (prev h listelm) (nxt h listelm)"

definition list_del_init :: "'a links \<Rightarrow> 'a \<Rightarrow> 'a links" where
  "list_del_init h listelm = list_init (list_del h listelm) listelm"

section \<open>Representation\<close>

text \<open>\<open>chain h a xs b\<close>: following \<open>next\<close> from \<open>a\<close> visits exactly \<open>xs\<close> and then reaches
  \<open>b\<close>, and every \<open>prev\<close> pointer on the way points back.\<close>

fun chain :: "'a links \<Rightarrow> 'a \<Rightarrow> 'a list \<Rightarrow> 'a \<Rightarrow> bool" where
  "chain h a [] b \<longleftrightarrow> nxt h a = b \<and> prev h b = a"
| "chain h a (x # xs) b \<longleftrightarrow> nxt h a = x \<and> prev h x = a \<and> chain h x xs b"

definition dl_rep :: "'a links \<Rightarrow> 'a \<Rightarrow> 'a list \<Rightarrow> bool" where
  "dl_rep h lh xs \<longleftrightarrow> distinct (lh # xs) \<and> chain h lh xs lh"

named_theorems dl_ops
lemmas [dl_ops] = list_init_def list_add_between_def list_del_between_def list_add_before_def
  list_add_after_def list_add_def list_del_def list_del_init_def list_next_def list_prev_def
  list_empty_def Let_def

lemma chain_append: "chain h a (xs @ y # ys) b \<longleftrightarrow> chain h a xs y \<and> chain h y ys b"
  by (induction xs arbitrary: a) auto

text \<open>A chain reads only the \<open>next\<close> fields of \<open>a # xs\<close> and the \<open>prev\<close> fields of \<open>xs @ [b]\<close>.\<close>

lemma chain_cong:
  "(\<And>x. x \<in> set (a # xs) \<Longrightarrow> nxt h x = nxt h' x) \<Longrightarrow>
   (\<And>x. x \<in> set (xs @ [b]) \<Longrightarrow> prev h x = prev h' x) \<Longrightarrow>
   chain h a xs b \<longleftrightarrow> chain h' a xs b"
  by (induction xs arbitrary: a) auto

lemma chain_last: "chain h a xs b \<Longrightarrow> prev h b = last (a # xs)"
  by (induction xs arbitrary: a) auto

lemma chain_first: "chain h a xs b \<Longrightarrow> nxt h a = hd (xs @ [b])"
  by (cases xs) auto

lemma chain_unique:
  "chain h a xs b \<Longrightarrow> chain h a ys b \<Longrightarrow> b \<notin> set xs \<Longrightarrow> b \<notin> set ys \<Longrightarrow> xs = ys"
proof (induction xs arbitrary: a ys)
  case Nil
  then show ?case by (cases ys) auto
next
  case (Cons x xs)
  then show ?case by (cases ys) auto
qed

lemma dl_rep_distinct: "dl_rep h lh xs \<Longrightarrow> distinct xs \<and> lh \<notin> set xs"
  by (simp add: dl_rep_def)

lemma dl_rep_unique: "dl_rep h lh xs \<Longrightarrow> dl_rep h lh ys \<Longrightarrow> xs = ys"
  by (auto simp: dl_rep_def intro: chain_unique)

lemma dl_rep_init: "dl_rep (list_init h lh) lh []"
  by (simp add: dl_rep_def dl_ops)

lemma dl_rep_empty: "dl_rep h lh xs \<Longrightarrow> list_empty h lh \<longleftrightarrow> xs = []"
  by (cases xs) (auto simp: dl_rep_def dl_ops)

lemma dl_rep_next_head: "dl_rep h lh xs \<Longrightarrow> list_next h lh = (case xs of [] \<Rightarrow> lh | x # _ \<Rightarrow> x)"
  by (auto simp: dl_rep_def dl_ops split: list.split)

lemma dl_rep_prev_head: "dl_rep h lh xs \<Longrightarrow> list_prev h lh = last (lh # xs)"
  by (auto simp: dl_rep_def dl_ops dest: chain_last)

lemma dl_rep_next:
  "dl_rep h lh (xs @ x # ys) \<Longrightarrow> list_next h x = (case ys of [] \<Rightarrow> lh | y # _ \<Rightarrow> y)"
  by (auto simp: dl_rep_def chain_append dl_ops split: list.split)

lemma dl_rep_prev: "dl_rep h lh (xs @ x # ys) \<Longrightarrow> list_prev h x = last (lh # xs)"
  by (auto simp: dl_rep_def chain_append dl_ops dest: chain_last)

text \<open>The same, read from the end of a prefix (the head when the prefix is empty).\<close>

lemma dl_rep_next_mid:
  "dl_rep h lh (xs @ y # ys) \<Longrightarrow> list_next h (last (lh # xs)) = y"
  by (cases xs rule: rev_cases) (auto simp: dl_rep_def chain_append dl_ops)

lemma dl_rep_next_last: "dl_rep h lh xs \<Longrightarrow> list_next h (last (lh # xs)) = lh"
  by (cases xs rule: rev_cases) (auto simp: dl_rep_def chain_append dl_ops)

text \<open>An entry in a list is not alone: \<open>list_empty\<close> on the entry itself is false.\<close>

lemma dl_rep_linked:
  assumes rep: "dl_rep h lh xs" and "x \<in> set xs"
  shows "\<not> list_empty h x"
proof -
  obtain as bs where xs: "xs = as @ x # bs"
    using assms(2) by (auto simp: in_set_conv_decomp)
  then have "list_next h x = (case bs of [] \<Rightarrow> lh | y # _ \<Rightarrow> y)"
    using rep by (auto dest: dl_rep_next)
  moreover have "x \<noteq> lh" "x \<notin> set bs"
    using rep xs by (auto simp: dl_rep_def)
  ultimately show ?thesis
    by (cases bs) (auto simp: list_empty_def list_next_def)
qed

section \<open>What the operations do to the represented list\<close>

text \<open>The general insertion: between two neighbours.\<close>

lemma dl_rep_add_between:
  assumes rep: "dl_rep h lh (xs @ ys)" and new: "e \<notin> set (lh # xs @ ys)"
    and p: "p = last (lh # xs)" and n: "n = hd (ys @ [lh])"
  shows "dl_rep (list_add_between h e p n) lh (xs @ e # ys)"
proof -
  define h' where "h' = list_add_between h e p n"
  have d: "distinct (lh # xs @ ys)" and c: "chain h lh (xs @ ys) lh"
    using rep by (auto simp: dl_rep_def)
  have p_in: "p \<in> set (lh # xs)" unfolding p by (rule last_in_set) simp
  have n_in: "n \<in> set (lh # ys)" unfolding n by (cases ys) auto
  have ne: "p \<noteq> e" "n \<noteq> e"
    using new p_in n_in by auto
  have nx: "nxt h' = (nxt h)(p := e, e := n)" "prev h' = (prev h)(n := e, e := p)"
    by (simp_all add: h'_def dl_ops)
  have left: "chain h' lh xs e"
  proof (cases xs rule: rev_cases)
    case Nil
    then show ?thesis using p ne by (simp add: nx)
  next
    case (snoc xs' x)
    have "chain h lh xs' x" using c snoc by (cases ys) (auto simp: chain_append)
    then have "chain h' lh xs' x"
      by (subst chain_cong [where h' = h])
         (use snoc d new p n_in in \<open>auto simp: nx\<close>)
    then show ?thesis using snoc p ne by (simp add: chain_append nx)
  qed
  have right: "chain h' e ys lh"
  proof (cases ys)
    case Nil
    then show ?thesis using n ne by (simp add: nx)
  next
    case (Cons y ys')
    have "chain h y ys' lh" using c Cons by (auto simp: chain_append)
    then have "chain h' y ys' lh"
      by (subst chain_cong [where h' = h])
         (use Cons d new p_in n in \<open>auto simp: nx\<close>)
    then show ?thesis using Cons n ne by (simp add: nx)
  qed
  show ?thesis using d new left right
    by (auto simp: dl_rep_def chain_append h'_def [symmetric])
qed

lemma dl_rep_add_before_head:
  assumes "dl_rep h lh xs" and "e \<notin> set (lh # xs)"
  shows "dl_rep (list_add_before h lh e) lh (xs @ [e])"
  using dl_rep_add_between [of h lh xs "[]" e, OF _ _ refl refl] dl_rep_prev_head [OF assms(1)] assms
  by (simp add: list_add_before_def list_prev_def)

lemma dl_rep_add_before:
  assumes "dl_rep h lh (xs @ y # ys)" and "e \<notin> set (lh # xs @ y # ys)"
  shows "dl_rep (list_add_before h y e) lh (xs @ e # y # ys)"
  using dl_rep_add_between [of h lh xs "y # ys" e, OF _ _ refl refl] dl_rep_prev [OF assms(1)] assms
  by (simp add: list_add_before_def list_prev_def)

lemma dl_rep_add_after_head:
  assumes "dl_rep h lh xs" and "e \<notin> set (lh # xs)"
  shows "dl_rep (list_add_after h lh e) lh (e # xs)"
  using dl_rep_add_between [of h lh "[]" xs e, OF _ _ refl refl] dl_rep_next_head [OF assms(1)] assms
  by (cases xs) (simp_all add: list_add_after_def list_next_def)

lemma dl_rep_add_after:
  assumes "dl_rep h lh (xs @ x # ys)" and "e \<notin> set (lh # xs @ x # ys)"
  shows "dl_rep (list_add_after h x e) lh (xs @ x # e # ys)"
  using dl_rep_add_between [of h lh "xs @ [x]" ys e, OF _ _ refl refl] dl_rep_next [OF assms(1)] assms
  by (cases ys) (simp_all add: list_add_after_def list_next_def)

lemma dl_rep_del:
  assumes rep: "dl_rep h lh (xs @ e # ys)"
  shows "dl_rep (list_del h e) lh (xs @ ys)"
proof -
  define p n h' where "p = last (lh # xs)" and "n = hd (ys @ [lh])" and "h' = list_del h e"
  have d: "distinct (lh # xs @ e # ys)" and l: "chain h lh xs e" and r: "chain h e ys lh"
    using rep by (auto simp: dl_rep_def chain_append)
  have nx: "nxt h' = (nxt h)(p := n)" "prev h' = (prev h)(n := p)"
    using chain_last [OF l] chain_first [OF r] by (simp_all add: dl_ops h'_def p_def n_def)
  have p_in: "p \<in> set (lh # xs)" unfolding p_def by (rule last_in_set) simp
  have n_in: "n \<in> set (lh # ys)" unfolding n_def by (cases ys) auto
  have left: "chain h' lh xs n"
  proof (cases xs rule: rev_cases)
    case Nil
    then show ?thesis by (simp add: nx p_def)
  next
    case (snoc xs' x)
    have "chain h lh xs' x" using l snoc by (simp add: chain_append)
    then have "chain h' lh xs' x"
      by (subst chain_cong [where h' = h]) (use d snoc n_in in \<open>auto simp: nx p_def\<close>)
    then show ?thesis using snoc by (simp add: chain_append nx p_def)
  qed
  have "chain h' lh (xs @ ys) lh"
  proof (cases ys)
    case Nil
    then show ?thesis using left by (simp add: n_def)
  next
    case (Cons y ys')
    have "chain h y ys' lh" using r Cons by simp
    then have "chain h' y ys' lh"
      by (subst chain_cong [where h' = h]) (use d Cons p_in in \<open>auto simp: nx n_def\<close>)
    then show ?thesis using left Cons by (simp add: chain_append n_def)
  qed
  then show ?thesis using d by (simp add: dl_rep_def h'_def)
qed

text \<open>Frame: an operation on one list leaves every list with other entries alone.\<close>

lemma dl_rep_cong:
  assumes "\<And>x. x \<in> set (lh # xs) \<Longrightarrow> nxt h x = nxt h' x \<and> prev h x = prev h' x"
  shows "dl_rep h lh xs \<longleftrightarrow> dl_rep h' lh xs"
  unfolding dl_rep_def using assms by (subst chain_cong [where h' = h']) auto

lemma dl_rep_del_init:
  assumes rep: "dl_rep h lh (xs @ e # ys)"
  shows "dl_rep (list_del_init h e) lh (xs @ ys)" and "list_empty (list_del_init h e) e"
proof -
  have "e \<notin> set (lh # xs @ ys)" using rep by (auto simp: dl_rep_def)
  then have "dl_rep (list_del_init h e) lh (xs @ ys) \<longleftrightarrow> dl_rep (list_del h e) lh (xs @ ys)"
    by (intro dl_rep_cong) (auto simp: list_del_init_def list_init_def)
  then show "dl_rep (list_del_init h e) lh (xs @ ys)" using dl_rep_del [OF rep] by simp
  show "list_empty (list_del_init h e) e" by (simp add: list_del_init_def list_init_def list_empty_def)
qed

text \<open>Every operation leaves entries of other lists, and unlinked entries, alone.\<close>

lemma dl_rep_closed:
  assumes "dl_rep h lh xs" and "l \<in> set (lh # xs)"
  shows "prev h l \<in> set (lh # xs)" and "nxt h l \<in> set (lh # xs)"
proof -
  have "prev h l \<in> set (lh # xs) \<and> nxt h l \<in> set (lh # xs)"
  proof (cases "l = lh")
    case True
    then show ?thesis
      using dl_rep_prev_head [OF assms(1)] dl_rep_next_head [OF assms(1)]
      by (cases xs) (auto simp: list_prev_def list_next_def)
  next
    case False
    then obtain as cs where "xs = as @ l # cs" using assms(2) by (auto dest: split_list)
    then show ?thesis
      using dl_rep_prev [of h lh as l cs] dl_rep_next [of h lh as l cs] assms(1)
      by (auto simp: list_prev_def list_next_def split: list.splits)
  qed
  then show "prev h l \<in> set (lh # xs)" "nxt h l \<in> set (lh # xs)" by auto
qed

lemma list_add_before_frame:
  assumes "dl_rep h lh xs" and "l \<in> set (lh # xs)" and "y \<notin> set (lh # xs)" and "y \<noteq> e"
  shows "nxt (list_add_before h l e) y = nxt h y" and "prev (list_add_before h l e) y = prev h y"
  using dl_rep_closed [OF assms(1,2)] assms(2-4)
  by (auto simp: list_add_before_def list_add_between_def Let_def)

lemma list_add_after_frame:
  assumes "dl_rep h lh xs" and "l \<in> set (lh # xs)" and "y \<notin> set (lh # xs)" and "y \<noteq> e"
  shows "nxt (list_add_after h l e) y = nxt h y" and "prev (list_add_after h l e) y = prev h y"
  using dl_rep_closed [OF assms(1,2)] assms(2-4)
  by (auto simp: list_add_after_def list_add_between_def Let_def)

lemma list_del_frame:
  assumes "dl_rep h lh xs" and "e \<in> set xs" and "y \<notin> set (lh # xs)"
  shows "nxt (list_del h e) y = nxt h y" and "prev (list_del h e) y = prev h y"
  using dl_rep_closed [OF assms(1), of e] assms(2,3)
  by (auto simp: list_del_def list_del_between_def Let_def)

lemma list_del_init_frame:
  assumes "dl_rep h lh xs" and "e \<in> set xs" and "y \<notin> set (lh # xs)"
  shows "nxt (list_del_init h e) y = nxt h y" and "prev (list_del_init h e) y = prev h y"
  using list_del_frame [OF assms] assms(2,3) by (auto simp: list_del_init_def list_init_def)


section \<open>The list walk\<close>

text \<open>
  The loop \<open>while ((le = list_next(le)) != list) { if (P(le)) break; }\<close>, which the kernel
  writes for every search, with the number of iterations bounded by \<open>fuel\<close>. The result is the
  entry at which the loop left early, or \<open>None\<close> when it came back to the head.
\<close>

fun list_find :: "nat \<Rightarrow> 'a links \<Rightarrow> 'a \<Rightarrow> ('a \<Rightarrow> bool) \<Rightarrow> 'a \<Rightarrow> 'a option res" where
  "list_find 0 h lh P le = Diverge"
| "list_find (Suc fuel) h lh P le =
     (let le' = list_next h le
      in if le' = lh then Ok None
         else if P le' then Ok (Some le')
         else list_find fuel h lh P le')"

text \<open>On a represented list the walk ends, after at most one step per entry, at the first
  entry that satisfies the condition.\<close>

lemma list_find_rep:
  assumes "dl_rep h lh (xs @ ys)" and "le = last (lh # xs)" and "length ys < fuel"
  shows "list_find fuel h lh P le = Ok (find P ys)"
  using assms
proof (induction ys arbitrary: xs le fuel)
  case Nil
  then obtain k where "fuel = Suc k" by (cases fuel) auto
  moreover have "list_next h le = lh"
    using Nil dl_rep_next_last [of h lh xs] by simp
  ultimately show ?case by simp
next
  case (Cons y ys)
  then obtain k where k: "fuel = Suc k" "length ys < k" by (cases fuel) auto
  have nxt: "list_next h le = y"
    using Cons.prems(1,2) dl_rep_next_mid [of h lh xs y ys] by simp
  have "y \<noteq> lh" using Cons.prems(1) by (auto simp: dl_rep_def)
  moreover have "list_find k h lh P y = Ok (find P ys)"
    using Cons.prems(1) k by (intro Cons.IH [of "xs @ [y]"]) auto
  ultimately show ?case using k nxt by simp
qed

declare list_find.simps [simp del]

lemmas list_find_head = list_find_rep [where xs = "[]", simplified append_Nil list.simps last.simps if_True simp_thms]

text \<open>The same loop without a bound, and the loop that walks the \<open>prev\<close> pointers.\<close>

partial_function (option) list_walk :: "'a links \<Rightarrow> 'a \<Rightarrow> ('a \<Rightarrow> bool) \<Rightarrow> 'a \<Rightarrow> 'a option option" where
  "list_walk h lh P le =
     (let le' = list_next h le
      in if le' = lh then Some None else if P le' then Some (Some le') else list_walk h lh P le')"

lemma list_walk_rep:
  assumes "dl_rep h lh (xs @ ys)" and "le = last (lh # xs)"
  shows "list_walk h lh P le = Some (find P ys)"
  using assms
proof (induction ys arbitrary: xs le)
  case Nil
  have "list_next h le = lh" using Nil dl_rep_next_last [of h lh xs] by simp
  then show ?case by (subst list_walk.simps) simp
next
  case (Cons y ys)
  have nxt: "list_next h le = y" using Cons.prems dl_rep_next_mid [of h lh xs y ys] by simp
  have "y \<noteq> lh" using Cons.prems(1) by (auto simp: dl_rep_def)
  moreover have "list_walk h lh P y = Some (find P ys)"
    using Cons.prems(1) by (intro Cons.IH [of "xs @ [y]"]) auto
  ultimately show ?case using nxt by (subst list_walk.simps) simp
qed

lemmas list_walk_head = list_walk_rep [where xs = "[]", simplified append_Nil list.simps last.simps if_True simp_thms]

section \<open>The interface\<close>

text \<open>What the other components rely on: a head with a sequence of entries, insertion at both
  ends, removal of an entry, and the two neighbours of the head. The derived lemmas are
  the queue and stack disciplines under which the kernel uses its lists.\<close>

locale list_store =
  fixes rep :: "'s \<Rightarrow> 'a \<Rightarrow> 'a list \<Rightarrow> bool"
    and init :: "'s \<Rightarrow> 'a \<Rightarrow> 's"
    and add_tail :: "'s \<Rightarrow> 'a \<Rightarrow> 'a \<Rightarrow> 's"
    and add_front :: "'s \<Rightarrow> 'a \<Rightarrow> 'a \<Rightarrow> 's"
    and del :: "'s \<Rightarrow> 'a \<Rightarrow> 's"
    and first :: "'s \<Rightarrow> 'a \<Rightarrow> 'a"
    and final :: "'s \<Rightarrow> 'a \<Rightarrow> 'a"
  assumes init: "rep (init s l) l []"
    and add_tail: "rep s l xs \<Longrightarrow> e \<notin> set (l # xs) \<Longrightarrow> rep (add_tail s l e) l (xs @ [e])"
    and add_front: "rep s l xs \<Longrightarrow> e \<notin> set (l # xs) \<Longrightarrow> rep (add_front s l e) l (e # xs)"
    and del: "rep s l (xs @ e # ys) \<Longrightarrow> rep (del s e) l (xs @ ys)"
    and first: "rep s l xs \<Longrightarrow> first s l = (case xs of [] \<Rightarrow> l | x # _ \<Rightarrow> x)"
    and final: "rep s l xs \<Longrightarrow> final s l = last (l # xs)"
    and distinct: "rep s l xs \<Longrightarrow> distinct (l # xs)"
begin

lemma dequeue: "rep s l (x # xs) \<Longrightarrow> first s l = x \<and> rep (del s x) l xs"
  using del [of s l "[]" x xs] first [of s l "x # xs"] by simp

lemma pop_back: "rep s l (xs @ [x]) \<Longrightarrow> final s l = x \<and> rep (del s x) l xs"
  using del [of s l xs x "[]"] final [of s l "xs @ [x]"] by simp

lemma first_is_head: "rep s l xs \<Longrightarrow> first s l = l \<longleftrightarrow> xs = []"
  using first [of s l xs] distinct [of s l xs] by (cases xs) auto

lemma final_is_head: "rep s l xs \<Longrightarrow> final s l = l \<longleftrightarrow> xs = []"
  using final [of s l xs] distinct [of s l xs] by (cases xs rule: rev_cases) auto

lemma enqueue_all:
  "rep s l xs \<Longrightarrow> distinct (l # xs @ es) \<Longrightarrow> rep (fold (\<lambda>e s. add_tail s l e) es s) l (xs @ es)"
proof (induction es arbitrary: s xs)
  case (Cons e es)
  then have "rep (add_tail s l e) l (xs @ [e])" by (intro add_tail) auto
  then show ?case using Cons.IH [of "add_tail s l e" "xs @ [e]"] Cons.prems by simp
qed simp

end

interpretation dl: list_store dl_rep list_init list_add_before list_add_after list_del
  list_next list_prev
proof (unfold_locales, goal_cases)
  case 1 show ?case by (rule dl_rep_init)
next
  case 2 then show ?case by (rule dl_rep_add_before_head)
next
  case 3 then show ?case by (rule dl_rep_add_after_head)
next
  case 4 then show ?case by (rule dl_rep_del)
next
  case 5 then show ?case by (rule dl_rep_next_head)
next
  case 6 then show ?case by (rule dl_rep_prev_head)
next
  case 7 then show ?case by (simp add: dl_rep_def)
qed

end
