(* ===== verification/Blocks.thy ===== *)
theory Blocks
  imports Main
begin

text \<open>
  Abstract free space: a list of blocks \<open>(start, length)\<close>. This is the specification level
  of the page allocator: the pages covered by a block list, first fit, coalescing release,
  and the facts that tie the list to the set of pages it covers. \<open>spaced\<close> is the order the
  allocator keeps (ascending, disjoint), \<open>coalesced\<close> adds that no two blocks touch; a
  coalesced list is determined by the set it covers.
\<close>

type_synonym blocks = "(nat \<times> nat) list"

fun cover :: "blocks \<Rightarrow> nat set" where
  "cover [] = {}"
| "cover ((p, m) # bs) = {p..<p + m} \<union> cover bs"

definition total :: "blocks \<Rightarrow> nat" where
  "total bs = sum_list (map snd bs)"

definition spaced :: "blocks \<Rightarrow> bool" where
  "spaced bs \<longleftrightarrow> sorted_wrt (\<lambda>(p, m) (q, k). p + m \<le> q) bs \<and> (\<forall>b \<in> set bs. 0 < snd b)"

definition coalesced :: "blocks \<Rightarrow> bool" where
  "coalesced bs \<longleftrightarrow> sorted_wrt (\<lambda>(p, m) (q, k). p + m < q) bs \<and> (\<forall>b \<in> set bs. 0 < snd b)"

definition below :: "nat \<Rightarrow> blocks \<Rightarrow> bool" where
  "below N bs \<longleftrightarrow> (\<forall>(p, m) \<in> set bs. p + m \<le> N)"

fun first_fit :: "nat \<Rightarrow> blocks \<Rightarrow> (nat \<times> blocks) option" where
  "first_fit n [] = None"
| "first_fit n ((p, m) # bs) =
     (if n \<le> m then Some (p, if n < m then (p + n, m - n) # bs else bs)
      else map_option (\<lambda>(q, bs'). (q, (p, m) # bs')) (first_fit n bs))"

fun absorb :: "nat \<Rightarrow> nat \<Rightarrow> blocks \<Rightarrow> (nat \<times> nat) \<times> blocks" where
  "absorb b m [] = ((b, m), [])"
| "absorb b m ((p, k) # bs) =
     (if b + m = p then absorb b (m + k) bs
      else if p + k = b then absorb p (k + m) bs
      else let (x, bs') = absorb b m bs in (x, (p, k) # bs'))"

fun insert_block :: "nat \<times> nat \<Rightarrow> blocks \<Rightarrow> blocks" where
  "insert_block (b, m) [] = [(b, m)]"
| "insert_block (b, m) ((p, k) # bs) =
     (if b + m \<le> p then (b, m) # (p, k) # bs else (p, k) # insert_block (b, m) bs)"

definition release :: "nat \<Rightarrow> nat \<Rightarrow> blocks \<Rightarrow> blocks" where
  "release b m bs = (case absorb b m bs of (x, bs') \<Rightarrow> insert_block x bs')"

section \<open>Covered pages\<close>

lemma cover_UN: "cover bs = (\<Union>(p, m) \<in> set bs. {p..<p + m})"
  by (induction bs rule: cover.induct) auto

lemma cover_append [simp]: "cover (as @ bs) = cover as \<union> cover bs"
  by (simp add: cover_UN)

lemma in_cover: "x \<in> cover bs \<longleftrightarrow> (\<exists>p m. (p, m) \<in> set bs \<and> p \<le> x \<and> x < p + m)"
  by (induction bs rule: cover.induct) auto

lemma coalesced_spaced: "coalesced bs \<Longrightarrow> spaced bs"
  unfolding coalesced_def spaced_def
  by (auto elim!: sorted_wrt_mono_rel [rotated])

lemma spaced_Nil [simp]: "spaced []" "coalesced []" "below N []"
  by (simp_all add: spaced_def coalesced_def below_def)

lemma spaced_Cons: "spaced ((p, m) # bs) \<longleftrightarrow> 0 < m \<and> (\<forall>(q, k) \<in> set bs. p + m \<le> q) \<and> spaced bs"
  by (auto simp: spaced_def)

lemma coalesced_Cons:
  "coalesced ((p, m) # bs) \<longleftrightarrow> 0 < m \<and> (\<forall>(q, k) \<in> set bs. p + m < q) \<and> coalesced bs"
  by (auto simp: coalesced_def)

lemma below_Cons [simp]: "below N ((p, m) # bs) \<longleftrightarrow> p + m \<le> N \<and> below N bs"
  by (auto simp: below_def)

lemma below_append [simp]: "below N (as @ bs) \<longleftrightarrow> below N as \<and> below N bs"
  by (auto simp: below_def)

lemma total_simps [simp]:
  "total [] = 0" "total ((p, m) # bs) = m + total bs" "total (as @ bs) = total as + total bs"
  by (simp_all add: total_def)

lemma below_cover: "below N bs \<Longrightarrow> cover bs \<subseteq> {..<N}"
  by (induction bs rule: cover.induct) auto

text \<open>A spaced list counts each page once.\<close>

lemma spaced_above: "spaced ((p, m) # bs) \<Longrightarrow> x \<in> cover bs \<Longrightarrow> p + m \<le> x"
  by (fastforce simp: spaced_Cons in_cover)

lemma finite_cover [simp]: "finite (cover bs)"
  by (induction bs rule: cover.induct) auto

lemma card_cover: "spaced bs \<Longrightarrow> card (cover bs) = total bs"
proof (induction bs rule: cover.induct)
  case (2 p m bs)
  have "{p..<p + m} \<inter> cover bs = {}"
    using spaced_above [OF 2(2)] by fastforce
  moreover have "spaced bs" using 2(2) by (simp add: spaced_Cons)
  ultimately show ?case using 2(1) by (simp add: card_Un_disjoint)
qed simp

lemma total_le: "spaced bs \<Longrightarrow> below N bs \<Longrightarrow> total bs \<le> N"
  using card_cover [of bs] card_mono [OF _ below_cover [of N bs]] by simp

section \<open>First fit\<close>

lemma length_le_total: "spaced bs \<Longrightarrow> length bs \<le> total bs"
  by (induction bs) (auto simp: spaced_Cons)

lemma first_fit_Some:
  assumes "first_fit n bs = Some (p, bs')" and "0 < n"
  shows "\<exists>as m cs. bs = as @ (p, m) # cs \<and> (\<forall>b \<in> set as. snd b < n) \<and> n \<le> m
    \<and> bs' = as @ (if n < m then (p + n, m - n) # cs else cs)"
  using assms
proof (induction n bs arbitrary: bs' rule: first_fit.induct)
  case (2 n q k bs)
  show ?case
  proof (cases "n \<le> k")
    case True
    then show ?thesis using 2(2) by (intro exI [of _ "[]"]) auto
  next
    case False
    then obtain bs1 where "first_fit n bs = Some (p, bs1)" and bs': "bs' = (q, k) # bs1"
      using 2(2) by auto
    then obtain as m cs where "bs = as @ (p, m) # cs" "\<forall>b \<in> set as. snd b < n" "n \<le> m"
      "bs1 = as @ (if n < m then (p + n, m - n) # cs else cs)"
      using 2(1) False 2(3) by auto
    then show ?thesis using False bs' by (intro exI [of _ "(q, k) # as"]) auto
  qed
qed simp

lemma first_fit_None: "first_fit n bs = None \<longleftrightarrow> (\<forall>b \<in> set bs. snd b < n)"
  by (induction n bs rule: first_fit.induct) auto

lemma spaced_append:
  "spaced (as @ bs) \<longleftrightarrow> spaced as \<and> spaced bs \<and> (\<forall>(p, m) \<in> set as. \<forall>(q, k) \<in> set bs. p + m \<le> q)"
  by (auto simp: spaced_def sorted_wrt_append)

lemma coalesced_append:
  "coalesced (as @ bs) \<longleftrightarrow>
     coalesced as \<and> coalesced bs \<and> (\<forall>(p, m) \<in> set as. \<forall>(q, k) \<in> set bs. p + m < q)"
  by (auto simp: coalesced_def sorted_wrt_append)

lemma spaced_disjoint: "spaced (as @ bs) \<Longrightarrow> cover as \<inter> cover bs = {}"
  by (fastforce simp: spaced_append in_cover)

text \<open>Cutting \<open>n\<close> pages off the front of one block of a list.\<close>

lemma cut_front_props:
  assumes bs: "bs = as @ (p, m) # cs" and m: "n \<le> m" and n: "0 < n" and sp: "spaced bs"
    and bs': "bs' = as @ (if n < m then (p + n, m - n) # cs else cs)"
  shows "spaced bs'" and "{p..<p + n} \<subseteq> cover bs" and "cover bs' = cover bs - {p..<p + n}"
    and "total bs' = total bs - n" and "n \<le> total bs"
    and "below N bs \<Longrightarrow> below N bs'" and "coalesced bs \<Longrightarrow> coalesced bs'"
proof -
  show sp': "spaced bs'" using sp bs bs' m by (fastforce simp: spaced_append spaced_Cons)
  show "coalesced bs'" if "coalesced bs"
    using that bs bs' m by (fastforce simp: coalesced_append coalesced_Cons)
  show "{p..<p + n} \<subseteq> cover bs" using bs m by auto
  show "n \<le> total bs" "total bs' = total bs - n" using bs bs' m by auto
  show "below N bs'" if "below N bs" using that bs bs' m by auto
  have "cover as \<inter> {p..<p + m} = {}" "cover cs \<inter> {p..<p + m} = {}"
    using spaced_disjoint [of as "(p, m) # cs"] spaced_disjoint [of "[(p, m)]" cs] sp
    by (auto simp: bs spaced_append)
  then show "cover bs' = cover bs - {p..<p + n}" using bs bs' m by (auto split: if_splits)
qed

lemma first_fit_props:
  assumes ff: "first_fit n bs = Some (p, bs')" and n: "0 < n" and sp: "spaced bs"
  shows "spaced bs'" and "{p..<p + n} \<subseteq> cover bs" and "cover bs' = cover bs - {p..<p + n}"
    and "total bs' = total bs - n" and "n \<le> total bs"
    and "below N bs \<Longrightarrow> below N bs'" and "coalesced bs \<Longrightarrow> coalesced bs'"
proof -
  obtain as m cs where bs: "bs = as @ (p, m) # cs" and m: "n \<le> m"
    and bs': "bs' = as @ (if n < m then (p + n, m - n) # cs else cs)"
    using first_fit_Some [OF ff n] by blast
  note props = cut_front_props [OF bs m n sp bs']
  show "spaced bs'" "{p..<p + n} \<subseteq> cover bs" "cover bs' = cover bs - {p..<p + n}"
    "total bs' = total bs - n" "n \<le> total bs"
    using props(1-5) .
  show "below N bs'" if "below N bs" using that by (rule props(6))
  show "coalesced bs'" if "coalesced bs" using that by (rule props(7))
qed

section \<open>Release\<close>

text \<open>The absorbing pass keeps the union of the block and the list, selects a sublist and
  counts every page once; disjointness of the result follows by counting.\<close>

lemma absorb_cover:
  "absorb b m bs = ((b', m'), bs') \<Longrightarrow> {b'..<b' + m'} \<union> cover bs' = {b..<b + m} \<union> cover bs"
proof (induction b m bs arbitrary: b' m' bs' rule: absorb.induct)
  case (2 b m p k bs)
  consider (right) "b + m = p" | (left) "b + m \<noteq> p" "p + k = b"
    | (skip) "b + m \<noteq> p" "p + k \<noteq> b" by blast
  then show ?case
  proof cases
    case right
    then have "{b'..<b' + m'} \<union> cover bs' = {b..<b + (m + k)} \<union> cover bs"
      using 2(1) [OF right] 2(4) by simp
    also have "{b..<b + (m + k)} = {b..<b + m} \<union> {p..<p + k}" using right by auto
    finally show ?thesis by (simp only: cover.simps Un_assoc)
  next
    case left
    then have "{b'..<b' + m'} \<union> cover bs' = {p..<p + (k + m)} \<union> cover bs"
      using 2(2) [OF left] 2(4) by simp
    also have "{p..<p + (k + m)} = {b..<b + m} \<union> {p..<p + k}" using left by auto
    finally show ?thesis by (simp only: cover.simps Un_assoc)
  next
    case skip
    then obtain bs1 where a: "absorb b m bs = ((b', m'), bs1)" and bs': "bs' = (p, k) # bs1"
      using 2(4) by (auto split: prod.splits)
    then show ?thesis
      using 2(3) [OF skip a] by (simp only: cover.simps Un_left_commute [of _ "{p..<p + k}"])
  qed
qed simp

lemma absorb_total: "absorb b m bs = ((b', m'), bs') \<Longrightarrow> m' + total bs' = m + total bs"
  by (induction b m bs arbitrary: b' m' bs' rule: absorb.induct)
     (fastforce split: if_splits prod.splits)+

lemma absorb_subset: "absorb b m bs = ((b', m'), bs') \<Longrightarrow> set bs' \<subseteq> set bs"
  by (induction b m bs arbitrary: b' m' bs' rule: absorb.induct)
     (fastforce split: if_splits prod.splits)+

lemma absorb_pos: "absorb b m bs = ((b', m'), bs') \<Longrightarrow> 0 < m \<Longrightarrow> 0 < m'"
  by (induction b m bs arbitrary: b' m' bs' rule: absorb.induct)
     (fastforce split: if_splits prod.splits)+

lemma absorb_sorted_wrt:
  "absorb b m bs = ((b', m'), bs') \<Longrightarrow> sorted_wrt R bs \<Longrightarrow> sorted_wrt R bs'"
proof (induction b m bs arbitrary: b' m' bs' rule: absorb.induct)
  case (2 b m p k bs)
  then show ?case
    using absorb_subset [of b m bs] by (fastforce split: if_splits prod.splits)
qed simp

lemma absorb_spaced: "absorb b m bs = ((b', m'), bs') \<Longrightarrow> spaced bs \<Longrightarrow> spaced bs'"
  using absorb_subset absorb_sorted_wrt unfolding spaced_def by blast

lemma absorb_coalesced: "absorb b m bs = ((b', m'), bs') \<Longrightarrow> coalesced bs \<Longrightarrow> coalesced bs'"
  using absorb_subset absorb_sorted_wrt unfolding coalesced_def by blast

lemma absorb_disjoint:
  assumes "absorb b m bs = ((b', m'), bs')" and "spaced bs" and "{b..<b + m} \<inter> cover bs = {}"
  shows "{b'..<b' + m'} \<inter> cover bs' = {}"
proof -
  have sp': "spaced bs'" using absorb_spaced assms by blast
  have "card ({b'..<b' + m'} \<union> cover bs') = m + total bs"
    using absorb_cover [OF assms(1)] card_cover [OF assms(2)] assms(3)
    by (simp add: card_Un_disjoint)
  also have "\<dots> = card {b'..<b' + m'} + card (cover bs')"
    using absorb_total [OF assms(1)] card_cover [OF sp'] by simp
  finally have "card ({b'..<b' + m'} \<inter> cover bs') = 0"
    using card_Un_Int [of "{b'..<b' + m'}" "cover bs'"] by simp
  then show ?thesis by simp
qed

text \<open>Where the grown block can end and start.\<close>

lemma absorb_end:
  "absorb b m bs = ((b', m'), bs') \<Longrightarrow>
     b' + m' = b + m \<or> (\<exists>q k. (q, k) \<in> set bs \<and> b' + m' = q + k)"
proof (induction b m bs arbitrary: b' m' bs' rule: absorb.induct)
  case (2 b m p k bs)
  then show ?case by (fastforce split: if_splits prod.splits)
qed simp

lemma absorb_start:
  "absorb b m bs = ((b', m'), bs') \<Longrightarrow> b' = b \<or> (\<exists>k. (b', k) \<in> set bs)"
proof (induction b m bs arbitrary: b' m' bs' rule: absorb.induct)
  case (2 b m p k bs)
  then show ?case by (fastforce split: if_splits prod.splits)
qed simp

lemma absorb_no_right:
  assumes "absorb b m bs = ((b', m'), bs')" and "spaced bs" and "(q, k) \<in> set bs'"
  shows "b' + m' \<noteq> q"
  using assms
proof (induction b m bs arbitrary: b' m' bs' rule: absorb.induct)
  case (2 b m p j bs)
  have sp: "spaced bs" and j: "0 < j" using 2(5) by (auto simp: spaced_Cons)
  consider (right) "b + m = p" | (left) "b + m \<noteq> p" "p + j = b"
    | (skip) "b + m \<noteq> p" "p + j \<noteq> b" by blast
  then show ?case
  proof cases
    case right then show ?thesis using 2 sp by simp
  next
    case left then show ?thesis using 2 sp by simp
  next
    case skip
    then obtain bs1 where a: "absorb b m bs = ((b', m'), bs1)" and bs': "bs' = (p, j) # bs1"
      using 2(4) by (auto split: prod.splits)
    show ?thesis
    proof (cases "(q, k) \<in> set bs1")
      case True
      then show ?thesis using 2(3) [OF skip a sp] by simp
    next
      case False
      then have "q = p" using bs' 2(6) by simp
      moreover have "b' + m' \<noteq> p"
        using absorb_end [OF a] skip(1) 2(5) by (fastforce simp: spaced_Cons)
      ultimately show ?thesis by simp
    qed
  qed
qed simp

lemma absorb_no_left:
  assumes "absorb b m bs = ((b', m'), bs')" and "coalesced bs" and "(q, k) \<in> set bs'"
  shows "q + k \<noteq> b'"
  using assms
proof (induction b m bs arbitrary: b' m' bs' rule: absorb.induct)
  case (2 b m p j bs)
  have sp: "coalesced bs" using 2(5) by (auto simp: coalesced_Cons)
  consider (right) "b + m = p" | (left) "b + m \<noteq> p" "p + j = b"
    | (skip) "b + m \<noteq> p" "p + j \<noteq> b" by blast
  then show ?case
  proof cases
    case right then show ?thesis using 2 sp by simp
  next
    case left then show ?thesis using 2 sp by simp
  next
    case skip
    then obtain bs1 where a: "absorb b m bs = ((b', m'), bs1)" and bs': "bs' = (p, j) # bs1"
      using 2(4) by (auto split: prod.splits)
    show ?thesis
    proof (cases "(q, k) \<in> set bs1")
      case True
      then show ?thesis using 2(3) [OF skip a sp] by simp
    next
      case False
      then have "q = p \<and> k = j" using bs' 2(6) by simp
      moreover have "p + j \<noteq> b'"
        using absorb_start [OF a] skip(2) 2(5) by (fastforce simp: coalesced_Cons)
      ultimately show ?thesis by simp
    qed
  qed
qed simp

text \<open>Ordered insertion.\<close>

lemma insert_block_cover [simp]: "cover (insert_block (b, m) bs) = {b..<b + m} \<union> cover bs"
  by (induction "(b, m)" bs rule: insert_block.induct) auto

lemma insert_block_total [simp]: "total (insert_block (b, m) bs) = m + total bs"
  by (induction "(b, m)" bs rule: insert_block.induct) auto

lemma insert_block_set [simp]: "set (insert_block x bs) = insert x (set bs)"
  by (induction x bs rule: insert_block.induct) auto

lemma disjoint_intervals:
  fixes b m p k :: nat
  assumes "{b..<b + m} \<inter> {p..<p + k} = {}" and "0 < m" and "0 < k" and "\<not> b + m \<le> p"
  shows "p + k \<le> b"
proof (rule ccontr)
  assume "\<not> p + k \<le> b"
  then have "max b p \<in> {b..<b + m} \<inter> {p..<p + k}" using assms(2-4) by auto
  then show False using assms(1) by blast
qed

lemma insert_block_spaced:
  assumes "spaced bs" and "0 < m" and "{b..<b + m} \<inter> cover bs = {}"
  shows "spaced (insert_block (b, m) bs)"
  using assms
proof (induction "(b, m)" bs rule: insert_block.induct)
  case (2 p k bs)
  show ?case
  proof (cases "b + m \<le> p")
    case True
    then show ?thesis using 2(2,3) by (auto simp: spaced_Cons)
  next
    case False
    have "{b..<b + m} \<inter> {p..<p + k} = {}" using 2(4) by (simp add: Int_Un_distrib)
    then have "p + k \<le> b"
      using 2(2,3) False disjoint_intervals [of b m p k] by (auto simp: spaced_Cons)
    moreover have "spaced (insert_block (b, m) bs)"
      using 2 False by (auto simp: spaced_Cons)
    ultimately show ?thesis using 2(2) False by (auto simp: spaced_Cons)
  qed
qed (simp add: spaced_Cons)

lemma insert_block_coalesced:
  assumes "coalesced bs" and "0 < m" and "{b..<b + m} \<inter> cover bs = {}"
    and "\<forall>(q, k) \<in> set bs. b + m \<noteq> q \<and> q + k \<noteq> b"
  shows "coalesced (insert_block (b, m) bs)"
proof -
  have sp: "spaced (insert_block (b, m) bs)"
    using assms coalesced_spaced insert_block_spaced by blast
  show ?thesis using assms sp
  proof (induction "(b, m)" bs rule: insert_block.induct)
    case (2 p k bs)
    show ?case
    proof (cases "b + m \<le> p")
      case True
      then show ?thesis using 2(2,3,5) by (fastforce simp: coalesced_Cons)
    next
      case False
      then have "coalesced (insert_block (b, m) bs)"
        using 2 by (auto simp: coalesced_Cons spaced_Cons)
      moreover have "p + k \<le> b" using 2(6) False by (auto simp: spaced_Cons)
      ultimately show ?thesis using 2(2,5) False by (fastforce simp: coalesced_Cons)
    qed
  qed (simp add: coalesced_Cons)
qed

lemma release_props:
  assumes sp: "spaced bs" and m: "0 < m" and disj: "{b..<b + m} \<inter> cover bs = {}"
  shows "spaced (release b m bs)"
    and "cover (release b m bs) = {b..<b + m} \<union> cover bs"
    and "total (release b m bs) = m + total bs"
    and "coalesced bs \<Longrightarrow> coalesced (release b m bs)"
proof -
  obtain b' m' bs' where a: "absorb b m bs = ((b', m'), bs')" by (metis surj_pair)
  have d: "{b'..<b' + m'} \<inter> cover bs' = {}" "0 < m'" "spaced bs'"
    using absorb_disjoint [OF a sp disj] absorb_pos [OF a m] absorb_spaced [OF a sp] .
  show "spaced (release b m bs)"
    unfolding release_def a using d by (simp add: insert_block_spaced)
  show "cover (release b m bs) = {b..<b + m} \<union> cover bs"
    unfolding release_def a using absorb_cover [OF a] by simp
  show "total (release b m bs) = m + total bs"
    unfolding release_def a using absorb_total [OF a] by simp
  show "coalesced (release b m bs)" if "coalesced bs"
  proof -
    have "\<forall>(q, k) \<in> set bs'. b' + m' \<noteq> q \<and> q + k \<noteq> b'"
      using absorb_no_right [OF a sp] absorb_no_left [OF a that] by blast
    then show ?thesis
      unfolding release_def a
      using d insert_block_coalesced [OF absorb_coalesced [OF a that]] by simp
  qed
qed

lemma release_total_le:
  assumes "spaced bs" and "0 < m" and "{b..<b + m} \<inter> cover bs = {}" and "below N bs" and "b + m \<le> N"
  shows "m + total bs \<le> N"
proof -
  have "cover (release b m bs) \<subseteq> {..<N}"
    using release_props(2) [OF assms(1-3)] below_cover [OF assms(4)] assms(5) by auto
  then have "card (cover (release b m bs)) \<le> card {..<N}" by (intro card_mono) auto
  then show ?thesis
    using card_cover [OF release_props(1) [OF assms(1-3)]] release_props(3) [OF assms(1-3)] by simp
qed

section \<open>Canonicity\<close>

text \<open>Every maximal run of covered pages is one block of a coalesced list.\<close>

lemma coalesced_run:
  assumes "coalesced bs" and "0 < n" and "{x..<x + n} \<subseteq> cover bs"
  shows "\<exists>p m. (p, m) \<in> set bs \<and> p \<le> x \<and> x + n \<le> p + m"
  using assms
proof (induction bs rule: cover.induct)
  case (2 p m bs)
  have above: "p + m < y" if "y \<in> cover bs" for y
    using that 2(2) by (fastforce simp: coalesced_Cons in_cover)
  show ?case
  proof (cases "x < p + m")
    case True
    have "p + m \<notin> cover ((p, m) # bs)" using above [of "p + m"] by auto
    then have "p + m \<notin> {x..<x + n}" using 2(4) by blast
    moreover have "x \<in> {x..<x + n}" using 2(3) by simp
    then have "x \<in> cover ((p, m) # bs)" using 2(4) by blast
    then have "p \<le> x" using above [of x] True by auto
    ultimately show ?thesis using True by (intro exI [of _ p] exI [of _ m]) auto
  next
    case False
    then have "{x..<x + n} \<subseteq> cover bs" using 2(4) by auto
    moreover have "coalesced bs" using 2(2) by (simp add: coalesced_Cons)
    ultimately obtain q k where "(q, k) \<in> set bs \<and> q \<le> x \<and> x + n \<le> q + k"
      using 2(1,3) by blast
    then show ?thesis by (intro exI [of _ q] exI [of _ k]) simp
  qed
qed auto

lemma first_fit_lowest:
  assumes ff: "first_fit n bs = Some (p, bs')" and n: "0 < n" and co: "coalesced bs" and x: "x < p"
  shows "\<not> {x..<x + n} \<subseteq> cover bs"
proof
  assume "{x..<x + n} \<subseteq> cover bs"
  then obtain q k where qk: "(q, k) \<in> set bs" "q \<le> x" "x + n \<le> q + k"
    using coalesced_run [OF co n] by blast
  obtain as m cs where bs: "bs = as @ (p, m) # cs" and small: "\<forall>b \<in> set as. snd b < n"
    using first_fit_Some [OF ff n] by blast
  have "(q, k) \<notin> set as" using small qk by fastforce
  then have "(q, k) = (p, m) \<or> (q, k) \<in> set cs" using qk(1) bs by auto
  moreover have "p + m < q" if "(q, k) \<in> set cs"
    using that co bs by (auto simp: coalesced_append coalesced_Cons)
  ultimately show False using qk(2) x by fastforce
qed

lemma coalesced_unique:
  "coalesced as \<Longrightarrow> coalesced bs \<Longrightarrow> cover as = cover bs \<Longrightarrow> as = bs"
proof (induction as arbitrary: bs rule: cover.induct)
  case 1
  then show ?case by (cases bs rule: cover.cases) (auto simp: coalesced_Cons)
next
  case (2 p m as)
  then obtain q k bs' where bs: "bs = (q, k) # bs'"
    by (cases bs rule: cover.cases) (auto simp: coalesced_Cons)
  have m: "0 < m" and k: "0 < k" using 2 bs by (auto simp: coalesced_Cons)
  have abA: "p + m < y" if "y \<in> cover as" for y
    using that 2(2) by (fastforce simp: coalesced_Cons in_cover)
  have abB: "q + k < y" if "y \<in> cover bs'" for y
    using that 2(3) bs by (fastforce simp: coalesced_Cons in_cover)
  have eq: "{p..<p + m} \<union> cover as = {q..<q + k} \<union> cover bs'" using 2(4) bs by simp
  have "p \<in> {q..<q + k} \<union> cover bs'" "q \<in> {p..<p + m} \<union> cover as"
    using eq m k by auto
  then have pq: "p = q" using abA abB by (meson UnE atLeastLessThan_iff le_add1 le_antisym
        less_imp_le_nat order_trans)
  have "\<not> m < k"
  proof
    assume "m < k"
    then have "p + m \<in> {p..<p + m} \<union> cover as" using eq pq by simp
    then show False using abA [of "p + m"] by auto
  qed
  moreover have "\<not> k < m"
  proof
    assume "k < m"
    then have "q + k \<in> {q..<q + k} \<union> cover bs'" using eq pq by auto
    then show False using abB [of "q + k"] by auto
  qed
  ultimately have mk: "m = k" by simp
  have "cover as = cover bs'"
  proof (intro set_eqI iffI)
    fix y assume "y \<in> cover as"
    then have "y \<in> {q..<q + k} \<union> cover bs'" "p + m < y" using eq abA by blast+
    then show "y \<in> cover bs'" using pq mk by simp
  next
    fix y assume "y \<in> cover bs'"
    then have "y \<in> {p..<p + m} \<union> cover as" "q + k < y" using eq abB by blast+
    then show "y \<in> cover as" using pq mk by simp
  qed
  then show ?case using 2 bs pq mk by (simp add: coalesced_Cons)
qed

end
