(* ===== verification/First_Fit.thy ===== *)
theory First_Fit
  imports DList Blocks
begin

text \<open>
  The physical page allocator of \<open>kern/mm/default_pmm.c\<close> at the level of its pointers: the
  page descriptors, the free list threaded through \<open>page_link\<close> and the counter
  \<open>nr_free\<close>. The operations are refined to the block lists of theory \<open>Blocks\<close>; on
  top of the refinement stand the invariant, the exact behaviour of allocation and release and
  the interface \<open>pmm_manager\<close> of \<open>kern/mm/pmm.h\<close>, a struct of function pointers in C
  and a locale here, which the allocator interprets.
\<close>

section \<open>Page descriptors and the allocator state\<close>

record page =
  ref :: int
  flags :: u32
  property :: u32
  zone_num :: int
  pra_vaddr :: u32

definition PG_reserved :: nat where "PG_reserved = 0"
definition PG_property :: nat where "PG_property = 1"

definition SetPageReserved :: "page \<Rightarrow> page" where
  "SetPageReserved pg = pg\<lparr>flags := set_bit PG_reserved (flags pg)\<rparr>"
definition ClearPageReserved :: "page \<Rightarrow> page" where
  "ClearPageReserved pg = pg\<lparr>flags := unset_bit PG_reserved (flags pg)\<rparr>"
definition PageReserved :: "page \<Rightarrow> bool" where
  "PageReserved pg \<longleftrightarrow> bit (flags pg) PG_reserved"
definition SetPageProperty :: "page \<Rightarrow> page" where
  "SetPageProperty pg = pg\<lparr>flags := set_bit PG_property (flags pg)\<rparr>"
definition ClearPageProperty :: "page \<Rightarrow> page" where
  "ClearPageProperty pg = pg\<lparr>flags := unset_bit PG_property (flags pg)\<rparr>"
definition PageProperty :: "page \<Rightarrow> bool" where
  "PageProperty pg \<longleftrightarrow> bit (flags pg) PG_property"

text \<open>List entries: the head \<open>free_area.free_list\<close> and the \<open>page_link\<close> of a page;
  \<open>le2page\<close> is only ever applied to the latter.\<close>

datatype pnode = FreeList | PageLink nat

fun le2page :: "pnode \<Rightarrow> nat" where
  "le2page (PageLink p) = p"

record pmm =
  pages :: "nat \<Rightarrow> page"
  npage :: u32
  free_list :: "pnode links"
  nr_free :: u32

definition upd_page :: "pmm \<Rightarrow> nat \<Rightarrow> (page \<Rightarrow> page) \<Rightarrow> pmm" where
  "upd_page s p f = s\<lparr>pages := (pages s)(p := f (pages s p))\<rparr>"

section \<open>The operations of default\_pmm.c\<close>

definition default_init :: "pmm \<Rightarrow> pmm" where
  "default_init s = s\<lparr>free_list := list_init (free_list s) FreeList, nr_free := 0\<rparr>"

fun init_memmap_loop :: "nat \<Rightarrow> pmm \<Rightarrow> nat \<Rightarrow> pmm res" where
  "init_memmap_loop 0 s p = Ok s"
| "init_memmap_loop (Suc k) s p =
     assert_c (PageReserved (pages s p))
       (init_memmap_loop k (upd_page s p (\<lambda>pg. pg\<lparr>flags := 0, property := 0, ref := 0\<rparr>)) (Suc p))"

definition default_init_memmap :: "pmm \<Rightarrow> nat \<Rightarrow> u32 \<Rightarrow> pmm res" where
  "default_init_memmap s base n =
     assert_c (0 < n)
      (res_bind (init_memmap_loop (unat n) s base) (\<lambda>s1.
        let s2 = upd_page s1 base (\<lambda>pg. pg\<lparr>property := n\<rparr>);
            s3 = upd_page s2 base SetPageProperty;
            s4 = s3\<lparr>nr_free := nr_free s3 + n\<rparr>
        in Ok (s4\<lparr>free_list := list_add_before (free_list s4) FreeList (PageLink base)\<rparr>)))"

text \<open>The part of \<open>default_alloc_pages\<close> after the search: split the rest off the block that was
  found, unlink the block, count, clear the head mark.\<close>

definition take_front :: "pmm \<Rightarrow> nat \<Rightarrow> u32 \<Rightarrow> pmm" where
  "take_front s page n =
     (let s1 = (if n < property (pages s page)
                then (let p = page + unat n;
                          t1 = upd_page s p (\<lambda>pg. pg\<lparr>property := property (pages s page) - n\<rparr>);
                          t2 = upd_page t1 p SetPageProperty
                      in t2\<lparr>free_list := list_add_after (free_list t2) (PageLink page) (PageLink p)\<rparr>)
                else s);
          s2 = s1\<lparr>free_list := list_del (free_list s1) (PageLink page)\<rparr>;
          s3 = s2\<lparr>nr_free := nr_free s2 - n\<rparr>
      in upd_page s3 page ClearPageProperty)"

definition default_alloc_pages :: "pmm \<Rightarrow> u32 \<Rightarrow> (nat option \<times> pmm) res" where
  "default_alloc_pages s n =
     assert_c (0 < n)
      (if nr_free s < n then Ok (None, s)
       else res_bind (list_find (Suc (unat (npage s))) (free_list s) FreeList
                        (\<lambda>le. n \<le> property (pages s (le2page le))) FreeList)
        (\<lambda>r. case r of
           None \<Rightarrow> Ok (None, s)
         | Some le \<Rightarrow> Ok (Some (le2page le), take_front s (le2page le) n)))"

fun free_check_loop :: "nat \<Rightarrow> pmm \<Rightarrow> nat \<Rightarrow> pmm res" where
  "free_check_loop 0 s p = Ok s"
| "free_check_loop (Suc k) s p =
     assert_c (\<not> PageReserved (pages s p) \<and> \<not> PageProperty (pages s p))
       (free_check_loop k (upd_page s p (\<lambda>pg. pg\<lparr>flags := 0, ref := 0\<rparr>)) (Suc p))"

text \<open>The first \<open>while\<close> loop of \<open>default_free_pages\<close>: merge \<open>base\<close> with every free block that
  touches it.\<close>

fun merge_loop :: "nat \<Rightarrow> pmm \<Rightarrow> nat \<Rightarrow> pnode \<Rightarrow> (nat \<times> pmm) res" where
  "merge_loop 0 s base le = Diverge"
| "merge_loop (Suc fuel) s base le =
     (if le = FreeList then Ok (base, s)
      else
       let p = le2page le;
           le' = list_next (free_list s) le
       in if base + unat (property (pages s base)) = p then
            let s1 = upd_page s base
                       (\<lambda>pg. pg\<lparr>property := property pg + property (pages s p)\<rparr>);
                s2 = upd_page s1 p ClearPageProperty
            in merge_loop fuel (s2\<lparr>free_list := list_del (free_list s2) (PageLink p)\<rparr>) base le'
          else if p + unat (property (pages s p)) = base then
            let s1 = upd_page s p
                       (\<lambda>pg. pg\<lparr>property := property pg + property (pages s base)\<rparr>);
                s2 = upd_page s1 base ClearPageProperty
            in merge_loop fuel (s2\<lparr>free_list := list_del (free_list s2) (PageLink p)\<rparr>) p le'
          else merge_loop fuel s base le')"

text \<open>The second loop: the first free block that lies above \<open>base\<close>, or the head.\<close>

fun free_pos_loop :: "nat \<Rightarrow> pmm \<Rightarrow> nat \<Rightarrow> pnode \<Rightarrow> pnode res" where
  "free_pos_loop 0 s base le = Diverge"
| "free_pos_loop (Suc fuel) s base le =
     (if le = FreeList then Ok le
      else
       let p = le2page le
       in if base + unat (property (pages s base)) \<le> p
          then assert_c (base + unat (property (pages s base)) \<noteq> p) (Ok le)
          else free_pos_loop fuel s base (list_next (free_list s) le))"

definition default_free_pages :: "pmm \<Rightarrow> nat \<Rightarrow> u32 \<Rightarrow> pmm res" where
  "default_free_pages s base n =
     assert_c (0 < n)
      (res_bind (free_check_loop (unat n) s base) (\<lambda>s1.
        let s2 = upd_page s1 base (\<lambda>pg. pg\<lparr>property := n\<rparr>);
            s3 = upd_page s2 base SetPageProperty
        in res_bind (merge_loop (Suc (unat (npage s))) s3 base (list_next (free_list s3) FreeList))
         (\<lambda>(base', s4).
            let s5 = s4\<lparr>nr_free := nr_free s4 + n\<rparr>
            in res_bind (free_pos_loop (Suc (unat (npage s))) s5 base'
                           (list_next (free_list s5) FreeList))
             (\<lambda>le. Ok (s5\<lparr>free_list := list_add_before (free_list s5) le (PageLink base')\<rparr>)))))"

definition default_nr_free_pages :: "pmm \<Rightarrow> u32" where
  "default_nr_free_pages s = nr_free s"

section \<open>Abstraction and invariant\<close>

definition blk :: "pmm \<Rightarrow> nat \<Rightarrow> nat \<times> nat" where
  "blk s p = (p, unat (property (pages s p)))"

fun walk_pages :: "nat \<Rightarrow> pnode links \<Rightarrow> pnode \<Rightarrow> nat list" where
  "walk_pages 0 h le = []"
| "walk_pages (Suc k) h le =
     (case list_next h le of FreeList \<Rightarrow> [] | PageLink p \<Rightarrow> p # walk_pages k h (PageLink p))"

text \<open>The free blocks in list order, and the free pages.\<close>

definition free_blocks :: "pmm \<Rightarrow> blocks" where
  "free_blocks s = map (blk s) (walk_pages (unat (npage s)) (free_list s) FreeList)"

definition free_pages_of :: "pmm \<Rightarrow> nat set" where
  "free_pages_of s = cover (free_blocks s)"

text \<open>\<open>ff_ok s ps\<close>: the free list holds the block heads \<open>ps\<close>, in ascending order; blocks are
  nonempty, disjoint and inside the managed memory; \<open>PG_property\<close> marks exactly the heads;
  free pages are not reserved; \<open>nr_free\<close> is their number.\<close>

definition ff_ok :: "pmm \<Rightarrow> nat list \<Rightarrow> bool" where
  "ff_ok s ps \<longleftrightarrow>
     dl_rep (free_list s) FreeList (map PageLink ps)
     \<and> spaced (map (blk s) ps) \<and> below (unat (npage s)) (map (blk s) ps)
     \<and> (\<forall>p < unat (npage s). PageProperty (pages s p) \<longleftrightarrow> p \<in> set ps)
     \<and> (\<forall>p \<in> cover (map (blk s) ps). \<not> PageReserved (pages s p))
     \<and> unat (nr_free s) = total (map (blk s) ps)"

definition ff_inv :: "pmm \<Rightarrow> bool" where
  "ff_inv s \<longleftrightarrow> (\<exists>ps. ff_ok s ps)"

named_theorems flag_simps

lemma page_flag_simps [flag_simps, simp]:
  "PageProperty (SetPageProperty pg)" "\<not> PageProperty (ClearPageProperty pg)"
  "PageReserved (SetPageReserved pg)" "\<not> PageReserved (ClearPageReserved pg)"
  "PageReserved (SetPageProperty pg) = PageReserved pg"
  "PageReserved (ClearPageProperty pg) = PageReserved pg"
  "PageProperty (SetPageReserved pg) = PageProperty pg"
  "PageProperty (ClearPageReserved pg) = PageProperty pg"
  "property (SetPageProperty pg) = property pg" "property (ClearPageProperty pg) = property pg"
  "ref (SetPageProperty pg) = ref pg" "ref (ClearPageProperty pg) = ref pg"
  "flags pg = 0 \<Longrightarrow> \<not> PageProperty pg" "flags pg = 0 \<Longrightarrow> \<not> PageReserved pg"
  "PageProperty (pg\<lparr>property := v\<rparr>) = PageProperty pg"
  "PageReserved (pg\<lparr>property := v\<rparr>) = PageReserved pg"
  by (simp_all add: PageProperty_def SetPageProperty_def ClearPageProperty_def PageReserved_def
      SetPageReserved_def ClearPageReserved_def PG_reserved_def PG_property_def
      bit_set_bit_iff bit_unset_bit_iff bit_simps)

lemma upd_page_simps [simp]:
  "pages (upd_page s p f) = (pages s)(p := f (pages s p))"
  "npage (upd_page s p f) = npage s" "nr_free (upd_page s p f) = nr_free s"
  "free_list (upd_page s p f) = free_list s"
  by (simp_all add: upd_page_def)

lemma blk_upd_other [simp]: "q \<noteq> p \<Longrightarrow> blk (upd_page s p f) q = blk s q"
  by (simp add: blk_def)

lemma blk_free_list [simp]: "blk (s\<lparr>free_list := l\<rparr>) q = blk s q" "blk (s\<lparr>nr_free := k\<rparr>) q = blk s q"
  by (simp_all add: blk_def)

lemma map_blk_upd [simp]: "p \<notin> set ps \<Longrightarrow> map (blk (upd_page s p f)) ps = map (blk s) ps"
  by (auto simp: blk_def)

lemma map_blk_frame [simp]:
  "map (blk (s\<lparr>free_list := l\<rparr>)) ps = map (blk s) ps"
  "map (blk (s\<lparr>nr_free := k\<rparr>)) ps = map (blk s) ps"
  by (auto simp: blk_def)

lemma ff_okD:
  assumes "ff_ok s ps"
  shows "dl_rep (free_list s) FreeList (map PageLink ps)" and "spaced (map (blk s) ps)"
    and "below (unat (npage s)) (map (blk s) ps)" and "unat (nr_free s) = total (map (blk s) ps)"
    and "\<forall>p < unat (npage s). PageProperty (pages s p) \<longleftrightarrow> p \<in> set ps"
    and "\<forall>p \<in> cover (map (blk s) ps). \<not> PageReserved (pages s p)"
  using assms by (auto simp: ff_ok_def)

lemma ff_ok_heads:
  assumes "ff_ok s ps"
  shows "distinct ps" and "set ps \<subseteq> cover (map (blk s) ps)" and "set ps \<subseteq> {..<unat (npage s)}"
    and "length ps \<le> unat (npage s)"
proof -
  have sp: "spaced (map (blk s) ps)" and be: "below (unat (npage s)) (map (blk s) ps)"
    and dl: "dl_rep (free_list s) FreeList (map PageLink ps)"
    using assms by (auto simp: ff_ok_def)
  show d: "distinct ps" using dl by (auto simp: dl_rep_def distinct_map)
  have "p \<in> cover (map (blk s) ps)" if "p \<in> set ps" for p
  proof -
    have "(p, unat (property (pages s p))) \<in> set (map (blk s) ps)" using that by (auto simp: blk_def)
    moreover have "0 < unat (property (pages s p))"
      using that sp unfolding spaced_def by (auto simp: blk_def)
    ultimately show ?thesis unfolding in_cover by (metis le_refl less_add_same_cancel1)
  qed
  then show sub: "set ps \<subseteq> cover (map (blk s) ps)" by blast
  then show lt: "set ps \<subseteq> {..<unat (npage s)}" using below_cover [OF be] by blast
  show "length ps \<le> unat (npage s)"
    using card_mono [OF _ lt] distinct_card [OF d] by simp
qed

lemma walk_pages_rep:
  assumes "dl_rep h FreeList (map PageLink (as @ ps))" and "le = last (FreeList # map PageLink as)"
    and "length ps \<le> k"
  shows "walk_pages k h le = ps"
  using assms
proof (induction ps arbitrary: as le k)
  case Nil
  then have "list_next h le = FreeList"
    using dl_rep_next_last [of h FreeList "map PageLink as"] by simp
  then show ?case by (cases k) auto
next
  case (Cons p ps)
  then obtain j where k: "k = Suc j" "length ps \<le> j" by (cases k) auto
  have nxt: "list_next h le = PageLink p"
    using dl_rep_next_mid [of h FreeList "map PageLink as" "PageLink p" "map PageLink ps"]
      Cons.prems(1,2) by simp
  have "walk_pages j h (PageLink p) = ps"
    by (rule Cons.IH [of "as @ [p]"]) (use Cons.prems(1) k in simp_all)
  then show ?case using nxt k by simp
qed

text \<open>Under the invariant the abstraction is the block list of the heads.\<close>

lemma free_blocks_eq: "ff_ok s ps \<Longrightarrow> free_blocks s = map (blk s) ps"
  using walk_pages_rep [of "free_list s" "[]" ps FreeList "unat (npage s)"] ff_ok_heads(4) [of s ps]
  by (simp add: free_blocks_def ff_ok_def)

lemma ff_inv_blocks:
  assumes "ff_inv s"
  shows "spaced (free_blocks s)" and "below (unat (npage s)) (free_blocks s)"
    and "unat (nr_free s) = total (free_blocks s)"
    and "\<And>p. p \<in> free_pages_of s \<Longrightarrow> \<not> PageReserved (pages s p)"
  using assms by (auto simp: ff_inv_def free_blocks_eq free_pages_of_def) (auto simp: ff_ok_def)

section \<open>Allocation refines first fit\<close>

lemma find_split:
  "find P xs = Some x \<Longrightarrow> \<exists>as cs. xs = as @ x # cs \<and> P x \<and> (\<forall>a \<in> set as. \<not> P a)"
proof (induction xs)
  case (Cons y xs)
  show ?case
  proof (cases "P y")
    case True
    then show ?thesis
      by - (rule exI [of _ "[]"], rule exI [of _ xs], use Cons.prems in auto)
  next
    case False
    then obtain as cs where "xs = as @ x # cs \<and> P x \<and> (\<forall>a \<in> set as. \<not> P a)"
      using Cons by auto
    then show ?thesis
      by - (rule exI [of _ "y # as"], rule exI [of _ cs], use False in auto)
  qed
qed simp

lemma first_fit_skip:
  "\<forall>b \<in> set as. snd b < n \<Longrightarrow>
   first_fit n (as @ bs) = map_option (\<lambda>(q, cs). (q, as @ cs)) (first_fit n bs)"
proof (induction as)
  case (Cons a as)
  obtain p m where "a = (p, m)" by (cases a)
  then show ?case using Cons by (auto simp: option.map_comp comp_def split_def)
qed (simp add: option.map_id)

lemma default_alloc_pages_eq:
  assumes ok: "ff_ok s ps" and n: "0 < n"
  shows "default_alloc_pages s n =
    (if nr_free s < n then Ok (None, s)
     else case find (\<lambda>p. n \<le> property (pages s p)) ps of
            None \<Rightarrow> Ok (None, s) | Some p \<Rightarrow> Ok (Some p, take_front s p n))"
proof -
  have dl: "dl_rep (free_list s) FreeList (map PageLink ps)"
    and len: "length (map PageLink ps) < Suc (unat (npage s))"
    using ok ff_ok_heads(4) [OF ok] by (auto simp: ff_ok_def)
  have "find (\<lambda>le. n \<le> property (pages s (le2page le))) (map PageLink ps)
      = map_option PageLink (find (\<lambda>p. n \<le> property (pages s p)) ps)"
    by (induction ps) auto
  then show ?thesis
    using n list_find_head [OF dl refl len]
    by (auto simp: default_alloc_pages_def split: option.split)
qed

lemma spaced_head_notin:
  assumes "spaced (map (blk s) (as @ p # cs))" and "p < q" and "q < p + unat (property (pages s p))"
  shows "q \<notin> set (as @ p # cs)"
proof
  assume "q \<in> set (as @ p # cs)"
  then consider "q \<in> set as" | "q = p" | "q \<in> set cs" by auto
  then show False
  proof cases
    case 1
    have "q + unat (property (pages s q)) \<le> p"
      using 1 assms(1) by (auto simp: spaced_append blk_def)
    then show False using assms(2) by simp
  next
    case 3
    have "p + unat (property (pages s p)) \<le> q"
      using 3 assms(1) by (auto simp: spaced_append spaced_Cons blk_def)
    then show False using assms(3) by simp
  qed (use assms(2) in simp)
qed

lemma take_front_frame:
  "npage (take_front s p n) = npage s"
  "ref (pages (take_front s p n) q) = ref (pages s q)"
  "PageReserved (pages (take_front s p n) q) = PageReserved (pages s q)"
  "nr_free (take_front s p n) = nr_free s - n"
  by (simp_all add: take_front_def Let_def)

lemma take_front_ok:
  assumes ok: "ff_ok s (as @ p # cs)" and n: "0 < n" and le: "n \<le> property (pages s p)"
    and ps': "ps' = as @ (if n < property (pages s p) then (p + unat n) # cs else cs)"
  shows "ff_ok (take_front s p n) ps'"
    and "map (blk (take_front s p n)) ps' =
      map (blk s) as @ (if n < property (pages s p)
        then (p + unat n, unat (property (pages s p)) - unat n) # map (blk s) cs
        else map (blk s) cs)"
proof -
  let ?s = "take_front s p n" and ?m = "property (pages s p)" and ?q = "p + unat n"
  let ?N = "unat (npage s)"
  have dl: "dl_rep (free_list s) FreeList (map PageLink as @ PageLink p # map PageLink cs)"
    and sp: "spaced (map (blk s) (as @ p # cs))" and be: "below ?N (map (blk s) (as @ p # cs))"
    and pr: "\<forall>x < ?N. PageProperty (pages s x) \<longleftrightarrow> x \<in> set (as @ p # cs)"
    and rs: "\<forall>x \<in> cover (map (blk s) (as @ p # cs)). \<not> PageReserved (pages s x)"
    and nr: "unat (nr_free s) = total (map (blk s) (as @ p # cs))"
    using ok by (auto simp: ff_ok_def)
  have d: "distinct (as @ p # cs)" using ff_ok_heads(1) [OF ok] .
  have un: "0 < unat n" "unat n \<le> unat ?m"
    using n le by (simp_all add: unat_gt_0 word_le_nat_alt)
  have lt: "n < ?m \<longleftrightarrow> unat n < unat ?m" by (simp add: word_less_nat_alt)
  have qn: "?q \<notin> set (as @ p # cs)" if "n < ?m"
    using spaced_head_notin [OF sp, of ?q] un that lt by simp
  have pm: "p + unat ?m \<le> ?N" using be by (simp add: blk_def)
  have sub: "unat (?m - n) = unat ?m - unat n" using le by (simp add: unat_sub)
  show blks: "map (blk ?s) ps' = map (blk s) as @ (if n < ?m
        then (?q, unat ?m - unat n) # map (blk s) cs else map (blk s) cs)"
    using d qn un sub by (auto simp: take_front_def Let_def ps' blk_def)
  have dl': "dl_rep (free_list ?s) FreeList (map PageLink ps')"
  proof (cases "n < ?m")
    case True
    have "PageLink ?q \<notin> set (FreeList # map PageLink as @ PageLink p # map PageLink cs)"
      using qn [OF True] by auto
    from dl_rep_add_after [OF dl this]
    show ?thesis using True dl_rep_del [of _ FreeList "map PageLink as" "PageLink p"]
      by (simp add: take_front_def Let_def ps')
  next
    case False
    then show ?thesis using dl_rep_del [OF dl] by (simp add: take_front_def Let_def ps')
  qed
  have "map (blk s) (as @ p # cs) = map (blk s) as @ (p, unat ?m) # map (blk s) cs"
    by (simp add: blk_def)
  note cut = cut_front_props [OF this un(2,1) sp, of "map (blk ?s) ps'"]
  have bs': "map (blk ?s) ps' = map (blk s) as @ (if unat n < unat ?m
        then (?q, unat ?m - unat n) # map (blk s) cs else map (blk s) cs)"
    using blks lt by simp
  note cut = cut [OF bs']
  have "PageProperty (pages ?s x) \<longleftrightarrow> x \<in> set ps'" if "x < ?N" for x
    using pr that d qn by (auto simp: take_front_def Let_def ps')
  moreover have "\<forall>x \<in> cover (map (blk ?s) ps'). \<not> PageReserved (pages ?s x)"
    using rs cut(3) by (simp add: take_front_frame)
  moreover have "unat (nr_free ?s) = total (map (blk ?s) ps')"
    using cut(4,5) nr by (simp add: take_front_frame unat_sub word_le_nat_alt)
  ultimately show "ff_ok ?s ps'"
    using dl' cut(1) cut(6) [OF be] by (simp add: ff_ok_def take_front_frame)
qed

text \<open>The refinement: allocation never panics or diverges and is first fit on the free blocks.\<close>

lemma alloc_refines:
  assumes inv: "ff_inv s" and n: "0 < n"
  shows "\<exists>s'. default_alloc_pages s n = Ok (map_option fst (first_fit (unat n) (free_blocks s)), s')
      \<and> ff_inv s' \<and> npage s' = npage s
      \<and> free_blocks s' = (case first_fit (unat n) (free_blocks s) of None \<Rightarrow> free_blocks s | Some (_, bs) \<Rightarrow> bs)
      \<and> (\<forall>p. ref (pages s' p) = ref (pages s p))
      \<and> (\<forall>p. PageReserved (pages s' p) = PageReserved (pages s p))"
proof -
  obtain ps where ok: "ff_ok s ps" using inv by (auto simp: ff_inv_def)
  have bs: "free_blocks s = map (blk s) ps" by (rule free_blocks_eq [OF ok])
  have un: "0 < unat n" using n by (simp add: unat_gt_0)
  show ?thesis
  proof (cases "find (\<lambda>p. n \<le> property (pages s p)) ps")
    case None
    then have "\<forall>b \<in> set (map (blk s) ps). snd b < unat n"
      by (auto simp: find_None_iff blk_def not_le word_less_nat_alt)
    then have ff: "first_fit (unat n) (free_blocks s) = None"
      by (simp add: bs first_fit_None)
    have "default_alloc_pages s n = Ok (None, s)"
      using default_alloc_pages_eq [OF ok n] None by simp
    then show ?thesis using ff inv by simp
  next
    case (Some p)
    then obtain as cs where ps: "ps = as @ p # cs" and le: "n \<le> property (pages s p)"
      and small: "\<forall>a \<in> set as. \<not> n \<le> property (pages s a)"
      using find_split [OF Some] by blast
    let ?s = "take_front s p n" and ?m = "property (pages s p)"
    define ps' where "ps' = as @ (if n < ?m then (p + unat n) # cs else cs)"
    have ok': "ff_ok ?s ps'"
      and bs': "map (blk ?s) ps' = map (blk s) as @ (if n < ?m
        then (p + unat n, unat ?m - unat n) # map (blk s) cs else map (blk s) cs)"
      using take_front_ok [OF ok [unfolded ps] n le ps'_def] by blast+
    have "\<forall>b \<in> set (map (blk s) as). snd b < unat n"
      using small by (auto simp: blk_def word_le_nat_alt)
    then have ff: "first_fit (unat n) (free_blocks s) = Some (p, map (blk ?s) ps')"
      using le un by (auto simp: bs ps bs' first_fit_skip blk_def word_le_nat_alt word_less_nat_alt)
    have "unat n \<le> unat (nr_free s)"
      using first_fit_props(5) [OF ff un] ff_inv_blocks(1,3) [OF inv] by simp
    then have "default_alloc_pages s n = Ok (Some p, ?s)"
      using default_alloc_pages_eq [OF ok n] Some by (simp add: word_less_nat_alt)
    then show ?thesis
      using ff ok' free_blocks_eq [OF ok'] by (auto simp: ff_inv_def take_front_frame)
  qed
qed

end
