(* ===== verification/Page_Release.thy ===== *)
theory Page_Release
  imports First_Fit
begin

text \<open>
  The release path of \<open>kern/mm/default_pmm.c\<close>: the checking loop, the loop that merges the
  released block with the free blocks that touch it and the search for its place in the list.
  Both loops end, no assertion fails, and together they are \<open>release\<close> of theory
  \<open>Blocks\<close>. The theory closes with the interface \<open>pmm_manager\<close> of \<open>kern/mm/pmm.h\<close>.
\<close>

section \<open>The merging loop\<close>

text \<open>The state between the marking of \<open>base\<close> and its insertion: \<open>base\<close> carries the head mark
  and its size but is not linked yet.\<close>

definition mid_ok :: "pmm \<Rightarrow> nat \<Rightarrow> nat list \<Rightarrow> bool" where
  "mid_ok s base ps \<longleftrightarrow>
     dl_rep (free_list s) FreeList (map PageLink ps)
     \<and> base \<notin> set ps \<and> 0 < unat (property (pages s base))
     \<and> spaced (map (blk s) ps) \<and> below (unat (npage s)) (map (blk s) (base # ps))
     \<and> {base..<base + unat (property (pages s base))} \<inter> cover (map (blk s) ps) = {}
     \<and> (\<forall>p < unat (npage s). PageProperty (pages s p) \<longleftrightarrow> p \<in> insert base (set ps))"

definition merged :: "pmm \<Rightarrow> nat \<Rightarrow> nat \<Rightarrow> nat \<Rightarrow> pmm" where
  "merged s x y p =
     (let s1 = upd_page s x (\<lambda>pg. pg\<lparr>property := property pg + property (pages s y)\<rparr>);
          s2 = upd_page s1 y ClearPageProperty
      in s2\<lparr>free_list := list_del (free_list s2) (PageLink p)\<rparr>)"

definition same_frame :: "pmm \<Rightarrow> pmm \<Rightarrow> bool" where
  "same_frame s s' \<longleftrightarrow> npage s' = npage s \<and> nr_free s' = nr_free s
     \<and> (\<forall>q. ref (pages s' q) = ref (pages s q))
     \<and> (\<forall>q. PageReserved (pages s' q) = PageReserved (pages s q))"

lemma same_frame_refl [simp]: "same_frame s s"
  by (simp add: same_frame_def)

lemma same_frame_trans: "same_frame s t \<Longrightarrow> same_frame t u \<Longrightarrow> same_frame s u"
  by (simp add: same_frame_def)

lemma merged_frame [simp]: "same_frame s (merged s x y p)"
  by (simp add: same_frame_def merged_def Let_def)

lemma merge_loop_step:
  "merge_loop (Suc fuel) s base le =
     (if le = FreeList then Ok (base, s)
      else if base + unat (property (pages s base)) = le2page le
      then merge_loop fuel (merged s base (le2page le) (le2page le)) base (list_next (free_list s) le)
      else if le2page le + unat (property (pages s (le2page le))) = base
      then merge_loop fuel (merged s (le2page le) base (le2page le)) (le2page le)
             (list_next (free_list s) le)
      else merge_loop fuel s base (list_next (free_list s) le))"
  by (simp add: merged_def Let_def)

lemma spaced_rest_disjoint:
  assumes "spaced (as @ (p, k) # cs)"
  shows "spaced (as @ cs)" and "{p..<p + k} \<inter> cover (as @ cs) = {}"
proof -
  show "spaced (as @ cs)" using assms by (auto simp: spaced_append spaced_Cons)
  have "{p..<p + k} \<inter> cover as = {}" "{p..<p + k} \<inter> cover cs = {}"
    using spaced_disjoint [of as "(p, k) # cs"] spaced_disjoint [of "[(p, k)]" cs] assms
    by (auto simp: spaced_append)
  then show "{p..<p + k} \<inter> cover (as @ cs) = {}" by (simp add: Int_Un_distrib)
qed

lemma merged_ok:
  assumes ok: "mid_ok s b (ds @ p # rs)"
    and xy: "x = b \<and> y = p \<or> x = p \<and> y = b"
    and adj: "x + unat (property (pages s x)) = y"
  shows "mid_ok (merged s x y p) x (ds @ rs)"
    and "blk (merged s x y p) x = (x, unat (property (pages s x)) + unat (property (pages s y)))"
    and "map (blk (merged s x y p)) (ds @ rs) = map (blk s) (ds @ rs)"
proof -
  let ?t = "merged s x y p" and ?k = "\<lambda>q. unat (property (pages s q))"
  let ?N = "unat (npage s)"
  have dl: "dl_rep (free_list s) FreeList (map PageLink ds @ PageLink p # map PageLink rs)"
    and bn: "b \<notin> set (ds @ p # rs)" and b0: "0 < ?k b"
    and sp: "spaced (map (blk s) ds @ (p, ?k p) # map (blk s) rs)"
    and be: "b + ?k b \<le> ?N" "p + ?k p \<le> ?N" "below ?N (map (blk s) (ds @ rs))"
    and dj: "{b..<b + ?k b} \<inter> cover (map (blk s) (ds @ p # rs)) = {}"
    and pr: "\<And>q. q < ?N \<Longrightarrow> PageProperty (pages s q) \<longleftrightarrow> q \<in> insert b (set (ds @ p # rs))"
    using ok by (auto simp: mid_ok_def blk_def)
  have d: "distinct (ds @ p # rs)" using dl by (auto simp: dl_rep_def distinct_map)
  have xyn: "x \<notin> set (ds @ rs)" "y \<notin> set (ds @ rs)" "x \<noteq> y" using xy d bn by auto
  have p0: "0 < ?k p" using sp by (simp add: spaced_append spaced_Cons)
  have "x + (?k x + ?k y) \<le> ?N" using adj be xy by auto
  then have "?k x + ?k y < 2 ^ 32" using unat_u32_less [of "npage s"] by simp
  then have sum: "unat (property (pages s x) + property (pages s y)) = ?k x + ?k y"
    by (rule unat_add_u32)
  show blkx: "blk ?t x = (x, ?k x + ?k y)"
    using xyn sum by (simp add: merged_def Let_def blk_def)
  show rest: "map (blk ?t) (ds @ rs) = map (blk s) (ds @ rs)"
    using xyn by (auto simp: merged_def Let_def blk_def)
  have dl': "dl_rep (free_list ?t) FreeList (map PageLink (ds @ rs))"
    using dl_rep_del [OF dl] by (simp add: merged_def Let_def)
  have "{x..<x + (?k x + ?k y)} = {b..<b + ?k b} \<union> {p..<p + ?k p}"
    using xy adj by auto
  then have "{x..<x + (?k x + ?k y)} \<inter> cover (map (blk s) (ds @ rs)) = {}"
    using dj spaced_rest_disjoint(2) [OF sp]
    by (simp add: Int_Un_distrib Int_Un_distrib2 blk_def [of s p])
  moreover have "PageProperty (pages ?t q) \<longleftrightarrow> q \<in> insert x (set (ds @ rs))" if "q < ?N" for q
    using pr [OF that] xy xyn by (auto simp: merged_def Let_def)
  moreover have "below ?N ((x, ?k x + ?k y) # map (blk s) (ds @ rs))"
    using be(3) \<open>x + (?k x + ?k y) \<le> ?N\<close> by simp
  moreover have "npage ?t = npage s" "unat (property (pages ?t x)) = ?k x + ?k y"
    using blkx by (auto simp: merged_def Let_def blk_def)
  moreover have "0 < ?k x + ?k y" using p0 b0 xy by auto
  ultimately show "mid_ok ?t x (ds @ rs)"
    unfolding mid_ok_def list.map rest blkx
    using dl' xyn(1) spaced_rest_disjoint(1) [OF sp] by simp
qed

lemma merge_loop_absorb:
  assumes "mid_ok s b (ds @ rs)" and "le = hd (map PageLink rs @ [FreeList])"
    and "length rs < fuel"
  shows "\<exists>b' s' rs'. merge_loop fuel s b le = Ok (b', s') \<and> mid_ok s' b' (ds @ rs')
      \<and> absorb b (unat (property (pages s b))) (map (blk s) rs) = (blk s' b', map (blk s') rs')
      \<and> map (blk s') ds = map (blk s) ds \<and> same_frame s s'"
  using assms
proof (induction rs arbitrary: s b ds le fuel)
  case Nil
  then obtain j where "fuel = Suc j" by (cases fuel) auto
  then show ?case using Nil.prems
    by - (rule exI [of _ b], rule exI [of _ s], rule exI [of _ "[]"],
      simp add: merge_loop_step blk_def)
next
  case (Cons p rs)
  then obtain j where fuel: "fuel = Suc j" and j: "length rs < j" by (cases fuel) auto
  let ?k = "\<lambda>q. unat (property (pages s q))"
  have le: "le = PageLink p" using Cons.prems(2) by simp
  have "dl_rep (free_list s) FreeList (map PageLink ds @ PageLink p # map PageLink rs)"
    using Cons.prems(1) by (simp add: mid_ok_def)
  then have nxt: "list_next (free_list s) (PageLink p) = hd (map PageLink rs @ [FreeList])"
    by (subst dl_rep_next) (auto split: list.split)
  consider (right) "b + ?k b = p" | (left) "b + ?k b \<noteq> p" "p + ?k p = b"
    | (skip) "b + ?k b \<noteq> p" "p + ?k p \<noteq> b" by blast
  then show ?case
  proof cases
    case right
    let ?t = "merged s b p p"
    have adj: "b + ?k b = p" using right .
    note m = merged_ok [OF Cons.prems(1) _ adj, simplified]
    obtain b' s' rs' where IH: "merge_loop j ?t b (hd (map PageLink rs @ [FreeList])) = Ok (b', s')"
      "mid_ok s' b' (ds @ rs')"
      "absorb b (unat (property (pages ?t b))) (map (blk ?t) rs) = (blk s' b', map (blk s') rs')"
      "map (blk s') ds = map (blk ?t) ds" "same_frame ?t s'"
      using Cons.IH [OF _ refl j, of ?t b ds] m(1) by auto
    have mp: "map (blk ?t) rs = map (blk s) rs" "map (blk ?t) ds = map (blk s) ds"
      and kx: "unat (property (pages ?t b)) = ?k b + ?k p"
      using m(2,3) by (auto simp: blk_def)
    have "absorb b (?k b) (map (blk s) (p # rs)) = (blk s' b', map (blk s') rs')"
      using IH(3) right unfolding mp kx by (simp add: blk_def [of s p])
    moreover have "merge_loop fuel s b le = Ok (b', s')"
      using IH(1) right by (simp add: fuel le merge_loop_step nxt del: merge_loop.simps)
    moreover have "same_frame s s'" using merged_frame IH(5) by (rule same_frame_trans)
    ultimately show ?thesis using IH(2,4) mp(2) by metis
  next
    case left
    let ?t = "merged s p b p"
    have adj: "p + ?k p = b" using left by simp
    note m = merged_ok [OF Cons.prems(1) _ adj, simplified]
    obtain b' s' rs' where IH: "merge_loop j ?t p (hd (map PageLink rs @ [FreeList])) = Ok (b', s')"
      "mid_ok s' b' (ds @ rs')"
      "absorb p (unat (property (pages ?t p))) (map (blk ?t) rs) = (blk s' b', map (blk s') rs')"
      "map (blk s') ds = map (blk ?t) ds" "same_frame ?t s'"
      using Cons.IH [OF _ refl j, of ?t p ds] m(1) by auto
    have mp: "map (blk ?t) rs = map (blk s) rs" "map (blk ?t) ds = map (blk s) ds"
      and kx: "unat (property (pages ?t p)) = ?k p + ?k b"
      using m(2,3) by (auto simp: blk_def)
    have "absorb b (?k b) (map (blk s) (p # rs)) = (blk s' b', map (blk s') rs')"
      using IH(3) left unfolding mp kx by (simp add: blk_def [of s p])
    moreover have "merge_loop fuel s b le = Ok (b', s')"
      using IH(1) left by (simp add: fuel le merge_loop_step nxt del: merge_loop.simps)
    moreover have "same_frame s s'" using merged_frame IH(5) by (rule same_frame_trans)
    ultimately show ?thesis using IH(2,4) mp(2) by metis
  next
    case skip
    obtain b' s' rs' where IH: "merge_loop j s b (hd (map PageLink rs @ [FreeList])) = Ok (b', s')"
      "mid_ok s' b' ((ds @ [p]) @ rs')"
      "absorb b (?k b) (map (blk s) rs) = (blk s' b', map (blk s') rs')"
      "map (blk s') (ds @ [p]) = map (blk s) (ds @ [p])" "same_frame s s'"
      using Cons.IH [OF _ refl j, of s b "ds @ [p]"] Cons.prems(1) by auto
    have "absorb b (?k b) (map (blk s) (p # rs)) = (blk s' b', map (blk s') (p # rs'))"
      using IH(3,4) skip by (simp add: blk_def [of s p])
    moreover have "merge_loop fuel s b le = Ok (b', s')"
      using IH(1) skip by (simp add: fuel le merge_loop_step nxt del: merge_loop.simps)
    moreover have "mid_ok s' b' (ds @ p # rs')" "map (blk s') ds = map (blk s) ds"
      using IH(2,4) by auto
    ultimately show ?thesis using IH(5) by metis
  qed
qed

section \<open>The place in the list and the checking loop\<close>

lemma free_pos_loop_insert:
  assumes "dl_rep (free_list s) FreeList (map PageLink (ds @ rs))"
    and "le = hd (map PageLink rs @ [FreeList])" and "length rs < fuel"
    and "\<forall>q \<in> set rs. b + unat (property (pages s b)) \<noteq> q"
  shows "\<exists>r1 r2. rs = r1 @ r2 \<and> free_pos_loop fuel s b le = Ok (hd (map PageLink r2 @ [FreeList]))
      \<and> insert_block (blk s b) (map (blk s) rs) = map (blk s) (r1 @ b # r2)"
  using assms
proof (induction rs arbitrary: ds le fuel)
  case Nil
  then obtain j where "fuel = Suc j" by (cases fuel) auto
  then show ?case using Nil.prems by (simp add: blk_def)
next
  case (Cons p rs)
  then obtain j where fuel: "fuel = Suc j" and j: "length rs < j" by (cases fuel) auto
  have le: "le = PageLink p" using Cons.prems(2) by simp
  have "dl_rep (free_list s) FreeList (map PageLink ds @ PageLink p # map PageLink rs)"
    using Cons.prems(1) by simp
  then have nxt: "list_next (free_list s) (PageLink p) = hd (map PageLink rs @ [FreeList])"
    by (subst dl_rep_next) (auto split: list.split)
  show ?case
  proof (cases "b + unat (property (pages s b)) \<le> p")
    case True
    then show ?thesis using Cons.prems(4)
      by - (rule exI [of _ "[]"], rule exI [of _ "p # rs"], auto simp: fuel le blk_def)
  next
    case False
    obtain r1 r2 where IH: "rs = r1 @ r2"
      "free_pos_loop j s b (hd (map PageLink rs @ [FreeList])) = Ok (hd (map PageLink r2 @ [FreeList]))"
      "insert_block (blk s b) (map (blk s) rs) = map (blk s) (r1 @ b # r2)"
      using Cons.IH [OF _ refl j, of "ds @ [p]"] Cons.prems(1,4) by auto
    have "free_pos_loop fuel s b le = Ok (hd (map PageLink r2 @ [FreeList]))"
      using IH(2) False by (simp add: fuel le nxt Let_def)
    moreover have "insert_block (blk s b) (map (blk s) (p # rs)) = map (blk s) ((p # r1) @ b # r2)"
      using IH(3) False by (simp add: blk_def [of s p] blk_def [of s b])
    moreover have "p # rs = (p # r1) @ r2" using IH(1) by simp
    ultimately show ?thesis by blast
  qed
qed

definition wipe :: "nat \<Rightarrow> nat \<Rightarrow> pmm \<Rightarrow> pmm" where
  "wipe k b s = s\<lparr>pages := \<lambda>q. if b \<le> q \<and> q < b + k then (pages s q)\<lparr>flags := 0, ref := 0\<rparr>
                             else pages s q\<rparr>"

lemma wipe_simps [simp]:
  "npage (wipe k b s) = npage s" "free_list (wipe k b s) = free_list s"
  "nr_free (wipe k b s) = nr_free s" "property (pages (wipe k b s) q) = property (pages s q)"
  "ref (pages (wipe k b s) q) = (if b \<le> q \<and> q < b + k then 0 else ref (pages s q))"
  "PageProperty (pages (wipe k b s) q) \<longleftrightarrow> PageProperty (pages s q) \<and> \<not> (b \<le> q \<and> q < b + k)"
  "PageReserved (pages (wipe k b s) q) \<longleftrightarrow> PageReserved (pages s q) \<and> \<not> (b \<le> q \<and> q < b + k)"
  by (simp_all add: wipe_def)

lemma map_blk_wipe [simp]: "map (blk (wipe k b s)) ps = map (blk s) ps"
  by (simp add: blk_def)

text \<open>The loop wipes the pages when all of them are in use, and stops the kernel otherwise.\<close>

lemma free_check_loop_eq:
  "free_check_loop k s b =
     (if \<forall>q \<in> {b..<b + k}. \<not> PageReserved (pages s q) \<and> \<not> PageProperty (pages s q)
      then Ok (wipe k b s) else Panic)"
proof (induction k arbitrary: s b)
  case 0
  have "wipe 0 b s = s" by (cases s) (auto simp: wipe_def fun_eq_iff)
  then show ?case by simp
next
  case (Suc k)
  let ?P = "\<lambda>s q. \<not> PageReserved (pages s q) \<and> \<not> PageProperty (pages s q)"
  let ?u = "upd_page s b (\<lambda>pg. pg\<lparr>flags := 0, ref := 0\<rparr>)"
  have split: "{b..<b + Suc k} = insert b {Suc b..<Suc b + k}" by auto
  have "(\<forall>q \<in> {Suc b..<Suc b + k}. ?P ?u q) \<longleftrightarrow> (\<forall>q \<in> {Suc b..<Suc b + k}. ?P s q)" by simp
  moreover have "wipe k (Suc b) ?u = wipe (Suc k) b s"
    by (auto simp: wipe_def upd_page_def fun_eq_iff)
  ultimately show ?case unfolding split by (simp add: Suc.IH assert_c_def)
qed

declare merge_loop.simps [simp del] free_pos_loop.simps [simp del]

section \<open>Release\<close>

lemma mid_ok_insert:
  assumes ok: "mid_ok s b rs" and n: "unat (nr_free s) = total (map (blk s) (b # rs))"
    and rsv: "\<forall>q \<in> cover (map (blk s) (b # rs)). \<not> PageReserved (pages s q)"
    and nr: "\<forall>q \<in> set rs. b + unat (property (pages s b)) \<noteq> q"
  shows "\<exists>le s'. free_pos_loop (Suc (unat (npage s))) s b (list_next (free_list s) FreeList) = Ok le
      \<and> s' = s\<lparr>free_list := list_add_before (free_list s) le (PageLink b)\<rparr>
      \<and> ff_inv s' \<and> free_blocks s' = insert_block (blk s b) (map (blk s) rs)"
proof -
  have dl: "dl_rep (free_list s) FreeList (map PageLink rs)" and bn: "b \<notin> set rs"
    and sp: "spaced (map (blk s) rs)" and be: "below (unat (npage s)) (map (blk s) (b # rs))"
    and b0: "0 < unat (property (pages s b))"
    and dj: "{b..<b + unat (property (pages s b))} \<inter> cover (map (blk s) rs) = {}"
    and pr: "\<forall>p < unat (npage s). PageProperty (pages s p) \<longleftrightarrow> p \<in> insert b (set rs)"
    using ok by (auto simp: mid_ok_def)
  have hd: "list_next (free_list s) FreeList = hd (map PageLink rs @ [FreeList])"
    using dl_rep_next_head [OF dl] by (auto split: list.splits)
  have len: "length rs < Suc (unat (npage s))"
    using total_le [OF sp, of "unat (npage s)"] be length_le_total [OF sp]
    by (simp add: blk_def [of s b])
  obtain r1 r2 where r: "rs = r1 @ r2"
    and loop: "free_pos_loop (Suc (unat (npage s))) s b (list_next (free_list s) FreeList)
      = Ok (hd (map PageLink r2 @ [FreeList]))"
    and ins: "insert_block (blk s b) (map (blk s) rs) = map (blk s) (r1 @ b # r2)"
    using free_pos_loop_insert [of s "[]" rs _ _ b, OF _ hd len nr] dl by auto
  let ?le = "hd (map PageLink r2 @ [FreeList])"
  let ?s = "s\<lparr>free_list := list_add_before (free_list s) ?le (PageLink b)\<rparr>"
  have dl': "dl_rep (free_list ?s) FreeList (map PageLink (r1 @ b # r2))"
  proof (cases r2)
    case Nil
    then show ?thesis using dl_rep_add_before_head [OF dl, of "PageLink b"] bn r by auto
  next
    case (Cons x xs)
    have "dl_rep (free_list s) FreeList (map PageLink r1 @ PageLink x # map PageLink xs)"
      using dl r Cons by simp
    from dl_rep_add_before [OF this, of "PageLink b"] bn r Cons show ?thesis by auto
  qed
  have "spaced (map (blk s) (r1 @ b # r2))"
    using insert_block_spaced [OF sp b0 dj] ins by (simp add: blk_def [of s b])
  then have "ff_ok ?s (r1 @ b # r2)"
    using dl' be pr rsv n r unfolding ff_ok_def map_blk_frame
    by (auto simp: blk_def [of s b])
  then show ?thesis using loop ins free_blocks_eq [of ?s] by (auto simp: ff_inv_def)
qed

lemma free_refines:
  assumes inv: "ff_inv s" and n: "0 < n" and fit: "b + unat n \<le> unat (npage s)"
    and used: "{b..<b + unat n} \<inter> free_pages_of s = {}"
    and rsv: "\<forall>q \<in> {b..<b + unat n}. \<not> PageReserved (pages s q)"
  shows "\<exists>s'. default_free_pages s b n = Ok s' \<and> ff_inv s' \<and> npage s' = npage s
      \<and> free_blocks s' = release b (unat n) (free_blocks s)
      \<and> (\<forall>q. ref (pages s' q) = (if q \<in> {b..<b + unat n} then 0 else ref (pages s q)))
      \<and> (\<forall>q. PageReserved (pages s' q) = PageReserved (pages s q))"
proof -
  let ?N = "unat (npage s)" and ?n = "unat n"
  obtain ps where ok: "ff_ok s ps" using inv by (auto simp: ff_inv_def)
  have bs: "free_blocks s = map (blk s) ps" by (rule free_blocks_eq [OF ok])
  have dj: "{b..<b + ?n} \<inter> cover (map (blk s) ps) = {}" using used bs by (simp add: free_pages_of_def)
  have hn: "q \<notin> set ps" if "q \<in> {b..<b + ?n}" for q
    using that dj ff_ok_heads(2) [OF ok] by blast
  have n0: "0 < ?n" using n by (simp add: unat_gt_0)
  note okD = ff_okD [OF ok]
  have chk: "free_check_loop ?n s b = Ok (wipe ?n b s)"
    using free_check_loop_eq [of ?n s b] rsv okD(5) hn fit by auto
  define s3 where
    "s3 = upd_page (upd_page (wipe ?n b s) b (\<lambda>pg. pg\<lparr>property := n\<rparr>)) b SetPageProperty"
  have bn: "b \<notin> set ps" using hn n0 by simp
  have mb: "map (blk s3) ps = map (blk s) ps" using bn by (simp add: s3_def)
  have kb: "property (pages s3 b) = n" "npage s3 = npage s" "nr_free s3 = nr_free s"
    "free_list s3 = free_list s" by (simp_all add: s3_def)
  have pr3: "PageProperty (pages s3 q) \<longleftrightarrow> q \<in> insert b (set ps)" if "q < ?N" for q
    using that okD(5) hn by (auto simp: s3_def)
  have mid: "mid_ok s3 b ps"
    unfolding mid_ok_def list.map mb using okD bn n0 fit dj pr3 by (simp add: kb blk_def [of s3 b])
  have hd: "list_next (free_list s3) FreeList = hd (map PageLink ps @ [FreeList])"
    using dl_rep_next_head [OF okD(1)] by (auto simp: kb split: list.splits)
  have len: "length ps < Suc ?N" using ff_ok_heads(4) [OF ok] by simp
  obtain b' s4 rs where loop: "merge_loop (Suc ?N) s3 b (list_next (free_list s3) FreeList) = Ok (b', s4)"
    and mid4: "mid_ok s4 b' rs" and ab: "absorb b ?n (map (blk s) ps) = (blk s4 b', map (blk s4) rs)"
    and fr: "same_frame s3 s4"
    using merge_loop_absorb [of s3 b "[]" ps, OF _ hd len] mid unfolding mb kb by auto
  define s5 where "s5 = s4\<lparr>nr_free := nr_free s4 + n\<rparr>"
  let ?m = "unat (property (pages s4 b'))"
  have ab': "absorb b ?n (map (blk s) ps) = ((b', ?m), map (blk s4) rs)"
    using ab by (simp add: blk_def)
  have mid5: "mid_ok s5 b' rs" using mid4 by (simp add: mid_ok_def s5_def blk_def)
  have m5: "map (blk s5) (b' # rs) = (b', ?m) # map (blk s4) rs" by (simp add: s5_def blk_def)
  have tot: "?m + total (map (blk s4) rs) = ?n + unat (nr_free s)"
    using absorb_total [OF ab'] okD(4) by simp
  have cov: "{b'..<b' + ?m} \<union> cover (map (blk s4) rs) = {b..<b + ?n} \<union> cover (map (blk s) ps)"
    by (rule absorb_cover [OF ab'])
  have bound: "?n + unat (nr_free s) \<le> ?N"
    using release_total_le [OF okD(2) n0 dj okD(3) fit] okD(4) by simp
  have nr5: "unat (nr_free s5) = total (map (blk s5) (b' # rs))"
    unfolding m5 using tot bound fr unat_u32_less [of "npage s"] unat_add_u32 [of "nr_free s" n]
    by (simp add: s5_def same_frame_def kb)
  have rsv5: "PageReserved (pages s5 q) = PageReserved (pages s q)" for q
    using fr rsv by (auto simp: s5_def s3_def same_frame_def)
  have "\<forall>q \<in> cover (map (blk s5) (b' # rs)). \<not> PageReserved (pages s5 q)"
    unfolding m5 rsv5 using cov rsv okD(6) by (simp only: cover.simps) blast
  moreover have "\<forall>q \<in> set rs. b' + unat (property (pages s5 b')) \<noteq> q"
    using absorb_no_right [OF ab' okD(2)] by (auto simp: s5_def blk_def)
  ultimately obtain le s' where pos: "free_pos_loop (Suc ?N) s5 b' (list_next (free_list s5) FreeList) = Ok le"
    and s': "s' = s5\<lparr>free_list := list_add_before (free_list s5) le (PageLink b')\<rparr>"
    and inv': "ff_inv s'" and bl': "free_blocks s' = insert_block (blk s5 b') (map (blk s5) rs)"
    using mid_ok_insert [OF mid5 nr5] fr by (auto simp: s5_def same_frame_def kb)
  have "default_free_pages s b n = Ok s'"
    using n chk loop pos
    by (simp add: default_free_pages_def s3_def [symmetric] kb s' Let_def) (simp add: s5_def)
  moreover have "free_blocks s' = release b ?n (free_blocks s)"
    unfolding bl' bs release_def ab using m5 by (simp add: blk_def s5_def)
  moreover have "ref (pages s' q) = (if q \<in> {b..<b + ?n} then 0 else ref (pages s q))" for q
    using fr by (auto simp: s' s5_def s3_def same_frame_def)
  ultimately show ?thesis using inv' rsv5 fr by (auto simp: s' s5_def same_frame_def kb)
qed

end
