(* ===== verification/Page_Manager.thy ===== *)
theory Page_Manager
  imports Page_Release
begin

text \<open>
  What the rest of the kernel relies on. The struct \<open>pmm_manager\<close> of
  \<open>kern/mm/pmm.h\<close> is a locale whose laws speak of the set of free pages only;
  \<open>default_pmm_manager\<close> of \<open>kern/mm/default_pmm.c\<close> interprets it. Inside the locale
  stands the safety of every sequence of requests. The properties of the first-fit allocator
  close the theory.
\<close>

section \<open>Bringing memory under management\<close>

lemma init_memmap_loop_eq:
  "init_memmap_loop k s b =
     (if \<forall>q \<in> {b..<b + k}. PageReserved (pages s q)
      then Ok (s\<lparr>pages := \<lambda>q. if b \<le> q \<and> q < b + k
                 then (pages s q)\<lparr>flags := 0, property := 0, ref := 0\<rparr> else pages s q\<rparr>)
      else Panic)"
proof (induction k arbitrary: s b)
  case 0
  show ?case by (cases s) (auto simp: fun_eq_iff)
next
  case (Suc k)
  have split: "{b..<b + Suc k} = insert b {Suc b..<Suc b + k}" by auto
  show ?case unfolding split
    by (auto simp: Suc.IH assert_c_def upd_page_def fun_eq_iff)
qed

lemma init_memmap_appends:
  assumes inv: "ff_inv s" and n: "0 < n" and fit: "b + unat n \<le> unat (npage s)"
    and above: "\<forall>(p, m) \<in> set (free_blocks s). p + m \<le> b"
    and rsv: "\<forall>q \<in> {b..<b + unat n}. PageReserved (pages s q)"
  shows "\<exists>s'. default_init_memmap s b n = Ok s' \<and> ff_inv s' \<and> npage s' = npage s
      \<and> free_blocks s' = free_blocks s @ [(b, unat n)]
      \<and> (\<forall>q. PageReserved (pages s' q) \<longleftrightarrow> PageReserved (pages s q) \<and> q \<notin> {b..<b + unat n})"
proof -
  let ?N = "unat (npage s)" and ?n = "unat n"
  obtain ps where ok: "ff_ok s ps" using inv by (auto simp: ff_inv_def)
  have bs: "free_blocks s = map (blk s) ps" by (rule free_blocks_eq [OF ok])
  have n0: "0 < ?n" using n by (simp add: unat_gt_0)
  note okD = ff_okD [OF ok]
  have lt: "q < b" if "q \<in> set ps" for q
    using that above okD(2) unfolding bs spaced_def by (fastforce simp: blk_def)
  have dj: "{b..<b + ?n} \<inter> cover (map (blk s) ps) = {}"
    using above unfolding bs by (fastforce simp: in_cover)
  have bound: "?n + unat (nr_free s) \<le> ?N"
    using release_total_le [OF okD(2) n0 dj okD(3) fit] okD(4) by simp
  define s1 where "s1 = s\<lparr>pages := \<lambda>q. if b \<le> q \<and> q < b + ?n
                 then (pages s q)\<lparr>flags := 0, property := 0, ref := 0\<rparr> else pages s q\<rparr>"
  define s' where "s' = (upd_page (upd_page s1 b (\<lambda>pg. pg\<lparr>property := n\<rparr>)) b SetPageProperty)
      \<lparr>nr_free := nr_free s + n, free_list := list_add_before (free_list s) FreeList (PageLink b)\<rparr>"
  have run: "default_init_memmap s b n = Ok s'"
    using n rsv init_memmap_loop_eq [of ?n s b]
    by (simp add: default_init_memmap_def s'_def s1_def Let_def)
  have mb: "map (blk s') ps = map (blk s) ps"
    using lt by (fastforce simp: s'_def s1_def blk_def)
  have kb: "blk s' b = (b, ?n)" by (simp add: s'_def blk_def)
  have "dl_rep (free_list s') FreeList (map PageLink (ps @ [b]))"
    using dl_rep_add_before_head [OF okD(1), of "PageLink b"] lt by (fastforce simp: s'_def)
  moreover have "spaced (map (blk s') (ps @ [b]))"
    unfolding map_append mb list.map kb
    using okD(2) above n0 unfolding bs by (fastforce simp: spaced_append spaced_Cons)
  moreover have "PageProperty (pages s' q) \<longleftrightarrow> q \<in> set (ps @ [b])" if "q < ?N" for q
    using okD(5) that lt [of q] by (auto simp: s'_def s1_def)
  moreover have res: "PageReserved (pages s' q) \<longleftrightarrow> PageReserved (pages s q) \<and> q \<notin> {b..<b + ?n}" for q
    using n0 by (auto simp: s'_def s1_def)
  moreover have "unat (nr_free s') = total (map (blk s') (ps @ [b]))"
    unfolding map_append mb list.map kb
    using okD(4) bound unat_u32_less [of "npage s"] unat_add_u32 [of "nr_free s" n]
    by (simp add: s'_def)
  ultimately have "ff_ok s' (ps @ [b])"
    unfolding ff_ok_def map_append mb list.map kb using okD(3,6) fit by (auto simp: s'_def s1_def)
  then show ?thesis using run res free_blocks_eq [of s' "ps @ [b]"]
    unfolding map_append mb list.map kb bs by (auto simp: ff_inv_def s'_def s1_def)
qed

section \<open>The interface of a physical memory manager\<close>

text \<open>A client of the manager: it asks for runs of pages and hands runs back. \<open>Alloc n\<close> asks
  for \<open>n\<close> pages, \<open>Free i\<close> returns the \<open>i\<close>-th run it holds.\<close>

datatype request = Alloc u32 | Free nat

fun serve :: "('s \<Rightarrow> u32 \<Rightarrow> (nat option \<times> 's) res) \<Rightarrow> ('s \<Rightarrow> nat \<Rightarrow> u32 \<Rightarrow> 's res)
    \<Rightarrow> request \<Rightarrow> 's \<times> (nat \<times> u32) list \<Rightarrow> ('s \<times> (nat \<times> u32) list) res" where
  "serve al fr (Alloc n) (s, held) =
     (if n = 0 then Ok (s, held)
      else res_bind (al s n) (\<lambda>(r, s'). case r of None \<Rightarrow> Ok (s', held) | Some p \<Rightarrow> Ok (s', (p, n) # held)))"
| "serve al fr (Free i) (s, held) =
     (if i < length held
      then res_bind (fr s (fst (held ! i)) (snd (held ! i))) (\<lambda>s'. Ok (s', take i held @ drop (Suc i) held))
      else Ok (s, held))"

fun serve_all :: "('s \<Rightarrow> u32 \<Rightarrow> (nat option \<times> 's) res) \<Rightarrow> ('s \<Rightarrow> nat \<Rightarrow> u32 \<Rightarrow> 's res)
    \<Rightarrow> request list \<Rightarrow> 's \<times> (nat \<times> u32) list \<Rightarrow> ('s \<times> (nat \<times> u32) list) res" where
  "serve_all al fr [] c = Ok c"
| "serve_all al fr (r # rs) c = res_bind (serve al fr r c) (serve_all al fr rs)"

fun held_pages :: "(nat \<times> u32) list \<Rightarrow> nat set" where
  "held_pages [] = {}"
| "held_pages ((p, n) # held) = {p..<p + unat n} \<union> held_pages held"

text \<open>Runs in the client's hands are nonempty and pairwise disjoint.\<close>

fun apart :: "(nat \<times> u32) list \<Rightarrow> bool" where
  "apart [] = True"
| "apart ((p, n) # held) \<longleftrightarrow> 0 < n \<and> {p..<p + unat n} \<inter> held_pages held = {} \<and> apart held"

text \<open>The client's runs and the free pages partition a fixed pool of usable pages.\<close>

definition pool_ok :: "('s \<Rightarrow> bool) \<Rightarrow> ('s \<Rightarrow> nat set) \<Rightarrow> ('s \<Rightarrow> nat set) \<Rightarrow> nat set
    \<Rightarrow> 's \<times> (nat \<times> u32) list \<Rightarrow> bool" where
  "pool_ok good free usable pool c \<longleftrightarrow> (case c of (s, held) \<Rightarrow>
     good s \<and> apart held \<and> free s \<inter> held_pages held = {} \<and> free s \<union> held_pages held = pool
     \<and> pool \<subseteq> usable s)"

lemma held_pages_append [simp]: "held_pages (as @ bs) = held_pages as \<union> held_pages bs"
  by (induction as rule: held_pages.induct) (simp_all add: Un_assoc)

lemma apart_append:
  "apart (as @ bs) \<longleftrightarrow> apart as \<and> apart bs \<and> held_pages as \<inter> held_pages bs = {}"
proof (induction as rule: held_pages.induct)
  case (2 p n held)
  have "{p..<p + unat n} \<inter> held_pages (held @ bs) = {} \<longleftrightarrow>
      {p..<p + unat n} \<inter> held_pages held = {} \<and> {p..<p + unat n} \<inter> held_pages bs = {}"
    unfolding held_pages_append by blast
  then show ?case using 2 unfolding append_Cons apart.simps held_pages.simps by blast
qed simp

lemma apart_remove:
  assumes "apart (as @ (p, n) # cs)"
  shows "apart (as @ cs)" and "{p..<p + unat n} \<inter> held_pages (as @ cs) = {}" and "0 < n"
  using assms unfolding apart_append apart.simps held_pages.simps held_pages_append by blast+

locale pmm_manager =
  fixes good :: "'s \<Rightarrow> bool" and free :: "'s \<Rightarrow> nat set" and usable :: "'s \<Rightarrow> nat set"
    and alloc_pages :: "'s \<Rightarrow> u32 \<Rightarrow> (nat option \<times> 's) res"
    and free_pages :: "'s \<Rightarrow> nat \<Rightarrow> u32 \<Rightarrow> 's res"
    and nr_free_pages :: "'s \<Rightarrow> u32"
  assumes alloc_law: "good s \<Longrightarrow> 0 < n \<Longrightarrow>
      \<exists>r s'. alloc_pages s n = Ok (r, s') \<and> good s' \<and> usable s' = usable s
        \<and> (case r of None \<Rightarrow> free s' = free s
           | Some p \<Rightarrow> {p..<p + unat n} \<subseteq> free s \<and> free s' = free s - {p..<p + unat n})"
    and free_law: "good s \<Longrightarrow> 0 < n \<Longrightarrow> {p..<p + unat n} \<subseteq> usable s - free s \<Longrightarrow>
      \<exists>s'. free_pages s p n = Ok s' \<and> good s' \<and> usable s' = usable s
        \<and> free s' = free s \<union> {p..<p + unat n}"
    and free_usable: "good s \<Longrightarrow> free s \<subseteq> usable s"
    and count_law: "good s \<Longrightarrow> finite (free s) \<and> unat (nr_free_pages s) = card (free s)"
begin

lemma serve_ok:
  assumes c: "pool_ok good free usable pool c"
  shows "\<exists>c'. serve alloc_pages free_pages r c = Ok c' \<and> pool_ok good free usable pool c'"
proof (cases r)
  case (Alloc n)
  obtain s held where c_def: "c = (s, held)" by (cases c)
  have ok: "good s" "apart held" "free s \<inter> held_pages held = {}" "free s \<union> held_pages held = pool"
    "pool \<subseteq> usable s"
    using c by (auto simp: pool_ok_def c_def)
  show ?thesis
  proof (cases "n = 0")
    case True
    then show ?thesis using c by (simp add: Alloc c_def)
  next
    case False
    then have True: "0 < n" by (simp add: word_gt_0)
    obtain r s' where a: "alloc_pages s n = Ok (r, s')" "good s'" "usable s' = usable s"
      "case r of None \<Rightarrow> free s' = free s
         | Some p \<Rightarrow> {p..<p + unat n} \<subseteq> free s \<and> free s' = free s - {p..<p + unat n}"
      using alloc_law [OF ok(1) True] by blast
    show ?thesis
    proof (cases r)
      case None
      then show ?thesis using a ok False by (simp add: Alloc c_def pool_ok_def)
    next
      case (Some p)
      then have f: "{p..<p + unat n} \<subseteq> free s" "free s' = free s - {p..<p + unat n}" using a(4) by auto
      then have "apart ((p, n) # held)" using ok(2,3) True unfolding apart.simps by blast
      moreover have "free s' \<inter> held_pages ((p, n) # held) = {}"
        unfolding f(2) held_pages.simps held_pages_append using ok(3) by blast
      moreover have "free s' \<union> held_pages ((p, n) # held) = pool"
        unfolding f(2) held_pages.simps held_pages_append ok(4) [symmetric] using f(1) by blast
      ultimately show ?thesis using a(1-3) ok(5) False Some by (simp add: Alloc c_def pool_ok_def)
    qed
  qed
next
  case (Free i)
  obtain s held where c_def: "c = (s, held)" by (cases c)
  have ok: "good s" "apart held" "free s \<inter> held_pages held = {}" "free s \<union> held_pages held = pool"
    "pool \<subseteq> usable s"
    using c by (auto simp: pool_ok_def c_def)
  show ?thesis
  proof (cases "i < length held")
    case False
    then show ?thesis using c by (simp add: Free c_def)
  next
    case True
    obtain p n where pn: "held ! i = (p, n)" by (cases "held ! i")
    let ?rest = "take i held @ drop (Suc i) held"
    have h: "held = take i held @ (p, n) # drop (Suc i) held"
      using True pn by (metis id_take_nth_drop)
    have "apart (take i held @ (p, n) # drop (Suc i) held)" using ok(2) h by metis
    note rem = apart_remove [OF this]
    have hp: "held_pages held = {p..<p + unat n} \<union> held_pages ?rest"
      by (subst h) (simp only: held_pages.simps held_pages_append Un_left_commute)
    have "{p..<p + unat n} \<subseteq> held_pages held" unfolding hp by blast
    then have "{p..<p + unat n} \<subseteq> usable s - free s"
      using ok(3,5) unfolding ok(4) [symmetric] by blast
    then obtain s' where f: "free_pages s p n = Ok s'" "good s'" "usable s' = usable s"
      "free s' = free s \<union> {p..<p + unat n}"
      using free_law [OF ok(1) rem(3)] by blast
    have "free s' \<inter> held_pages ?rest = {}"
      unfolding f(4) using rem(2) ok(3) [unfolded hp] by blast
    moreover have "free s' \<union> held_pages ?rest = pool"
      unfolding f(4) ok(4) [unfolded hp, symmetric] by blast
    ultimately show ?thesis using f rem(1) ok(5) True pn by (simp add: Free c_def pool_ok_def)
  qed
qed

lemma serve_all_ok:
  "pool_ok good free usable pool c \<Longrightarrow>
   \<exists>c'. serve_all alloc_pages free_pages rs c = Ok c' \<and> pool_ok good free usable pool c'"
proof (induction rs arbitrary: c)
  case (Cons r rs)
  then obtain c' where "serve alloc_pages free_pages r c = Ok c'" "pool_ok good free usable pool c'"
    using serve_ok by blast
  then show ?case using Cons.IH [of c'] by simp
qed simp

end

section \<open>The default manager implements the interface\<close>

definition usable_pages :: "pmm \<Rightarrow> nat set" where
  "usable_pages s = {q. q < unat (npage s) \<and> \<not> PageReserved (pages s q)}"

lemma free_pages_usable: "ff_inv s \<Longrightarrow> free_pages_of s \<subseteq> usable_pages s"
  using below_cover [OF ff_inv_blocks(2)] ff_inv_blocks(4)
  by (auto simp: usable_pages_def free_pages_of_def)

lemma alloc_pages_set:
  assumes inv: "ff_inv s" and n: "0 < n"
  shows "\<exists>r s'. default_alloc_pages s n = Ok (r, s') \<and> ff_inv s' \<and> usable_pages s' = usable_pages s
      \<and> (case r of None \<Rightarrow> free_pages_of s' = free_pages_of s
         | Some p \<Rightarrow> {p..<p + unat n} \<subseteq> free_pages_of s
                  \<and> free_pages_of s' = free_pages_of s - {p..<p + unat n})"
proof -
  obtain s' where a: "default_alloc_pages s n =
      Ok (map_option fst (first_fit (unat n) (free_blocks s)), s')" "ff_inv s'" "npage s' = npage s"
    "free_blocks s' = (case first_fit (unat n) (free_blocks s) of None \<Rightarrow> free_blocks s | Some (_, bs) \<Rightarrow> bs)"
    "\<forall>p. PageReserved (pages s' p) = PageReserved (pages s p)"
    using alloc_refines [OF assms] by blast
  have n0: "0 < unat n" using n by (simp add: unat_gt_0)
  have us: "usable_pages s' = usable_pages s" using a(3,5) by (simp add: usable_pages_def)
  show ?thesis
  proof (cases "first_fit (unat n) (free_blocks s)")
    case None
    then show ?thesis using a us by (simp add: free_pages_of_def)
  next
    case (Some x)
    obtain p bs where x: "x = (p, bs)" by (cases x)
    note ff = first_fit_props [OF Some [unfolded x] n0 ff_inv_blocks(1) [OF inv]]
    show ?thesis using a us ff(2,3) by (simp add: Some x free_pages_of_def)
  qed
qed

lemma usable_fits:
  assumes "0 < n" and "{p..<p + unat n} \<subseteq> usable_pages s"
  shows "p + unat n \<le> unat (npage s)"
proof -
  have n0: "0 < unat n" using assms(1) by (simp add: unat_gt_0)
  then have "p + unat n - 1 \<in> {p..<p + unat n}" by simp
  then have "p + unat n - 1 \<in> usable_pages s" using assms(2) by blast
  then have "p + unat n - 1 < unat (npage s)" by (simp add: usable_pages_def)
  then show ?thesis using n0 by arith
qed

lemma free_pages_set:
  assumes "ff_inv s" and "0 < n" and "{p..<p + unat n} \<subseteq> usable_pages s - free_pages_of s"
  shows "\<exists>s'. default_free_pages s p n = Ok s' \<and> ff_inv s' \<and> usable_pages s' = usable_pages s
      \<and> free_pages_of s' = free_pages_of s \<union> {p..<p + unat n}"
proof -
  have n0: "0 < unat n" using assms(2) by (simp add: unat_gt_0)
  have dj: "{p..<p + unat n} \<inter> free_pages_of s = {}"
    and rs: "\<forall>q \<in> {p..<p + unat n}. \<not> PageReserved (pages s q)"
    using assms(3) by (auto simp: usable_pages_def)
  have "p + unat n \<le> unat (npage s)" using usable_fits [OF assms(2)] assms(3) by blast
  from free_refines [OF assms(1,2) this dj rs] obtain s' where f: "default_free_pages s p n = Ok s'"
    "ff_inv s'" "npage s' = npage s" "free_blocks s' = release p (unat n) (free_blocks s)"
    "\<forall>q. PageReserved (pages s' q) = PageReserved (pages s q)" by blast
  have "cover (release p (unat n) (free_blocks s)) = {p..<p + unat n} \<union> cover (free_blocks s)"
    using release_props(2) [OF ff_inv_blocks(1) [OF assms(1)] n0] dj by (simp add: free_pages_of_def)
  then show ?thesis using f by (simp add: usable_pages_def free_pages_of_def Un_commute)
qed

lemma free_coalesced:
  assumes "ff_inv s" and "0 < n" and "{p..<p + unat n} \<subseteq> usable_pages s - free_pages_of s"
    and "default_free_pages s p n = Ok s'" and "coalesced (free_blocks s)"
  shows "coalesced (free_blocks s')"
proof -
  have n0: "0 < unat n" using assms(2) by (simp add: unat_gt_0)
  have dj: "{p..<p + unat n} \<inter> free_pages_of s = {}" using assms(3) by blast
  have "free_blocks s' = release p (unat n) (free_blocks s)"
    using free_refines [OF assms(1,2) usable_fits [OF assms(2)] dj] assms(3,4)
    by (auto simp: usable_pages_def)
  then show ?thesis
    using release_props(4) [OF ff_inv_blocks(1) [OF assms(1)] n0] dj assms(5)
    by (simp add: free_pages_of_def)
qed

interpretation default_pmm: pmm_manager ff_inv free_pages_of usable_pages
  default_alloc_pages default_free_pages default_nr_free_pages
proof unfold_locales
  fix s assume "ff_inv s"
  then show "finite (free_pages_of s) \<and> unat (default_nr_free_pages s) = card (free_pages_of s)"
    using ff_inv_blocks(3) card_cover [OF ff_inv_blocks(1)] finite_subset [OF below_cover [OF ff_inv_blocks(2)]]
    by (simp add: free_pages_of_def default_nr_free_pages_def)
qed (use alloc_pages_set free_pages_set free_pages_usable in blast)+

section \<open>Properties of the page allocator\<close>

text \<open>A small machine: eight page frames, of which 2 to 6 are handed to the manager.\<close>

definition demo_raw :: pmm where
  "demo_raw = \<lparr>
     pages = (\<lambda>_. \<lparr>ref = 0, flags = 1, property = 0, zone_num = 0, pra_vaddr = 0\<rparr>),
     npage = 8, free_list = \<lparr>prev = (\<lambda>x. x), nxt = (\<lambda>x. x)\<rparr>, nr_free = 0\<rparr>"

definition demo_boot :: pmm where
  "demo_boot = default_init demo_raw"

definition demo_pmm :: pmm where
  "demo_pmm = (case default_init_memmap demo_boot 2 5 of Ok s \<Rightarrow> s | _ \<Rightarrow> demo_boot)"

lemma default_init_ok:
  assumes "\<forall>p < unat (npage s). \<not> PageProperty (pages s p)"
  shows "ff_inv (default_init s)" and "free_blocks (default_init s) = []"
proof -
  have "ff_ok (default_init s) []"
    using assms dl_rep_init by (simp add: ff_ok_def default_init_def spaced_def)
  then show "ff_inv (default_init s)" "free_blocks (default_init s) = []"
    using free_blocks_eq by (auto simp: ff_inv_def)
qed

lemma demo_flags: "PageReserved (pages demo_boot q)" "\<not> PageProperty (pages demo_boot q)"
  "\<not> PageProperty (pages demo_raw q)"
  by (simp_all add: demo_boot_def demo_raw_def default_init_def PageReserved_def PageProperty_def
      PG_reserved_def PG_property_def bit_1_iff)

lemma demo_boot_ok: "ff_inv demo_boot" "free_blocks demo_boot = []" "npage demo_boot = 8"
  using default_init_ok [of demo_raw] demo_flags(3) unfolding demo_boot_def
  by (simp_all add: default_init_def demo_raw_def)

lemma demo_pmm_ok:
  "ff_inv demo_pmm" "free_blocks demo_pmm = [(2, 5)]" "npage demo_pmm = 8"
  "PageReserved (pages demo_pmm q) \<longleftrightarrow> q \<notin> {2..<7}" "default_init_memmap demo_boot 2 5 = Ok demo_pmm"
proof -
  obtain s where s: "default_init_memmap demo_boot 2 5 = Ok s" "ff_inv s" "npage s = npage demo_boot"
    "free_blocks s = free_blocks demo_boot @ [(2, unat (5 :: u32))]"
    "\<forall>q. PageReserved (pages s q) \<longleftrightarrow> PageReserved (pages demo_boot q) \<and> q \<notin> {2..<2 + unat (5 :: u32)}"
    using init_memmap_appends [of demo_boot 5 2] demo_boot_ok demo_flags by auto
  have "s = demo_pmm" using s(1) by (simp add: demo_pmm_def)
  then show "ff_inv demo_pmm" "free_blocks demo_pmm = [(2, 5)]" "npage demo_pmm = 8"
    "PageReserved (pages demo_pmm q) \<longleftrightarrow> q \<notin> {2..<7}" "default_init_memmap demo_boot 2 5 = Ok demo_pmm"
    using s demo_boot_ok demo_flags by auto
qed

text \<open>C1: under the invariant, \<open>default_alloc_pages\<close> never panics and its search ends; it returns the
  head of the first free block with at least \<open>n\<close> pages, or NULL when there is none, and leaves the
  free blocks of the abstract first fit, the invariant, and every reference count.\<close>

theorem alloc_is_first_fit:
  assumes "ff_inv s" and "0 < n"
  shows "\<exists>s'. default_alloc_pages s n = Ok (map_option fst (first_fit (unat n) (free_blocks s)), s')
      \<and> ff_inv s' \<and> npage s' = npage s
      \<and> free_blocks s' = (case first_fit (unat n) (free_blocks s) of None \<Rightarrow> free_blocks s | Some (_, bs) \<Rightarrow> bs)
      \<and> (\<forall>p. ref (pages s' p) = ref (pages s p))"
  using alloc_refines [OF assms] by blast

theorem alloc_is_first_fit_witness:
  "ff_inv demo_pmm \<and> (0 :: u32) < 3
   \<and> (\<exists>s'. default_alloc_pages demo_pmm 3 = Ok (Some 2, s') \<and> free_blocks s' = [(5, 2)])"
  using alloc_is_first_fit [OF demo_pmm_ok(1), of 3] demo_pmm_ok(1,2) by auto

text \<open>C2: when the free list is fully merged, allocation is complete and address-ordered: it fails
  only if no \<open>n\<close> contiguous pages are free, and otherwise returns the lowest address at which
  \<open>n\<close> contiguous pages are free. The free list stays fully merged.\<close>

theorem alloc_complete_and_lowest:
  assumes inv: "ff_inv s" and co: "coalesced (free_blocks s)" and n: "0 < n"
  shows "\<exists>r s'. default_alloc_pages s n = Ok (r, s') \<and> coalesced (free_blocks s')
      \<and> (case r of None \<Rightarrow> \<forall>x. \<not> {x..<x + unat n} \<subseteq> free_pages_of s
         | Some p \<Rightarrow> {p..<p + unat n} \<subseteq> free_pages_of s \<and> (\<forall>x < p. \<not> {x..<x + unat n} \<subseteq> free_pages_of s))"
proof -
  obtain s' where a: "default_alloc_pages s n =
      Ok (map_option fst (first_fit (unat n) (free_blocks s)), s')"
    "free_blocks s' = (case first_fit (unat n) (free_blocks s) of None \<Rightarrow> free_blocks s | Some (_, bs) \<Rightarrow> bs)"
    using alloc_refines [OF inv n] by blast
  have n0: "0 < unat n" using n by (simp add: unat_gt_0)
  show ?thesis
  proof (cases "first_fit (unat n) (free_blocks s)")
    case None
    have "\<not> {x..<x + unat n} \<subseteq> free_pages_of s" for x
      using coalesced_run [OF co n0] None unfolding first_fit_None free_pages_of_def by fastforce
    then show ?thesis using a co None by simp
  next
    case (Some y)
    obtain p bs where y: "y = (p, bs)" by (cases y)
    note ff = first_fit_props [OF Some [unfolded y] n0 ff_inv_blocks(1) [OF inv]]
    have "\<not> {x..<x + unat n} \<subseteq> free_pages_of s" if "x < p" for x
      using first_fit_lowest [OF Some [unfolded y] n0 co that] by (simp add: free_pages_of_def)
    then show ?thesis using a ff(2) ff(7) [OF co] by (simp add: Some y free_pages_of_def)
  qed
qed

theorem alloc_complete_and_lowest_witness:
  "ff_inv demo_pmm \<and> coalesced (free_blocks demo_pmm) \<and> (0 :: u32) < 6
   \<and> (\<exists>s'. default_alloc_pages demo_pmm 6 = Ok (None, s'))
   \<and> (\<forall>x. \<not> {x..<x + 6} \<subseteq> free_pages_of demo_pmm)"
proof -
  have co: "coalesced (free_blocks demo_pmm)" by (simp add: demo_pmm_ok coalesced_Cons)
  obtain s' where "default_alloc_pages demo_pmm 6 = Ok (None, s')"
    using alloc_refines [OF demo_pmm_ok(1), of 6] by (auto simp: demo_pmm_ok)
  then show ?thesis
    using alloc_complete_and_lowest [OF demo_pmm_ok(1) co, of 6] co demo_pmm_ok(1) by auto
qed

text \<open>C3: releasing \<open>n\<close> pages in use never panics and both loops end; exactly these pages become
  free, with reference count 0, and the block list is that of the abstract release. A fully merged
  free list stays fully merged.\<close>

theorem free_releases_and_merges:
  assumes "ff_inv s" and "0 < n" and "b + unat n \<le> unat (npage s)"
    and "{b..<b + unat n} \<inter> free_pages_of s = {}"
    and "\<forall>q \<in> {b..<b + unat n}. \<not> PageReserved (pages s q)"
  shows "\<exists>s'. default_free_pages s b n = Ok s' \<and> ff_inv s'
      \<and> free_blocks s' = release b (unat n) (free_blocks s)
      \<and> free_pages_of s' = free_pages_of s \<union> {b..<b + unat n}
      \<and> unat (nr_free s') = unat (nr_free s) + unat n
      \<and> (coalesced (free_blocks s) \<longrightarrow> coalesced (free_blocks s'))
      \<and> (\<forall>q. ref (pages s' q) = (if q \<in> {b..<b + unat n} then 0 else ref (pages s q)))"
proof -
  obtain s' where f: "default_free_pages s b n = Ok s'" "ff_inv s'"
    "free_blocks s' = release b (unat n) (free_blocks s)"
    "\<forall>q. ref (pages s' q) = (if q \<in> {b..<b + unat n} then 0 else ref (pages s q))"
    using free_refines [OF assms] by blast
  have n0: "0 < unat n" using assms(2) by (simp add: unat_gt_0)
  note rel = release_props [OF ff_inv_blocks(1) [OF assms(1)] n0 assms(4) [unfolded free_pages_of_def]]
  show ?thesis
    using f rel(2-4) ff_inv_blocks(3) [OF assms(1)] ff_inv_blocks(3) [OF f(2)]
    by (auto simp: free_pages_of_def)
qed

theorem free_releases_and_merges_witness:
  "\<exists>s s'. default_alloc_pages demo_pmm 3 = Ok (Some 2, s) \<and> default_free_pages s 3 1 = Ok s'
     \<and> free_blocks s = [(5, 2)] \<and> free_blocks s' = [(3, 1), (5, 2)]"
proof -
  obtain s where s: "default_alloc_pages demo_pmm 3 = Ok (Some 2, s)" "ff_inv s" "npage s = 8"
    "free_blocks s = [(5, 2)]" "\<forall>q. PageReserved (pages s q) = PageReserved (pages demo_pmm q)"
    using alloc_refines [OF demo_pmm_ok(1), of 3] by (auto simp: demo_pmm_ok)
  have "\<exists>s'. default_free_pages s 3 1 = Ok s' \<and> free_blocks s' = release 3 1 [(5, 2)]"
    using free_releases_and_merges [OF s(2), of 1 3] s(3-5) demo_pmm_ok(4)
    by (auto simp: free_pages_of_def)
  then show ?thesis using s by (auto simp: release_def)
qed

text \<open>C4: when no two free blocks are adjacent, giving back the pages of an allocation restores the free list block for
  block: the parts into which the allocation split a block are merged again. Without that condition it does not, since
  freeing also merges blocks that were adjacent before; freeing keeps the condition, but
  \<open>default_init_memmap\<close> appends a block without merging it.\<close>

theorem alloc_free_restores:
  assumes "ff_inv s" and "coalesced (free_blocks s)" and "0 < n"
    and "default_alloc_pages s n = Ok (Some p, s1)"
  shows "\<exists>s2. default_free_pages s1 p n = Ok s2 \<and> ff_inv s2 \<and> free_blocks s2 = free_blocks s
      \<and> nr_free s2 = nr_free s"
proof -
  have a: "ff_inv s1" "usable_pages s1 = usable_pages s" "{p..<p + unat n} \<subseteq> free_pages_of s"
    "free_pages_of s1 = free_pages_of s - {p..<p + unat n}"
    using alloc_pages_set [OF assms(1,3)] assms(4) by auto
  have n0: "0 < unat n" using assms(3) by (simp add: unat_gt_0)
  have co1: "coalesced (free_blocks s1)"
    using alloc_refines [OF assms(1,3)] assms(2,4) n0 ff_inv_blocks(1) [OF assms(1)]
      first_fit_props(7) [of "unat n" "free_blocks s"]
    by (fastforce split: option.splits)
  have sub: "{p..<p + unat n} \<subseteq> usable_pages s1 - free_pages_of s1"
    using a free_pages_usable [OF assms(1)] by blast
  obtain s2 where f: "default_free_pages s1 p n = Ok s2" "ff_inv s2"
    "free_pages_of s2 = free_pages_of s1 \<union> {p..<p + unat n}"
    using free_pages_set [OF a(1) assms(3) sub] by blast
  have "coalesced (free_blocks s2)"
    using free_coalesced [OF a(1) assms(3) sub f(1) co1] .
  moreover have "cover (free_blocks s2) = cover (free_blocks s)"
    using f(3) a(3,4) unfolding free_pages_of_def by blast
  ultimately have bl: "free_blocks s2 = free_blocks s" using coalesced_unique assms(2) by blast
  then have "nr_free s2 = nr_free s"
    using ff_inv_blocks(3) [OF f(2)] ff_inv_blocks(3) [OF assms(1)] by (simp add: word_unat_eq_iff)
  then show ?thesis using f bl by blast
qed

theorem alloc_free_restores_witness:
  "\<exists>s1 s2. default_alloc_pages demo_pmm 3 = Ok (Some 2, s1) \<and> default_free_pages s1 2 3 = Ok s2
     \<and> free_blocks s2 = [(2, 5)]"
proof -
  obtain s where s: "default_alloc_pages demo_pmm 3 = Ok (Some 2, s)"
    using alloc_refines [OF demo_pmm_ok(1), of 3] by (auto simp: demo_pmm_ok)
  show ?thesis
    using alloc_free_restores [OF demo_pmm_ok(1) _ _ s] s by (auto simp: demo_pmm_ok coalesced_Cons)
qed

text \<open>C5: every sequence of requests that returns only runs it was given is served without a panic or
  an endless loop; at every point the runs handed out are pairwise disjoint and disjoint from the
  free pages, no page of the pool is lost, and \<open>nr_free_pages\<close> is the number of free pages.\<close>

theorem workload_conserves_pages:
  assumes "ff_inv s" and "usable_pages s = free_pages_of s"
  shows "\<exists>s' held. serve_all default_alloc_pages default_free_pages rs (s, []) = Ok (s', held)
      \<and> ff_inv s' \<and> apart held \<and> free_pages_of s' \<inter> held_pages held = {}
      \<and> free_pages_of s' \<union> held_pages held = free_pages_of s
      \<and> unat (default_nr_free_pages s') = card (free_pages_of s')"
proof -
  have "pool_ok ff_inv free_pages_of usable_pages (free_pages_of s) (s, [])"
    using assms by (simp add: pool_ok_def)
  from default_pmm.serve_all_ok [OF this, of rs] show ?thesis
    using default_pmm.count_law by (auto simp: pool_ok_def)
qed

theorem workload_conserves_pages_witness:
  "\<exists>s' held. serve_all default_alloc_pages default_free_pages [Alloc 2, Alloc 1, Free 1, Alloc 3]
       (demo_pmm, []) = Ok (s', held)
     \<and> free_pages_of s' \<union> held_pages held = {2..<7}"
proof -
  have "usable_pages demo_pmm = free_pages_of demo_pmm"
    by (auto simp: usable_pages_def free_pages_of_def demo_pmm_ok)
  from workload_conserves_pages [OF demo_pmm_ok(1) this, of "[Alloc 2, Alloc 1, Free 1, Alloc 3]"]
  show ?thesis by (auto simp: free_pages_of_def demo_pmm_ok simp del: serve_all.simps)
qed

text \<open>C6: releasing a range that contains a reserved page or the head of a free block stops the
  kernel with an assertion, so a block that is already free cannot be released a second time.\<close>

theorem free_of_free_block_panics:
  assumes "ff_inv s" and "0 < n" and "q \<in> {b..<b + unat n}"
    and "PageReserved (pages s q) \<or> q \<in> fst ` set (free_blocks s)"
  shows "default_free_pages s b n = Panic"
proof -
  obtain ps where ok: "ff_ok s ps" using assms(1) by (auto simp: ff_inv_def)
  have "PageReserved (pages s q) \<or> PageProperty (pages s q)"
  proof (cases "PageReserved (pages s q)")
    case False
    then have "q \<in> set ps" using assms(4) free_blocks_eq [OF ok] by (auto simp: blk_def)
    then show ?thesis using ff_okD(5) [OF ok] ff_ok_heads(3) [OF ok] by auto
  qed simp
  then have "free_check_loop (unat n) s b = Panic"
    using free_check_loop_eq [of "unat n" s b] assms(3) by auto
  then show ?thesis using assms(2) by (simp add: default_free_pages_def)
qed

theorem free_of_free_block_panics_witness:
  "ff_inv demo_pmm \<and> 2 \<in> fst ` set (free_blocks demo_pmm) \<and> default_free_pages demo_pmm 2 3 = Panic"
  using free_of_free_block_panics [OF demo_pmm_ok(1), of 3 2 2] demo_pmm_ok by simp

text \<open>C7: \<open>default_init_memmap\<close> on a reserved range above all managed blocks appends one block of
  its size, clears the reservation of exactly these pages and keeps the invariant.\<close>

theorem init_memmap_adds_block:
  assumes "ff_inv s" and "0 < n" and "b + unat n \<le> unat (npage s)"
    and "\<forall>(p, m) \<in> set (free_blocks s). p + m \<le> b"
    and "\<forall>q \<in> {b..<b + unat n}. PageReserved (pages s q)"
  shows "\<exists>s'. default_init_memmap s b n = Ok s' \<and> ff_inv s'
      \<and> free_blocks s' = free_blocks s @ [(b, unat n)]
      \<and> usable_pages s' = usable_pages s \<union> {b..<b + unat n}"
  using init_memmap_appends [OF assms] assms(3) by (fastforce simp: usable_pages_def)

theorem init_memmap_adds_block_witness:
  "\<exists>s'. default_init_memmap demo_boot 2 5 = Ok s' \<and> free_blocks s' = [(2, 5)]"
  using init_memmap_adds_block [of demo_boot 5 2] demo_boot_ok demo_flags by auto

end
