(* ===== verification/X86.thy ===== *)
theory X86
  imports Prelude
begin

text \<open>
  The string and memory routines of \<open>libs/x86.h\<close>, which is what the functions of the same names in
  \<open>libs/string.c\<close> compile to: the header defines every \<open>__HAVE_ARCH_\<close> macro. Each routine is inline assembly; the
  instructions it uses are functions on the registers, the flags and a flat memory of 32-bit addresses, and a routine
  composes them in the order of its text. The direction flag is clear on entry, and of the registers only those
  that the routine names as inputs are read before they are written.
\<close>

unbundle bit_operations_syntax

type_synonym mem = "u32 \<Rightarrow> u8"

section \<open>Instructions\<close>

record cpu =
  eax :: u32
  ecx :: u32
  esi :: u32
  edi :: u32
  zf :: bool
  cf :: bool
  df :: bool
  ram :: mem

definition entry :: "mem \<Rightarrow> cpu" where
  "entry m = \<lparr>eax = 0, ecx = 0, esi = 0, edi = 0, zf = False, cf = False, df = False, ram = m\<rparr>"

definition get_al :: "cpu \<Rightarrow> u8" where
  "get_al c = ucast (eax c)"

definition set_al :: "u8 \<Rightarrow> cpu \<Rightarrow> cpu" where
  "set_al b c = c\<lparr>eax := (eax c AND NOT 0xFF) OR ucast b\<rparr>"

text \<open>The step of the index registers in a string instruction on \<open>n\<close> bytes.\<close>

definition advance :: "cpu \<Rightarrow> u32 \<Rightarrow> u32 \<Rightarrow> u32" where
  "advance c p n = (if df c then p - n else p + n)"

definition lodsb :: "cpu \<Rightarrow> cpu" where
  "lodsb c = set_al (ram c (esi c)) (c\<lparr>esi := advance c (esi c) 1\<rparr>)"

definition stosb :: "cpu \<Rightarrow> cpu" where
  "stosb c = c\<lparr>ram := (ram c)(edi c := get_al c), edi := advance c (edi c) 1\<rparr>"

definition scasb :: "cpu \<Rightarrow> cpu" where
  "scasb c = (let b = ram c (edi c) in c\<lparr>zf := (get_al c = b), cf := (get_al c < b), edi := advance c (edi c) 1\<rparr>)"

definition movsb :: "cpu \<Rightarrow> cpu" where
  "movsb c = c\<lparr>ram := (ram c)(edi c := ram c (esi c)), esi := advance c (esi c) 1, edi := advance c (edi c) 1\<rparr>"

text \<open>\<open>movsl\<close> loads four bytes before it stores them.\<close>

definition movsl :: "cpu \<Rightarrow> cpu" where
  "movsl c = (let m = ram c; s = esi c; d = edi c in
     c\<lparr>ram := m(d := m s, d + 1 := m (s + 1), d + 2 := m (s + 2), d + 3 := m (s + 3)),
       esi := advance c s 4, edi := advance c d 4\<rparr>)"

definition testb_al :: "cpu \<Rightarrow> cpu" where
  "testb_al c = c\<lparr>zf := (get_al c AND get_al c = 0), cf := False\<rparr>"

definition xorl_eax :: "cpu \<Rightarrow> cpu" where
  "xorl_eax c = c\<lparr>eax := eax c XOR eax c, zf := True, cf := False\<rparr>"

definition sbbl_eax :: "cpu \<Rightarrow> cpu" where
  "sbbl_eax c = c\<lparr>eax := eax c - (eax c + (if cf c then 1 else 0))\<rparr>"

definition orb_al :: "u8 \<Rightarrow> cpu \<Rightarrow> cpu" where
  "orb_al b c = set_al (get_al c OR b) c"

definition andl_ecx :: "u32 \<Rightarrow> cpu \<Rightarrow> cpu" where
  "andl_ecx w c = c\<lparr>ecx := ecx c AND w, zf := (ecx c AND w = 0), cf := False\<rparr>"

text \<open>The prefix \<open>rep\<close> counts \<open>ecx\<close> down to 0.\<close>

fun rep_times :: "(cpu \<Rightarrow> cpu) \<Rightarrow> nat \<Rightarrow> cpu \<Rightarrow> cpu" where
  "rep_times f 0 c = c"
| "rep_times f (Suc n) c = rep_times f n (f (c\<lparr>ecx := ecx c - 1\<rparr>))"

definition rep :: "(cpu \<Rightarrow> cpu) \<Rightarrow> cpu \<Rightarrow> cpu" where
  "rep f c = rep_times f (unat (ecx c)) c"

section \<open>Routines\<close>

text \<open>The jumps of \<open>__strcmp\<close>: label 1 is the loop, label 2 the end with a difference, label 3 the end.\<close>

partial_function (option) strcmp_loop :: "cpu \<Rightarrow> cpu option" where
  "strcmp_loop c =
     (let c1 = scasb (lodsb c) in
      if \<not> zf c1 then Some (orb_al 1 (sbbl_eax c1))
      else let c2 = testb_al c1 in if \<not> zf c2 then strcmp_loop c2 else Some (xorl_eax c2))"

definition arch_strcmp :: "mem \<Rightarrow> u32 \<Rightarrow> u32 \<Rightarrow> u32 option" where
  "arch_strcmp m s1 s2 = map_option eax (strcmp_loop ((entry m)\<lparr>esi := s1, edi := s2\<rparr>))"

partial_function (option) strcpy_loop :: "cpu \<Rightarrow> cpu option" where
  "strcpy_loop c = (let c1 = testb_al (stosb (lodsb c)) in if \<not> zf c1 then strcpy_loop c1 else Some c1)"

definition arch_strcpy :: "mem \<Rightarrow> u32 \<Rightarrow> u32 \<Rightarrow> mem option" where
  "arch_strcpy m dst src = map_option ram (strcpy_loop ((entry m)\<lparr>esi := src, edi := dst\<rparr>))"

definition arch_memset :: "mem \<Rightarrow> u32 \<Rightarrow> u8 \<Rightarrow> u32 \<Rightarrow> mem" where
  "arch_memset m s c n = ram (rep stosb (set_al c ((entry m)\<lparr>ecx := n, edi := s\<rparr>)))"

definition arch_memcpy :: "mem \<Rightarrow> u32 \<Rightarrow> u32 \<Rightarrow> u32 \<Rightarrow> mem" where
  "arch_memcpy m dst src n =
     (let c1 = rep movsl ((entry m)\<lparr>ecx := n div 4, edi := dst, esi := src\<rparr>);
          c2 = andl_ecx 3 (c1\<lparr>ecx := n\<rparr>)
      in ram (if zf c2 then c2 else rep movsb c2))"

definition arch_memmove :: "mem \<Rightarrow> u32 \<Rightarrow> u32 \<Rightarrow> u32 \<Rightarrow> mem" where
  "arch_memmove m dst src n =
     (if dst < src then arch_memcpy m dst src n
      else
        let c1 = rep movsb ((entry m)\<lparr>df := True, ecx := n, esi := n - 1 + src, edi := n - 1 + dst\<rparr>)
        in ram (c1\<lparr>df := False\<rparr>))"

section \<open>Addresses\<close>

lemma unat_eq_of_nat: "n < 2 ^ 32 \<Longrightarrow> unat (a :: u32) = n \<longleftrightarrow> a = of_nat n"
  by (auto simp: unat_of_nat_u32)

text \<open>\<open>unat (q - p)\<close> is how far \<open>q\<close> lies above \<open>p\<close>, also around the end of the address space.\<close>

lemma dist_of_nat: "(\<exists>i < n. q = p + of_nat i) \<longleftrightarrow> unat (q - p :: u32) < n" if "n \<le> 2 ^ 32"
proof
  assume "\<exists>i < n. q = p + of_nat i"
  then obtain i where "i < n" "q = p + of_nat i" by blast
  then show "unat (q - p) < n" using that by (simp add: unat_of_nat_u32)
next
  assume "unat (q - p) < n"
  moreover have "q = p + of_nat (unat (q - p))" by simp
  ultimately show "\<exists>i < n. q = p + of_nat i" by blast
qed

lemma dist_step:
  fixes q p :: u32
  assumes "a + b \<le> 2 ^ 32" "a < 2 ^ 32"
  shows "unat (q - (p + of_nat a)) < b \<longleftrightarrow> a \<le> unat (q - p) \<and> unat (q - p) < a + b"
proof -
  define d where "d = q - p"
  have q: "q - (p + of_nat a) = d - of_nat a" by (simp add: d_def)
  have ua: "unat (of_nat a :: u32) = a" using assms(2) by (rule unat_of_nat_u32)
  show ?thesis
  proof (cases "a \<le> unat d")
    case True
    then have "unat (d - of_nat a) = unat d - a" using ua by (simp add: unat_sub word_le_nat_alt)
    then show ?thesis unfolding q d_def [symmetric] using True by auto
  next
    case False
    then have "unat (d - of_nat a) = 2 ^ 32 + unat d - a" using ua by (simp add: unat_sub_if')
    then show ?thesis unfolding q d_def [symmetric] using False assms(1) by simp
  qed
qed

section \<open>Block moves\<close>

text \<open>Memory \<open>m\<close> with the \<open>n\<close> bytes at \<open>src\<close> also at \<open>dst\<close>.\<close>

definition moved :: "mem \<Rightarrow> u32 \<Rightarrow> u32 \<Rightarrow> nat \<Rightarrow> mem" where
  "moved m dst src n = (\<lambda>q. if unat (q - dst) < n then m (src + (q - dst)) else m q)"

lemma moved_0 [simp]: "moved m dst src 0 = m"
  by (simp add: moved_def)

text \<open>An ascending copy is right when no byte is overwritten before it has been read.\<close>

definition ascending :: "u32 \<Rightarrow> u32 \<Rightarrow> nat \<Rightarrow> bool" where
  "ascending dst src n \<longleftrightarrow> (\<forall>i j. i < j \<and> j < n \<longrightarrow> dst + of_nat i \<noteq> src + of_nat j)"

lemma moved_moved:
  assumes asc: "ascending dst src (a + b)" and n: "a + b \<le> 2 ^ 32" "a < 2 ^ 32"
  shows "moved (moved m dst src a) (dst + of_nat a) (src + of_nat a) b = moved m dst src (a + b)"
proof
  fix q
  let ?d = "unat (q - dst)"
  have e: "src + of_nat a + (q - (dst + of_nat a)) = src + (q - dst)" by simp
  consider "?d < a" | "a \<le> ?d" "?d < a + b" | "a + b \<le> ?d" by linarith
  then show "moved (moved m dst src a) (dst + of_nat a) (src + of_nat a) b q = moved m dst src (a + b) q"
  proof cases
    case 2
    have "\<not> unat (src + (q - dst) - dst) < a"
    proof
      assume "unat (src + (q - dst) - dst) < a"
      then obtain i where i: "i < a" "src + (q - dst) = dst + of_nat i"
        using dist_of_nat [of a "src + (q - dst)" dst] n by auto
      then have "dst + of_nat i = src + of_nat ?d" by simp
      moreover have "dst + of_nat i \<noteq> src + of_nat ?d"
        using asc 2 i(1) unfolding ascending_def by (meson less_le_trans)
      ultimately show False by blast
    qed
    then show ?thesis using 2 dist_step [OF n, of q dst] unfolding moved_def e by simp
  qed (use dist_step [OF n, of q dst] in \<open>simp_all add: moved_def\<close>)
qed

lemma movsb_moved: "\<not> df c \<Longrightarrow> movsb c = c\<lparr>ram := moved (ram c) (edi c) (esi c) 1, esi := esi c + 1, edi := edi c + 1\<rparr>"
proof -
  assume d: "\<not> df c"
  have "(ram c)(edi c := ram c (esi c)) = moved (ram c) (edi c) (esi c) 1"
    by (auto simp: moved_def fun_eq_iff unat_eq_zero)
  then show ?thesis using d by (simp add: movsb_def advance_def)
qed

lemma dist_cases4: "unat (q - d :: u32) < 4 \<longleftrightarrow> q = d \<or> q = d + 1 \<or> q = d + 2 \<or> q = d + 3"
proof -
  have "unat (q - d) < 4 \<longleftrightarrow> (\<exists>i < 4. q = d + of_nat i)" by (rule dist_of_nat [symmetric]) simp
  also have "\<dots> \<longleftrightarrow> (\<exists>i. (i = 0 \<or> i = 1 \<or> i = 2 \<or> i = 3) \<and> q = d + of_nat i)"
  proof -
    have "i < 4 \<longleftrightarrow> i = 0 \<or> i = 1 \<or> i = 2 \<or> i = 3" for i :: nat by arith
    then show ?thesis by (simp only:)
  qed
  also have "\<dots> \<longleftrightarrow> q = d + of_nat 0 \<or> q = d + of_nat 1 \<or> q = d + of_nat 2 \<or> q = d + of_nat 3" by blast
  also have "\<dots> \<longleftrightarrow> q = d \<or> q = d + 1 \<or> q = d + 2 \<or> q = d + 3" by simp
  finally show ?thesis .
qed

lemma movsl_moved: "\<not> df c \<Longrightarrow> movsl c = c\<lparr>ram := moved (ram c) (edi c) (esi c) 4, esi := esi c + 4, edi := edi c + 4\<rparr>"
proof -
  assume d: "\<not> df c"
  have "(m(d := m s, d + 1 := m (s + 1), d + 2 := m (s + 2), d + 3 := m (s + 3))) = moved m d s 4" for m :: mem and d s
  proof
    fix q
    show "(m(d := m s, d + 1 := m (s + 1), d + 2 := m (s + 2), d + 3 := m (s + 3))) q = moved m d s 4 q"
    proof (cases "unat (q - d) < 4")
      case True
      then have "q = d \<or> q = d + 1 \<or> q = d + 2 \<or> q = d + 3" by (simp only: dist_cases4)
      then show ?thesis using True
        by (elim disjE) (simp_all add: moved_def)
    next
      case False
      then have "q \<noteq> d" "q \<noteq> d + 1" "q \<noteq> d + 2" "q \<noteq> d + 3" unfolding dist_cases4 by blast+
      then show ?thesis using False by (simp add: moved_def)
    qed
  qed
  then show ?thesis using d by (simp add: movsl_def advance_def Let_def)
qed

lemma ascending_shift:
  assumes "ascending dst src (a + b)"
  shows "ascending (dst + of_nat a) (src + of_nat a) b"
  unfolding ascending_def
proof (intro allI impI)
  fix i j
  assume "i < j \<and> j < b"
  then have "dst + of_nat (a + i) \<noteq> src + of_nat (a + j)" using assms by (simp del: of_nat_add add: ascending_def)
  then show "dst + of_nat a + of_nat i \<noteq> src + of_nat a + of_nat j" by (simp add: add.assoc)
qed

lemma rep_times_moved:
  assumes f: "\<And>c. \<not> df c \<Longrightarrow> f c = c\<lparr>ram := moved (ram c) (edi c) (esi c) w, esi := esi c + of_nat w, edi := edi c + of_nat w\<rparr>"
    and w: "w < 2 ^ 32" and "\<not> df c" and "ascending (edi c) (esi c) (w * k)" and "w * k \<le> 2 ^ 32"
  shows "ram (rep_times f k c) = moved (ram c) (edi c) (esi c) (w * k) \<and> esi (rep_times f k c) = esi c + of_nat (w * k)
    \<and> edi (rep_times f k c) = edi c + of_nat (w * k) \<and> \<not> df (rep_times f k c)"
  using assms(3-5)
proof (induction k arbitrary: c)
  case (Suc k)
  define c1 where "c1 = f (c\<lparr>ecx := ecx c - 1\<rparr>)"
  have c1: "ram c1 = moved (ram c) (edi c) (esi c) w" "esi c1 = esi c + of_nat w" "edi c1 = edi c + of_nat w" "\<not> df c1"
    using f [of "c\<lparr>ecx := ecx c - 1\<rparr>"] Suc.prems(1) by (simp_all add: c1_def)
  have n: "w + w * k \<le> 2 ^ 32" and asc: "ascending (edi c) (esi c) (w + w * k)" using Suc.prems(2,3) by simp_all
  have "ascending (edi c1) (esi c1) (w * k)" unfolding c1 by (rule ascending_shift [OF asc])
  then have "ram (rep_times f k c1) = moved (ram c1) (edi c1) (esi c1) (w * k) \<and> esi (rep_times f k c1) = esi c1 + of_nat (w * k)
      \<and> edi (rep_times f k c1) = edi c1 + of_nat (w * k) \<and> \<not> df (rep_times f k c1)"
    using Suc.IH [of c1] c1(4) n by simp
  moreover have "rep_times f (Suc k) c = rep_times f k c1" by (simp add: c1_def)
  ultimately show ?case
    using moved_moved [OF asc n w, of "ram c"] unfolding c1 by (simp add: add.assoc)
qed simp

lemma arch_memcpy_moved:
  assumes asc: "ascending dst src (unat n)"
  shows "arch_memcpy m dst src n = moved m dst src (unat n)"
proof -
  define k where "k = unat n div 4"
  define r where "r = unat n mod 4"
  have n: "unat n = 4 * k + r" "r < 4" by (simp_all add: k_def r_def)
  have lt: "4 * k + r < 2 ^ 32" using unat_u32_less [of n] n(1) by simp
  let ?c = "(entry m)\<lparr>ecx := n div 4, edi := dst, esi := src\<rparr>"
  have ecx: "unat (ecx ?c) = k" by (simp add: k_def unat_div)
  define c1 where "c1 = rep movsl ?c"
  have a1: "ascending dst src (4 * k)" using asc unfolding n(1) by (simp add: ascending_def)
  have c1: "ram c1 = moved m dst src (4 * k)" "esi c1 = src + of_nat (4 * k)" "edi c1 = dst + of_nat (4 * k)" "\<not> df c1"
    using rep_times_moved [of movsl 4 ?c k] movsl_moved a1 lt unfolding c1_def rep_def ecx
    by (simp_all add: entry_def)
  define c2 where "c2 = andl_ecx 3 (c1\<lparr>ecx := n\<rparr>)"
  have "n AND 3 = of_nat r"
  proof -
    have "n AND 3 = n AND mask 2" by (simp add: mask_eq_exp_minus_1)
    also have "\<dots> = take_bit 2 n" by (simp add: take_bit_eq_mask)
    also have "\<dots> = of_nat (unat n mod 4)" by (rule word_unat_eq_iff [THEN iffD2]) (simp add: unsigned_take_bit_eq take_bit_eq_mod unat_of_nat unat_mod)
    finally show ?thesis by (simp add: r_def)
  qed
  moreover have ur: "unat (of_nat r :: u32) = r" using n(2) by (intro unat_of_nat_u32) simp
  ultimately have c2: "ram c2 = ram c1" "esi c2 = esi c1" "edi c2 = edi c1" "\<not> df c2" "unat (ecx c2) = r" "zf c2 \<longleftrightarrow> r = 0"
    using c1(4) by (auto simp: c2_def andl_ecx_def)
  have a2: "ascending (edi c2) (esi c2) (1 * r)"
    unfolding c2 c1 using ascending_shift [of dst src "4 * k" r] asc n(1) by simp
  have "ram (rep_times movsb r c2) = moved (ram c2) (edi c2) (esi c2) (1 * r)"
    using rep_times_moved [of movsb 1 c2 r] movsb_moved a2 c2(4) n(2) by simp
  also have "\<dots> = moved m dst src (unat n)"
    unfolding c2 c1 n(1) using moved_moved [of dst src "4 * k" r m] asc lt n(1) by simp
  finally have fin: "ram (rep_times movsb r c2) = moved m dst src (unat n)" .
  have "arch_memcpy m dst src n = ram (if zf c2 then c2 else rep movsb c2)"
    by (simp add: arch_memcpy_def c1_def c2_def Let_def)
  also have "\<dots> = ram (rep_times movsb r c2)" using c2(5,6) by (simp add: rep_def)
  finally show ?thesis using fin by simp
qed

text \<open>A descending copy is right when the bytes still to be read lie below those already written.\<close>

lemma movsb_down:
  assumes "df c" and "\<forall>i j. i < j \<and> j < n \<longrightarrow> dst + of_nat j \<noteq> src + of_nat i" and "n \<le> 2 ^ 32"
    and "esi c = src + of_nat n - 1" and "edi c = dst + of_nat n - 1"
  shows "ram (rep_times movsb n c) = moved (ram c) dst src n"
  using assms
proof (induction n arbitrary: c)
  case (Suc n)
  define c1 where "c1 = movsb (c\<lparr>ecx := ecx c - 1\<rparr>)"
  let ?m = "(ram c)(dst + of_nat n := ram c (src + of_nat n))"
  have c1: "ram c1 = ?m" "esi c1 = src + of_nat n - 1" "edi c1 = dst + of_nat n - 1" "df c1"
    using Suc.prems(1,4,5) by (simp_all add: c1_def movsb_def advance_def)
  have "ram (rep_times movsb n c1) = moved (ram c1) dst src n"
    by (rule Suc.IH) (use Suc.prems(2,3) c1(2-4) in auto)
  also have "\<dots> = moved (ram c) dst src (Suc n)"
  proof
    fix q
    let ?d = "unat (q - dst)"
    have q: "q = dst + of_nat ?d" by simp
    have un: "unat (of_nat n :: u32) = n" using Suc.prems(3) by (intro unat_of_nat_u32) simp
    consider "?d < n" | "?d = n" | "n < ?d" by linarith
    then show "moved (ram c1) dst src n q = moved (ram c) dst src (Suc n) q"
    proof cases
      case 1
      have "dst + of_nat n \<noteq> src + of_nat ?d" using Suc.prems(2) 1 by blast
      then have "src + (q - dst) \<noteq> dst + of_nat n" by auto
      then show ?thesis using 1 unfolding c1 by (simp add: moved_def)
    next
      case 2
      then have "q = dst + of_nat n" using q by metis
      then show ?thesis using un unfolding c1 by (simp add: moved_def)
    next
      case 3
      then have "q \<noteq> dst + of_nat n" using un by auto
      then show ?thesis using 3 unfolding c1 by (simp add: moved_def)
    qed
  qed
  finally show ?case by (simp add: c1_def)
qed simp

lemma no_wrap:
  assumes "unat (p :: u32) + i < 2 ^ 32"
  shows "unat (p + of_nat i) = unat p + i"
  using assms by (subst unat_add_u32) (simp_all add: unat_of_nat_u32)

lemma arch_memmove_moved:
  assumes d: "unat dst + unat n \<le> 2 ^ 32" and s: "unat src + unat n \<le> 2 ^ 32"
  shows "arch_memmove m dst src n = moved m dst src (unat n)"
proof -
  have u: "unat (dst + of_nat i) = unat dst + i" "unat (src + of_nat i) = unat src + i" if "i < unat n" for i
    using d s that by (simp_all add: no_wrap)
  show ?thesis
  proof (cases "dst < src")
    case True
    have "ascending dst src (unat n)"
      unfolding ascending_def
    proof (intro allI impI)
      fix i j
      assume ij: "i < j \<and> j < unat n"
      then have "unat (dst + of_nat i) = unat dst + i" "unat (src + of_nat j) = unat src + j" using u by auto
      moreover have "unat dst < unat src" using True by (simp add: word_less_nat_alt)
      ultimately have "unat (dst + of_nat i) \<noteq> unat (src + of_nat j)" using ij by linarith
      then show "dst + of_nat i \<noteq> src + of_nat j" by auto
    qed
    then show ?thesis using True by (simp add: arch_memmove_def arch_memcpy_moved)
  next
    case False
    let ?c = "(entry m)\<lparr>df := True, ecx := n, esi := n - 1 + src, edi := n - 1 + dst\<rparr>"
    have "dst + of_nat j \<noteq> src + of_nat i" if ij: "i < j \<and> j < unat n" for i j
    proof -
      have "unat (dst + of_nat j) = unat dst + j" "unat (src + of_nat i) = unat src + i" using u ij by auto
      moreover have "unat src \<le> unat dst" using False by (simp add: word_less_nat_alt)
      ultimately have "unat (dst + of_nat j) \<noteq> unat (src + of_nat i)" using ij by linarith
      then show ?thesis by auto
    qed
    then have "ram (rep_times movsb (unat n) ?c) = moved (ram ?c) dst src (unat n)"
      using unat_u32_less [of n] by (intro movsb_down) (auto simp: algebra_simps)
    then show ?thesis using False by (simp add: arch_memmove_def rep_def entry_def)
  qed
qed

section \<open>Filling\<close>

lemma al_simps [simp]:
  "get_al (set_al b c) = b" "ram (set_al b c) = ram c" "esi (set_al b c) = esi c" "edi (set_al b c) = edi c"
  "ecx (set_al b c) = ecx c" "df (set_al b c) = df c" "zf (set_al b c) = zf c" "cf (set_al b c) = cf c"
proof -
  have "ucast ((w AND NOT 0xFF) OR ucast b :: u32) = b" for w :: u32
  proof (rule bit_word_eqI)
    fix i
    assume "i < LENGTH(8)"
    then show "bit (ucast ((w AND NOT 0xFF) OR ucast b :: u32) :: u8) i = bit b i"
      by (auto simp: bit_simps numeral_eq_Suc less_Suc_eq)
  qed
  then show "get_al (set_al b c) = b" by (simp add: get_al_def set_al_def)
qed (simp_all add: set_al_def)

lemma stosb_times:
  assumes "\<not> df c" and "n \<le> 2 ^ 32"
  shows "ram (rep_times stosb n c) = (\<lambda>q. if unat (q - edi c) < n then get_al c else ram c q)"
  using assms
proof (induction n arbitrary: c)
  case (Suc n)
  define c1 where "c1 = stosb (c\<lparr>ecx := ecx c - 1\<rparr>)"
  have c1: "ram c1 = (ram c)(edi c := get_al c)" "edi c1 = edi c + 1" "\<not> df c1" "get_al c1 = get_al c"
    using Suc.prems(1) by (simp_all add: c1_def stosb_def advance_def get_al_def)
  have "ram (rep_times stosb n c1) = (\<lambda>q. if unat (q - edi c1) < n then get_al c1 else ram c1 q)"
    using Suc.IH [of c1] Suc.prems(2) c1(3) by simp
  also have "\<dots> = (\<lambda>q. if unat (q - edi c) < Suc n then get_al c else ram c q)"
  proof
    fix q
    have "unat (q - (edi c + 1)) < n \<longleftrightarrow> 1 \<le> unat (q - edi c) \<and> unat (q - edi c) < 1 + n"
      using dist_step [of 1 n q "edi c"] Suc.prems(2) by simp
    moreover have "unat (q - edi c) = 0 \<longleftrightarrow> q = edi c" by (simp add: unat_eq_zero)
    ultimately show "(if unat (q - edi c1) < n then get_al c1 else ram c1 q) = (if unat (q - edi c) < Suc n then get_al c else ram c q)"
      unfolding c1 by auto
  qed
  finally show ?case by (simp add: c1_def)
qed simp

lemma arch_memset_eq: "arch_memset m s c n = (\<lambda>q. if unat (q - s) < unat n then c else m q)"
  using stosb_times [of "set_al c ((entry m)\<lparr>ecx := n, edi := s\<rparr>)" "unat n"] unat_u32_less [of n]
  by (auto simp: arch_memset_def rep_def entry_def fun_eq_iff)

section \<open>Strings\<close>

text \<open>\<open>cstr m s xs\<close>: at address \<open>s\<close> stand the nonzero bytes \<open>xs\<close> and then a zero byte.\<close>

fun cstr :: "mem \<Rightarrow> u32 \<Rightarrow> u8 list \<Rightarrow> bool" where
  "cstr m s [] \<longleftrightarrow> m s = 0"
| "cstr m s (x # xs) \<longleftrightarrow> m s = x \<and> x \<noteq> 0 \<and> cstr m (s + 1) xs"

lemma cstr_append:
  "cstr m s (xs @ ys) \<longleftrightarrow> (\<forall>i < length xs. m (s + of_nat i) = xs ! i \<and> xs ! i \<noteq> 0) \<and> cstr m (s + of_nat (length xs)) ys"
proof (induction xs arbitrary: s)
  case (Cons x xs)
  have "(\<forall>i < length (x # xs). m (s + of_nat i) = (x # xs) ! i \<and> (x # xs) ! i \<noteq> 0) \<longleftrightarrow>
      m s = x \<and> x \<noteq> 0 \<and> (\<forall>i < length xs. m (s + 1 + of_nat i) = xs ! i \<and> xs ! i \<noteq> 0)"
    by (auto simp: less_Suc_eq_0_disj add.assoc)
  then show ?case using Cons.IH [of "s + 1"] by (simp add: add.assoc)
qed simp

lemma cstr_nth: "cstr m s xs \<longleftrightarrow> (\<forall>i < length xs. m (s + of_nat i) = xs ! i \<and> xs ! i \<noteq> 0) \<and> m (s + of_nat (length xs)) = 0"
  using cstr_append [of m s xs "[]"] by simp

lemma cstr_cong: "\<forall>i \<le> length xs. m' (s + of_nat i) = m (s + of_nat i) \<Longrightarrow> cstr m' s xs = cstr m s xs"
  unfolding cstr_nth by simp

lemma cstr_unique: "cstr m s xs \<Longrightarrow> cstr m s ys \<Longrightarrow> xs = ys"
proof (induction xs arbitrary: s ys)
  case Nil
  then show ?case by (cases ys) auto
next
  case (Cons x xs)
  then show ?case by (cases ys) auto
qed

lemma cstr_nonzero: "cstr m s xs \<Longrightarrow> 0 \<notin> set xs"
  by (induction xs arbitrary: s) auto

text \<open>A string cannot run around the whole address space.\<close>

lemma cstr_length: "cstr m s xs \<Longrightarrow> length xs < 2 ^ 32"
proof (rule ccontr)
  assume c: "cstr m s xs" and n: "\<not> length xs < 2 ^ 32"
  define i where "i = length xs - 2 ^ 32"
  have "length xs = i + 2 ^ 32" using n by (simp add: i_def)
  moreover have "(2 :: u32) ^ 32 = 0" by (simp add: exp_eq_zero_iff)
  ultimately have "(of_nat (length xs) :: u32) = of_nat i" by (simp only: of_nat_add of_nat_power of_nat_numeral add_0_right)
  moreover have "i < length xs" using n by (simp add: i_def)
  ultimately show False using c unfolding cstr_nth by metis
qed

text \<open>The addresses from \<open>p\<close> on, \<open>n\<close> of them.\<close>

definition bytes_at :: "u32 \<Rightarrow> nat \<Rightarrow> u32 set" where
  "bytes_at p n = {p + of_nat i | i. i < n}"

lemma bytes_at_iff: "n \<le> 2 ^ 32 \<Longrightarrow> q \<in> bytes_at p n \<longleftrightarrow> unat (q - p) < n"
  using dist_of_nat [of n q p] by (auto simp: bytes_at_def)

lemma bytes_at_Suc: "bytes_at p (Suc n) = insert p (bytes_at (p + 1) n)"
proof -
  have "(\<exists>i < Suc n. q = p + of_nat i) \<longleftrightarrow> q = p \<or> (\<exists>i < n. q = p + 1 + of_nat i)" for q :: u32
    by (auto simp: less_Suc_eq_0_disj add.assoc)
  then show ?thesis by (auto simp: bytes_at_def)
qed

lemma bytes_at_0: "bytes_at p 0 = {}"
  by (simp add: bytes_at_def)

lemma bytes_at_mono: "k \<le> n \<Longrightarrow> bytes_at p k \<subseteq> bytes_at p n"
  by (auto simp: bytes_at_def)

lemma bytes_at_shift: "k + n \<le> l \<Longrightarrow> bytes_at (p + of_nat k) n \<subseteq> bytes_at p l"
proof
  fix q
  assume l: "k + n \<le> l" and "q \<in> bytes_at (p + of_nat k) n"
  then obtain i where "i < n" "q = p + of_nat (k + i)" by (auto simp: bytes_at_def add.assoc)
  then show "q \<in> bytes_at p l" using l unfolding bytes_at_def by fastforce
qed

lemma get_al_upd [simp]:
  "get_al (c\<lparr>ram := m\<rparr>) = get_al c" "get_al (c\<lparr>edi := p\<rparr>) = get_al c" "get_al (c\<lparr>esi := p\<rparr>) = get_al c"
  "get_al (c\<lparr>zf := b\<rparr>) = get_al c" "get_al (c\<lparr>cf := b\<rparr>) = get_al c"
  by (simp_all add: get_al_def)

lemma copy_step:
  assumes "\<not> df c"
  shows "ram (testb_al (stosb (lodsb c))) = (ram c)(edi c := ram c (esi c))"
    and "esi (testb_al (stosb (lodsb c))) = esi c + 1" and "edi (testb_al (stosb (lodsb c))) = edi c + 1"
    and "df (testb_al (stosb (lodsb c))) = False" and "zf (testb_al (stosb (lodsb c))) \<longleftrightarrow> ram c (esi c) = 0"
  using assms by (simp_all add: testb_al_def stosb_def lodsb_def advance_def)

lemma strcpy_loop_cstr:
  assumes "\<not> df c" and "cstr (ram c) (esi c) xs" and "bytes_at (edi c) (Suc (length xs)) \<inter> bytes_at (esi c) (Suc (length xs)) = {}"
  shows "\<exists>c'. strcpy_loop c = Some c' \<and> cstr (ram c') (edi c) xs \<and>
    (\<forall>q. q \<notin> bytes_at (edi c) (Suc (length xs)) \<longrightarrow> ram c' q = ram c q)"
  using assms
proof (induction xs arbitrary: c)
  case Nil
  define c1 where "c1 = testb_al (stosb (lodsb c))"
  have c1: "zf c1" "ram c1 = (ram c)(edi c := 0)" using Nil by (simp_all add: c1_def copy_step)
  then have "strcpy_loop c = Some c1" by (subst strcpy_loop.simps) (simp add: Let_def c1_def)
  then show ?case using c1 by (simp add: bytes_at_def)
next
  case (Cons x xs)
  define c1 where "c1 = testb_al (stosb (lodsb c))"
  have c1: "\<not> zf c1" "ram c1 = (ram c)(edi c := x)" "esi c1 = esi c + 1" "edi c1 = edi c + 1" "\<not> df c1"
    using Cons.prems by (simp_all add: c1_def copy_step)
  have dj: "bytes_at (edi c) (Suc (Suc (length xs))) \<inter> bytes_at (esi c) (Suc (Suc (length xs))) = {}" using Cons.prems(3) by simp
  have sub: "bytes_at (p + 1) (Suc n) \<subseteq> bytes_at p (Suc (Suc n))" for p n using bytes_at_Suc [of p "Suc n"] by blast
  have "edi c \<notin> bytes_at (esi c + 1) (Suc (length xs))" using dj bytes_at_Suc [of "edi c"] sub by blast
  then have "\<forall>i \<le> length xs. ram c1 (esi c + 1 + of_nat i) = ram c (esi c + 1 + of_nat i)"
    unfolding c1 by (auto simp: bytes_at_def less_Suc_eq_le)
  then have "cstr (ram c1) (esi c + 1) xs = cstr (ram c) (esi c + 1) xs" by (rule cstr_cong)
  then have "cstr (ram c1) (esi c1) xs" using Cons.prems(2) unfolding c1(3) by simp
  moreover have "bytes_at (edi c1) (Suc (length xs)) \<inter> bytes_at (esi c1) (Suc (length xs)) = {}"
    unfolding c1 using dj sub by blast
  ultimately obtain c' where c': "strcpy_loop c1 = Some c'" "cstr (ram c') (edi c1) xs"
      "\<forall>q. q \<notin> bytes_at (edi c1) (Suc (length xs)) \<longrightarrow> ram c' q = ram c1 q"
    using Cons.IH [of c1] c1(5) by blast
  have "strcpy_loop c = Some c'" using c1(1) c'(1) by (subst strcpy_loop.simps) (simp add: Let_def c1_def)
  moreover have "edi c \<notin> bytes_at (edi c + 1) (Suc (length xs))"
  proof -
    have "Suc (length xs) < 2 ^ 32" using cstr_length [OF Cons.prems(2)] by simp
    moreover have "unat (- 1 :: u32) = 2 ^ 32 - 1" by (simp add: unsigned_minus_1_eq_mask mask_eq_exp_minus_1)
    ultimately show ?thesis using bytes_at_iff [of "Suc (length xs)" "edi c" "edi c + 1"] by simp
  qed
  then have "ram c' (edi c) = x" using c'(3) c1 by simp
  moreover have "ram c' q = ram c q" if "q \<notin> bytes_at (edi c) (Suc (length (x # xs)))" for q
    using that c'(3) bytes_at_Suc [of "edi c" "Suc (length xs)"] unfolding c1 by auto
  ultimately show ?case using c'(2) Cons.prems(2) c1(4) by auto
qed

lemma arch_strcpy_cstr:
  assumes "cstr m src xs" and "bytes_at dst (Suc (length xs)) \<inter> bytes_at src (Suc (length xs)) = {}"
  shows "\<exists>m'. arch_strcpy m dst src = Some m' \<and> cstr m' dst xs \<and> (\<forall>q. q \<notin> bytes_at dst (Suc (length xs)) \<longrightarrow> m' q = m q)"
  using strcpy_loop_cstr [of "(entry m)\<lparr>esi := src, edi := dst\<rparr>" xs] assms by (auto simp: arch_strcpy_def entry_def)

section \<open>Comparison\<close>

text \<open>The order of two strings by their first different bytes, read as unsigned; a proper prefix is less.\<close>

fun str_order :: "u8 list \<Rightarrow> u8 list \<Rightarrow> u32" where
  "str_order [] [] = 0"
| "str_order (x # xs) [] = 1"
| "str_order [] (y # ys) = - 1"
| "str_order (x # xs) (y # ys) = (if x = y then str_order xs ys else if x < y then - 1 else 1)"

definition cmp_step :: "cpu \<Rightarrow> cpu" where
  "cmp_step c = scasb (lodsb c)"

lemma cmp_step_simps:
  assumes "\<not> df c"
  shows "ram (cmp_step c) = ram c" and "esi (cmp_step c) = esi c + 1" and "edi (cmp_step c) = edi c + 1"
    and "df (cmp_step c) = False" and "zf (cmp_step c) \<longleftrightarrow> ram c (esi c) = ram c (edi c)"
    and "cf (cmp_step c) \<longleftrightarrow> ram c (esi c) < ram c (edi c)" and "get_al (cmp_step c) = ram c (esi c)"
  using assms by (simp_all add: cmp_step_def scasb_def lodsb_def advance_def Let_def)

lemma differ_result: "eax (orb_al 1 (sbbl_eax c)) = (if cf c then - 1 else 1)"
proof -
  have a: "((- 1 :: u32) AND NOT 0xFF) OR ucast ((ucast (- 1 :: u32) :: u8) OR 1) = - 1" by code_simp
  have b: "((0 :: u32) AND NOT 0xFF) OR ucast ((ucast (0 :: u32) :: u8) OR 1) = 1" by code_simp
  have e: "eax (sbbl_eax c) = (if cf c then - 1 else 0)" by (simp add: sbbl_eax_def)
  have "eax (orb_al 1 (sbbl_eax c)) = (eax (sbbl_eax c) AND NOT 0xFF) OR ucast ((ucast (eax (sbbl_eax c)) :: u8) OR 1)"
    by (simp add: orb_al_def set_al_def get_al_def)
  then show ?thesis unfolding e by (cases "cf c") (simp_all only: a b if_True if_False)
qed

lemma strcmp_loop_cstr:
  assumes "\<not> df c" and "cstr (ram c) (esi c) xs" and "cstr (ram c) (edi c) ys"
  shows "\<exists>c'. strcmp_loop c = Some c' \<and> eax c' = str_order xs ys"
  using assms
proof (induction xs ys arbitrary: c rule: str_order.induct)
  case 1
  let ?c = "cmp_step c"
  have "zf ?c" "zf (testb_al ?c)" using 1 by (simp_all add: cmp_step_simps testb_al_def)
  then have "strcmp_loop c = Some (xorl_eax (testb_al ?c))"
    by (subst strcmp_loop.simps) (simp add: Let_def cmp_step_def)
  then show ?case by (simp add: xorl_eax_def)
next
  case (2 x xs)
  have "\<not> zf (cmp_step c)" "\<not> cf (cmp_step c)" using 2 by (auto simp: cmp_step_simps)
  then show ?case by (subst strcmp_loop.simps) (simp add: Let_def cmp_step_def [symmetric] differ_result)
next
  case (3 y ys)
  have "\<not> zf (cmp_step c)" "cf (cmp_step c)" using 3 by (auto simp: cmp_step_simps word_less_nat_alt unat_gt_0)
  then show ?case by (subst strcmp_loop.simps) (simp add: Let_def cmp_step_def [symmetric] differ_result)
next
  case (4 x xs y ys)
  show ?case
  proof (cases "x = y")
    case True
    let ?c = "testb_al (cmp_step c)"
    have z: "zf (cmp_step c)" "\<not> zf ?c" using 4(2-4) True by (auto simp: cmp_step_simps testb_al_def)
    have c: "\<not> df ?c" "cstr (ram ?c) (esi ?c) xs" "cstr (ram ?c) (edi ?c) ys"
      using 4(2-4) by (simp_all add: cmp_step_simps testb_al_def)
    show ?thesis using 4(1) [OF True c] z True
      by (subst strcmp_loop.simps) (simp add: Let_def cmp_step_def [symmetric])
  next
    case False
    have "\<not> zf (cmp_step c)" "cf (cmp_step c) \<longleftrightarrow> x < y" using 4(2-4) False by (auto simp: cmp_step_simps)
    then show ?thesis using False
      by (subst strcmp_loop.simps) (simp add: Let_def cmp_step_def [symmetric] differ_result)
  qed
qed

lemma arch_strcmp_cstr: "cstr m s1 xs \<Longrightarrow> cstr m s2 ys \<Longrightarrow> arch_strcmp m s1 s2 = Some (str_order xs ys)"
  using strcmp_loop_cstr [of "(entry m)\<lparr>esi := s1, edi := s2\<rparr>" xs ys] by (auto simp: arch_strcmp_def entry_def)

end
