(* ===== verification/Cstring.thy ===== *)
theory Cstring
  imports X86
begin

text \<open>
  The string and memory routines of \<open>libs/string.c\<close> over a byte memory of 32-bit addresses. A loop that scans for a
  terminating zero byte is a partial function: \<open>None\<close> stands for a scan that never ends. Where the header
  \<open>libs/x86.h\<close> defines \<open>__HAVE_ARCH_x\<close>, as it does for \<open>strcmp\<close>, \<open>strcpy\<close>, \<open>memset\<close>, \<open>memmove\<close> and
  \<open>memcpy\<close>, the function is the call of the assembly routine, and the other branch is not compiled. Bytes are
  unsigned: the source compares plain \<open>char\<close>s only for equality and against ASCII ranges, where the sign does not
  matter.
\<close>

section \<open>Strings\<close>

partial_function (option) strlen_loop :: "mem \<Rightarrow> u32 \<Rightarrow> u32 \<Rightarrow> u32 option" where
  "strlen_loop m s cnt = (if m s \<noteq> 0 then strlen_loop m (s + 1) (cnt + 1) else Some cnt)"

definition strlen :: "mem \<Rightarrow> u32 \<Rightarrow> u32 option" where
  "strlen m s = strlen_loop m s 0"

function strnlen_loop :: "mem \<Rightarrow> u32 \<Rightarrow> u32 \<Rightarrow> u32 \<Rightarrow> u32" where
  "strnlen_loop m s len cnt = (if cnt < len \<and> m s \<noteq> 0 then strnlen_loop m (s + 1) len (cnt + 1) else cnt)"
  by pat_completeness auto
termination
proof (relation "measure (\<lambda>(m, s, len, cnt). unat len - unat cnt)")
  show "((m, s + 1, len, cnt + 1), m, s, len, cnt) \<in> measure (\<lambda>(m, s, len, cnt). unat len - unat cnt)"
    if "cnt < len \<and> m s \<noteq> 0" for m :: mem and s len cnt :: u32
  proof -
    have "unat cnt < unat len" using that by (simp add: word_less_nat_alt)
    moreover have "unat (cnt + 1) = unat cnt + 1"
      using calculation unat_u32_less [of len] by (subst unat_add_u32) simp_all
    ultimately show ?thesis by simp
  qed
qed simp

definition strnlen :: "mem \<Rightarrow> u32 \<Rightarrow> u32 \<Rightarrow> u32" where
  "strnlen m s len = strnlen_loop m s len 0"

definition strcpy :: "mem \<Rightarrow> u32 \<Rightarrow> u32 \<Rightarrow> mem option" where
  "strcpy m dst src = arch_strcpy m dst src"

definition strcat :: "mem \<Rightarrow> u32 \<Rightarrow> u32 \<Rightarrow> mem option" where
  "strcat m dst src = Option.bind (strlen m dst) (\<lambda>n. strcpy m (dst + n) src)"

text \<open>The loops that count a \<open>size_t\<close> down to 0 recurse on its value.\<close>

fun strncpy_loop :: "mem \<Rightarrow> u32 \<Rightarrow> u32 \<Rightarrow> nat \<Rightarrow> mem" where
  "strncpy_loop m p src 0 = m"
| "strncpy_loop m p src (Suc len) =
     (let m' = m(p := m src) in strncpy_loop m' (p + 1) (if m src \<noteq> 0 then src + 1 else src) len)"

definition strncpy :: "mem \<Rightarrow> u32 \<Rightarrow> u32 \<Rightarrow> u32 \<Rightarrow> mem" where
  "strncpy m dst src len = strncpy_loop m dst src (unat len)"

definition byte_diff :: "u8 \<Rightarrow> u8 \<Rightarrow> int" where
  "byte_diff a b = int (unat a) - int (unat b)"

definition strcmp :: "mem \<Rightarrow> u32 \<Rightarrow> u32 \<Rightarrow> u32 option" where
  "strcmp m s1 s2 = arch_strcmp m s1 s2"

fun strncmp_loop :: "mem \<Rightarrow> u32 \<Rightarrow> u32 \<Rightarrow> nat \<Rightarrow> int" where
  "strncmp_loop m s1 s2 0 = 0"
| "strncmp_loop m s1 s2 (Suc n) =
     (if m s1 \<noteq> 0 \<and> m s1 = m s2 then strncmp_loop m (s1 + 1) (s2 + 1) n else byte_diff (m s1) (m s2))"

definition strncmp :: "mem \<Rightarrow> u32 \<Rightarrow> u32 \<Rightarrow> u32 \<Rightarrow> int" where
  "strncmp m s1 s2 n = strncmp_loop m s1 s2 (unat n)"

text \<open>\<open>Some None\<close> is the NULL result of \<open>strchr\<close>.\<close>

partial_function (option) strchr :: "mem \<Rightarrow> u32 \<Rightarrow> u8 \<Rightarrow> u32 option option" where
  "strchr m s c = (if m s \<noteq> 0 then if m s = c then Some (Some s) else strchr m (s + 1) c else Some None)"

partial_function (option) strfind :: "mem \<Rightarrow> u32 \<Rightarrow> u8 \<Rightarrow> u32 option" where
  "strfind m s c = (if m s \<noteq> 0 then if m s = c then Some s else strfind m (s + 1) c else Some s)"

section \<open>Memory blocks\<close>

definition memset :: "mem \<Rightarrow> u32 \<Rightarrow> u8 \<Rightarrow> u32 \<Rightarrow> mem" where
  "memset m s c n = arch_memset m s c n"

definition memmove :: "mem \<Rightarrow> u32 \<Rightarrow> u32 \<Rightarrow> u32 \<Rightarrow> mem" where
  "memmove m dst src n = arch_memmove m dst src n"

definition memcpy :: "mem \<Rightarrow> u32 \<Rightarrow> u32 \<Rightarrow> u32 \<Rightarrow> mem" where
  "memcpy m dst src n = arch_memcpy m dst src n"

fun memcmp_loop :: "mem \<Rightarrow> u32 \<Rightarrow> u32 \<Rightarrow> nat \<Rightarrow> int" where
  "memcmp_loop m s1 s2 0 = 0"
| "memcmp_loop m s1 s2 (Suc n) = (if m s1 \<noteq> m s2 then byte_diff (m s1) (m s2) else memcmp_loop m (s1 + 1) (s2 + 1) n)"

definition memcmp :: "mem \<Rightarrow> u32 \<Rightarrow> u32 \<Rightarrow> u32 \<Rightarrow> int" where
  "memcmp m v1 v2 n = memcmp_loop m v1 v2 (unat n)"

section \<open>Numbers\<close>

definition chr :: "char \<Rightarrow> u8" where
  "chr c = of_char c"

text \<open>The value of a digit character, 0--9, a--z or A--Z; \<open>None\<close> is the \<open>break\<close>.\<close>

definition digit_of :: "u8 \<Rightarrow> int option" where
  "digit_of c =
     (if 48 \<le> c \<and> c \<le> 57 then Some (int (unat c) - 48)
      else if 97 \<le> c \<and> c \<le> 122 then Some (int (unat c) - 97 + 10)
      else if 65 \<le> c \<and> c \<le> 90 then Some (int (unat c) - 65 + 10)
      else None)"

partial_function (option) strtol_skip :: "mem \<Rightarrow> u32 \<Rightarrow> u32 option" where
  "strtol_skip m s = (if m s = 32 \<or> m s = 9 then strtol_skip m (s + 1) else Some s)"

partial_function (option) strtol_digits :: "mem \<Rightarrow> u32 \<Rightarrow> int \<Rightarrow> u32 \<Rightarrow> (u32 \<times> u32) option" where
  "strtol_digits m s base val =
     (case digit_of (m s) of
        None \<Rightarrow> Some (val, s)
      | Some dig \<Rightarrow> if base \<le> dig then Some (val, s)
                   else strtol_digits m (s + 1) base (val * of_int base + of_int dig))"

text \<open>\<open>long\<close> has 32 bits and its overflow is not detected: the multiplication and the addition are the machine's,
  which wrap, the kernel being compiled without optimisation. The result is the word and the end pointer.\<close>

definition strtol :: "mem \<Rightarrow> u32 \<Rightarrow> int \<Rightarrow> (u32 \<times> u32) option" where
  "strtol m s0 base0 =
     Option.bind (strtol_skip m s0) (\<lambda>s1.
      let (s2, neg) = (if m s1 = 43 then (s1 + 1, False)
                       else if m s1 = 45 then (s1 + 1, True) else (s1, False));
          (s3, base) = (if (base0 = 0 \<or> base0 = 16) \<and> m s2 = 48 \<and> m (s2 + 1) = 120 then (s2 + 2, 16)
                        else if base0 = 0 \<and> m s2 = 48 then (s2 + 1, 8)
                        else if base0 = 0 then (s2, 10) else (s2, base0))
      in Option.bind (strtol_digits m s3 base 0) (\<lambda>(val, s4). Some (if neg then - val else val, s4)))"

section \<open>Scans\<close>

lemma strlen_loop_cstr: "cstr m s xs \<Longrightarrow> strlen_loop m s cnt = Some (cnt + of_nat (length xs))"
proof (induction xs arbitrary: s cnt)
  case Nil
  then show ?case by (subst strlen_loop.simps) simp
next
  case (Cons x xs)
  then show ?case by (subst strlen_loop.simps) (simp add: add.assoc)
qed

lemma strlen_cstr: "cstr m s xs \<Longrightarrow> strlen m s = Some (of_nat (length xs))"
  by (simp add: strlen_def strlen_loop_cstr)

declare strnlen_loop.simps [simp del]

lemma strnlen_loop_cong:
  assumes "\<forall>i. (\<forall>j < i. m (s + of_nat j) \<noteq> 0) \<longrightarrow> m' (s + of_nat i) = m (s + of_nat i)"
  shows "strnlen_loop m' s len cnt = strnlen_loop m s len cnt"
  using assms
proof (induction m s len cnt rule: strnlen_loop.induct)
  case (1 m s len cnt)
  have eq: "m' s = m s" using 1(2) [rule_format, of 0] by simp
  show ?case
  proof (cases "cnt < len \<and> m s \<noteq> 0")
    case True
    have "m' (s + 1 + of_nat i) = m (s + 1 + of_nat i)" if "\<forall>j < i. m (s + 1 + of_nat j) \<noteq> 0" for i
    proof -
      have "\<forall>j < Suc i. m (s + of_nat j) \<noteq> 0" using that True by (auto simp: less_Suc_eq_0_disj add.assoc)
      then show ?thesis using 1(2) [rule_format, of "Suc i"] by (simp add: add.assoc)
    qed
    then show ?thesis using 1(1) [OF True] True eq
      by (subst (1 2) strnlen_loop.simps) simp
  next
    case False
    then show ?thesis using eq by (subst (1 2) strnlen_loop.simps) auto
  qed
qed

section \<open>Comparison\<close>

text \<open>The first difference of two strings, with 0 behind the end of the shorter one.\<close>

fun str_diff :: "u8 list \<Rightarrow> u8 list \<Rightarrow> int" where
  "str_diff [] [] = 0"
| "str_diff (x # xs) [] = byte_diff x 0"
| "str_diff [] (y # ys) = byte_diff 0 y"
| "str_diff (x # xs) (y # ys) = (if x = y then str_diff xs ys else byte_diff x y)"

lemma byte_diff_0 [simp]: "byte_diff a b = 0 \<longleftrightarrow> a = b"
  by (metis byte_diff_def diff_eq_diff_eq diff_self of_nat_eq_iff unsigned_word_eqI)

lemma sgn_byte_diff: "sgn (byte_diff a b) = (if a = b then 0 else if a < b then - 1 else 1)"
  by (auto simp: byte_diff_def word_less_def sgn_if dest: unsigned_word_eqI)

lemma str_order_sgn:
  "0 \<notin> set xs \<Longrightarrow> 0 \<notin> set ys \<Longrightarrow> sint (str_order xs ys) = sgn (str_diff xs ys)"
proof (induction xs ys rule: str_order.induct)
  case (2 x xs)
  then show ?case by (auto simp: sgn_byte_diff)
next
  case (3 y ys)
  then show ?case by (auto simp: sgn_byte_diff word_less_nat_alt unat_gt_0)
qed (auto simp: sgn_byte_diff)

lemma str_diff_0: "0 \<notin> set xs \<Longrightarrow> 0 \<notin> set ys \<Longrightarrow> str_diff xs ys = 0 \<longleftrightarrow> xs = ys"
  by (induction xs ys rule: str_diff.induct) auto

lemma strncmp_loop_cstr:
  "cstr m s1 xs \<Longrightarrow> cstr m s2 ys \<Longrightarrow> strncmp_loop m s1 s2 n = str_diff (take n xs) (take n ys)"
proof (induction xs ys arbitrary: s1 s2 n rule: str_diff.induct)
  case 1
  then show ?case by (cases n) (auto simp: byte_diff_def)
next
  case (2 x xs)
  then show ?case by (cases n) auto
next
  case (3 y ys)
  then show ?case by (cases n) auto
next
  case (4 x xs y ys)
  then show ?case by (cases n) auto
qed

lemma memcmp_loop_0: "memcmp_loop m s1 s2 n = 0 \<longleftrightarrow> (\<forall>i < n. m (s1 + of_nat i) = m (s2 + of_nat i))"
proof (induction n arbitrary: s1 s2)
  case (Suc n)
  have "(\<forall>i < Suc n. m (s1 + of_nat i) = m (s2 + of_nat i)) \<longleftrightarrow>
      m s1 = m s2 \<and> (\<forall>i < n. m (s1 + 1 + of_nat i) = m (s2 + 1 + of_nat i))"
    by (auto simp: less_Suc_eq_0_disj add.assoc)
  then show ?case using Suc.IH by auto
qed simp

section \<open>Reading numbers\<close>

text \<open>The value of a digit list, most significant first.\<close>

definition digits_val :: "int \<Rightarrow> int \<Rightarrow> u8 list \<Rightarrow> int" where
  "digits_val base acc xs = foldl (\<lambda>v c. v * base + the (digit_of c)) acc xs"

definition is_digit :: "int \<Rightarrow> u8 \<Rightarrow> bool" where
  "is_digit base c \<longleftrightarrow> (case digit_of c of None \<Rightarrow> False | Some d \<Rightarrow> d < base)"

lemma strtol_digits_cstr:
  "cstr m s (xs @ rest) \<Longrightarrow> \<forall>c \<in> set xs. is_digit base c \<Longrightarrow>
   (case rest of [] \<Rightarrow> True | c # _ \<Rightarrow> \<not> is_digit base c) \<Longrightarrow>
   strtol_digits m s base (of_int acc) = Some (of_int (digits_val base acc xs), s + of_nat (length xs))"
proof (induction xs arbitrary: s acc)
  case Nil
  have "digit_of 0 = None" by (simp add: digit_of_def)
  then have "\<not> is_digit base (m s)"
    using Nil by (auto simp: is_digit_def split: list.splits)
  then show ?case
    by (subst strtol_digits.simps) (auto simp: digits_val_def is_digit_def split: option.splits)
next
  case (Cons x xs)
  then obtain d where d: "digit_of (m s) = Some d" "d < base" "m s = x"
    by (auto simp: is_digit_def split: option.splits)
  have "strtol_digits m (s + 1) base (of_int (acc * base + d)) =
      Some (of_int (digits_val base (acc * base + d) xs), s + 1 + of_nat (length xs))"
    by (rule Cons.IH) (use Cons.prems in auto)
  then show ?case using d
    by (subst strtol_digits.simps) (simp add: digits_val_def add.assoc)
qed

section \<open>Properties of the string library\<close>

text \<open>C25: \<open>memmove\<close> copies the \<open>n\<close> bytes as they were before the call, for every overlap of source and destination,
  and changes no other byte, when neither block runs over the end of the address space. It is the assembly routine
  of the header: four bytes at a time and a rest upwards when the destination lies below the source, and bytewise
  downwards with the direction flag set otherwise.\<close>

theorem memmove_copies:
  assumes "unat dst + unat n \<le> 2 ^ 32" and "unat src + unat n \<le> 2 ^ 32"
  shows "memmove m dst src n =
    (\<lambda>q. if unat dst \<le> unat q \<and> unat q < unat dst + unat n then m (src + (q - dst)) else m q)"
proof
  fix q
  have "unat (q - dst) < unat n \<longleftrightarrow> unat dst \<le> unat q \<and> unat q < unat dst + unat n"
  proof (cases "unat dst \<le> unat q")
    case True
    then show ?thesis by (auto simp: unat_sub word_le_nat_alt)
  next
    case False
    then have "unat (q - dst) = 2 ^ 32 + unat q - unat dst" by (simp add: unat_sub_if')
    then show ?thesis using False assms(1) by simp
  qed
  then show "memmove m dst src n q =
      (if unat dst \<le> unat q \<and> unat q < unat dst + unat n then m (src + (q - dst)) else m q)"
    unfolding memmove_def arch_memmove_moved [OF assms] moved_def by simp
qed

theorem memmove_copies_witness:
  "map (memmove (\<lambda>a. ucast a) 12 10 7) [11, 12, 13, 18, 19] = [11, 10, 11, 16, 19] \<and>
   map (memmove (\<lambda>a. ucast a) 10 12 7) [9, 10, 11, 16, 17] = [9, 12, 13, 18, 17]"
  using memmove_copies [of 12 7 10 "\<lambda>a. ucast a"] memmove_copies [of 10 7 12 "\<lambda>a. ucast a"] by simp

text \<open>C26: on terminated strings \<open>strcmp\<close> returns: 0 exactly for equal strings, and otherwise -1 or 1, the sign of the
  difference of the first bytes that differ, read as unsigned, with 0 behind the end of the shorter string;
  \<open>strncmp\<close> returns that difference itself, of the prefixes.\<close>

theorem strcmp_compares:
  assumes "cstr m s1 xs" and "cstr m s2 ys"
  shows "\<exists>r. strcmp m s1 s2 = Some r \<and> sint r = sgn (str_diff xs ys) \<and> (r = 0 \<longleftrightarrow> xs = ys)
    \<and> strncmp m s1 s2 n = str_diff (take (unat n) xs) (take (unat n) ys)"
proof -
  have nz: "0 \<notin> set xs" "0 \<notin> set ys" using assms cstr_nonzero by blast+
  have "str_order xs ys = 0 \<longleftrightarrow> sint (str_order xs ys) = 0" by (metis signed_0 signed_word_eqI)
  also have "\<dots> \<longleftrightarrow> xs = ys" using str_order_sgn [OF nz] str_diff_0 [OF nz] by (simp add: sgn_0_0)
  finally show ?thesis
    using arch_strcmp_cstr [OF assms] str_order_sgn [OF nz] strncmp_loop_cstr [OF assms, of "unat n"]
    by (simp add: strcmp_def strncmp_def)
qed

theorem strcmp_compares_witness:
  "\<exists>r. strcmp (\<lambda>a. if a = 1 then 65 else if a = 4 then 67 else 0) 1 4 = Some r \<and> sint r = -1
   \<and> strncmp (\<lambda>a. if a = 1 then 65 else if a = 4 then 67 else 0) 1 4 1 = -2"
  using strcmp_compares [of "\<lambda>a. if a = 1 then 65 else if a = 4 then 67 else 0" 1 "[65]" 4 "[67]" 1]
  by (auto simp: byte_diff_def)

text \<open>C27: \<open>strcat\<close> returns and leaves the concatenation at the destination, when the room it needs does not overlap
  the source and is not larger than the address space; bytes outside the result keep their values.\<close>

theorem strcat_appends:
  assumes x: "cstr m dst xs" and y: "cstr m src ys" and n: "length xs + length ys < 2 ^ 32"
    and dj: "bytes_at dst (Suc (length xs + length ys)) \<inter> bytes_at src (Suc (length ys)) = {}"
  shows "\<exists>m'. strcat m dst src = Some m' \<and> cstr m' dst (xs @ ys)
      \<and> (\<forall>q. q \<notin> bytes_at dst (Suc (length xs + length ys)) \<longrightarrow> m' q = m q)"
proof -
  let ?d = "dst + of_nat (length xs)" and ?n = "Suc (length ys)"
  have sub: "bytes_at ?d ?n \<subseteq> bytes_at dst (Suc (length xs + length ys))" by (rule bytes_at_shift) simp
  then obtain m' where m': "arch_strcpy m ?d src = Some m'" "cstr m' ?d ys" "\<forall>q. q \<notin> bytes_at ?d ?n \<longrightarrow> m' q = m q"
    using arch_strcpy_cstr [OF y, of ?d] dj by blast
  have keep: "m' (dst + of_nat i) = m (dst + of_nat i)" if i: "i < length xs" for i
  proof -
    have "unat (dst + of_nat i - dst) = i" using i n by (simp add: unat_of_nat_u32)
    then have "\<not> unat (dst + of_nat i - ?d) < ?n" using dist_step [of "length xs" ?n "dst + of_nat i" dst] i n by simp
    moreover have "?n \<le> 2 ^ 32" using n by simp
    ultimately show ?thesis using m'(3) bytes_at_iff by blast
  qed
  have "\<forall>i < length xs. m (dst + of_nat i) = xs ! i \<and> xs ! i \<noteq> 0" using x unfolding cstr_nth by blast
  then have "cstr m' dst (xs @ ys)" using m'(2) keep unfolding cstr_append by simp
  moreover have "strcat m dst src = Some m'" using m'(1) strlen_cstr [OF x] by (simp add: strcat_def strcpy_def)
  ultimately show ?thesis using m'(3) sub by blast
qed

theorem strcat_appends_witness:
  "\<exists>m'. strcat (\<lambda>a. if a = 0 then 65 else if a = 8 then 66 else 0) 0 8 = Some m' \<and> cstr m' 0 [65, 66]"
proof -
  have "bytes_at 0 (Suc (Suc (Suc 0))) \<inter> bytes_at 8 (Suc (Suc 0)) = {}" by (simp add: bytes_at_Suc bytes_at_0)
  then show ?thesis
    using strcat_appends [of "\<lambda>a. if a = 0 then 65 else if a = 8 then 66 else 0" 0 "[65]" 8 "[66]"] by auto
qed

end
