(* ===== verification/Printf.thy ===== *)
theory Printf
  imports Cstring
begin

text \<open>
  Formatted output, \<open>libs/printfmt.c\<close>. A format is a string constant, the list of its bytes before the terminating
  zero; the variadic arguments are the 32-bit slots of an i386 \<open>va_list\<close>, a \<open>long long\<close> taking two of them. The
  callback \<open>putch\<close> is a function on a state of its own, and \<open>rd\<close> gives the memory in a state, so that a \<open>%s\<close> reads each
  character after the ones before it were put. \<open>None\<close> stands for a call that does not return properly: endless
  recursion or scan, a read past the arguments or outside a table.
\<close>

section \<open>Numbers\<close>

text \<open>The literal \<open>"0123456789abcdef"\<close> indexed by a digit; its index 16 is the terminating zero.\<close>

definition xdigit :: "nat \<Rightarrow> u8 option" where
  "xdigit d = (if d < 10 then Some (of_nat (48 + d)) else if d < 16 then Some (of_nat (87 + d))
               else if d = 16 then Some 0 else None)"

text \<open>The macro \<open>do_div\<close> of \<open>libs/x86.h\<close>: a 64-bit by 32-bit division from two 32-bit ones. \<open>divl\<close>
  faults when the divisor is 0 or the quotient does not fit into 32 bits.\<close>

definition divl :: "nat \<Rightarrow> nat \<Rightarrow> nat \<Rightarrow> (nat \<times> nat) option" where
  "divl upper low base =
     (let n = upper * 2 ^ 32 + low
      in if base = 0 \<or> 2 ^ 32 \<le> n div base then None else Some (n div base, n mod base))"

definition do_div :: "nat \<Rightarrow> nat \<Rightarrow> (nat \<times> nat) option" where
  "do_div n base =
     (let low = n mod 2 ^ 32; high = n div 2 ^ 32 in
      if high \<noteq> 0 \<and> base = 0 then None
      else let upper = (if high \<noteq> 0 then high mod base else high);
               high' = (if high \<noteq> 0 then high div base else high)
           in map_option (\<lambda>(q, md). (high' * 2 ^ 32 + q, md)) (divl upper low base))"

partial_function (option) printnum :: "nat \<Rightarrow> nat \<Rightarrow> int \<Rightarrow> u8 \<Rightarrow> u8 list option" where
  "printnum num base width padc =
     Option.bind (do_div num base) (\<lambda>(result, md).
      Option.bind
        (if base \<le> num then printnum result base (width - 1) padc
         else Some (replicate (nat (width - 1)) padc))
        (\<lambda>pre. map_option (\<lambda>d. pre @ [d]) (xdigit md)))"

section \<open>Arguments\<close>

fun va_arg32 :: "u32 list \<Rightarrow> (u32 \<times> u32 list) option" where
  "va_arg32 [] = None"
| "va_arg32 (a # ap) = Some (a, ap)"

fun va_arg64 :: "u32 list \<Rightarrow> (u64 \<times> u32 list) option" where
  "va_arg64 (lo # hi # ap) = Some (ucast lo + push_bit 32 (ucast hi), ap)"
| "va_arg64 ap = None"

definition getuint :: "u32 list \<Rightarrow> nat \<Rightarrow> (u64 \<times> u32 list) option" where
  "getuint ap lflag =
     (if 2 \<le> lflag then va_arg64 ap else map_option (\<lambda>(a, ap'). (ucast a, ap')) (va_arg32 ap))"

definition getint :: "u32 list \<Rightarrow> nat \<Rightarrow> (u64 \<times> u32 list) option" where
  "getint ap lflag =
     (if 2 \<le> lflag then va_arg64 ap else map_option (\<lambda>(a, ap'). (scast a, ap')) (va_arg32 ap))"

section \<open>Escape sequences\<close>

record fmtspec =
  padc :: u8
  width :: int
  precision :: int
  lflag :: nat
  altflag :: bool

definition fmtspec0 :: fmtspec where
  "fmtspec0 = \<lparr>padc = 32, width = -1, precision = -1, lflag = 0, altflag = False\<rparr>"

text \<open>The digits of a width field: the loop of case \<open>'1' ... '9'\<close> with the character read so far.\<close>

fun width_field :: "int \<Rightarrow> u8 list \<Rightarrow> int \<times> u8 list" where
  "width_field acc [] = (acc, [])"
| "width_field acc (ch # fmt) =
     (if ch < 48 \<or> 57 < ch then (acc, ch # fmt) else width_field (acc * 10 + int (unat ch) - 48) fmt)"

lemma width_field_length: "length (snd (width_field acc fmt)) \<le> length fmt"
  by (induction acc fmt rule: width_field.induct) auto

definition process_precision :: "fmtspec \<Rightarrow> int \<Rightarrow> fmtspec" where
  "process_precision sp p =
     (if width sp < 0 then sp\<lparr>width := p, precision := -1\<rparr> else sp\<lparr>precision := p\<rparr>)"

text \<open>The \<open>reswitch\<close> part: flags, width and precision up to the conversion character, which is
  0 at the end of the format.\<close>

function reswitch :: "u8 list \<Rightarrow> fmtspec \<Rightarrow> u32 list \<Rightarrow> (u8 \<times> fmtspec \<times> u8 list \<times> u32 list) option" where
  "reswitch [] sp ap = Some (0, sp, [], ap)"
| "reswitch (ch # fmt) sp ap =
     (if ch = 45 then reswitch fmt (sp\<lparr>padc := 45\<rparr>) ap
      else if ch = 48 then reswitch fmt (sp\<lparr>padc := 48\<rparr>) ap
      else if 49 \<le> ch \<and> ch \<le> 57 then
        (let (p, fmt') = width_field (int (unat ch) - 48) fmt
         in reswitch fmt' (process_precision sp p) ap)
      else if ch = 42 then
        (case va_arg32 ap of None \<Rightarrow> None
         | Some (a, ap') \<Rightarrow> reswitch fmt (process_precision sp (sint a)) ap')
      else if ch = 46 then reswitch fmt (if width sp < 0 then sp\<lparr>width := 0\<rparr> else sp) ap
      else if ch = 35 then reswitch fmt (sp\<lparr>altflag := True\<rparr>) ap
      else if ch = 108 then reswitch fmt (sp\<lparr>lflag := lflag sp + 1\<rparr>) ap
      else Some (ch, sp, fmt, ap))"
  by pat_completeness auto
termination
proof (relation "measure (\<lambda>(fmt, sp, ap). length fmt)", goal_cases)
  case (4 ch fmt sp ap x p fmt')
  then show ?case
    using width_field_length [of "int (unat ch) - 48" fmt]
    by (auto simp: less_Suc_eq_le prod_eq_iff)
qed auto

section \<open>Conversions\<close>

text \<open>The table \<open>error_string\<close>; entries without an initialiser are NULL.\<close>

definition error_string :: "nat \<Rightarrow> string option" where
  "error_string e = map_of
     [(1, ''unspecified error''), (2, ''bad process''), (3, ''invalid parameter''),
      (4, ''out of memory''), (5, ''out of processes''), (6, ''segmentation fault''),
      (8, ''invalid elf file''), (9, ''process is killed''), (10, ''panic failure''),
      (13, ''no such device''), (14, ''device not available''), (15, ''device/file is busy''),
      (16, ''no such file or directory''), (17, ''is a directory''), (18, ''not a directory''),
      (19, ''cross device link''), (20, ''unimplemented feature''), (21, ''illegal seek''),
      (22, ''too many files are open''), (23, ''file or directory already exists''),
      (24, ''directory is not empty'')] e"

definition MAXERROR :: int where "MAXERROR = 24"

definition bytes :: "string \<Rightarrow> u8 list" where
  "bytes s = map chr s"

text \<open>The printing loop of \<open>%s\<close>: the width left and the state afterwards.\<close>

partial_function (option) str_loop ::
  "('s \<Rightarrow> mem) \<Rightarrow> (u8 \<Rightarrow> 's \<Rightarrow> 's) \<Rightarrow> u32 \<Rightarrow> bool \<Rightarrow> int \<Rightarrow> int \<Rightarrow> 's \<Rightarrow> (int \<times> 's) option" where
  "str_loop rd putch p alt prec w s =
     (let ch = rd s p in
      if ch \<noteq> 0 \<and> (prec < 0 \<or> 0 \<le> prec - 1)
      then str_loop rd putch (p + 1) alt (if prec < 0 then prec else prec - 1) (w - 1)
             (putch (if alt \<and> (ch < 32 \<or> 126 < ch) then 63 else ch) s)
      else Some (w, s))"

text \<open>\<open>strnlen\<close> gets the precision as a \<open>size_t\<close>, and its result is subtracted in unsigned arithmetic.\<close>

definition fmt_str :: "('s \<Rightarrow> mem) \<Rightarrow> (u8 \<Rightarrow> 's \<Rightarrow> 's) \<Rightarrow> u32 \<Rightarrow> fmtspec \<Rightarrow> 's \<Rightarrow> 's option" where
  "fmt_str rd putch p sp s =
     (let w = (if 0 < width sp \<and> padc sp \<noteq> 45
               then sint (word_of_int (width sp) - strnlen (rd s) p (word_of_int (precision sp))) else width sp);
          (w1, s1) = (if 0 < width sp \<and> padc sp \<noteq> 45 then (min 0 w, fold putch (replicate (nat w) (padc sp)) s) else (w, s))
      in Option.bind (str_loop rd putch p (altflag sp) (precision sp) w1 s1) (\<lambda>(w2, s2).
           Some (fold putch (replicate (nat w2) 32) s2)))"

text \<open>A string literal as a memory with the literal at address 0.\<close>

definition lit :: "u8 list \<Rightarrow> mem" where
  "lit xs = (\<lambda>a. if unat a < length xs then xs ! unat a else 0)"

definition fmt_num :: "u64 \<Rightarrow> nat \<Rightarrow> fmtspec \<Rightarrow> u8 list option" where
  "fmt_num num base sp = printnum (unat num) base (width sp) (padc sp)"

definition fmt_dec :: "u64 \<Rightarrow> fmtspec \<Rightarrow> u8 list option" where
  "fmt_dec num sp =
     (if sint num < 0 then map_option ((#) 45) (fmt_num (- num) 10 sp) else fmt_num num 10 sp)"

text \<open>\<open>%e\<close>: the nested calls of \<open>printfmt\<close> with \<open>"error %d"\<close> and \<open>"%s"\<close> start from a fresh
  specification. Negating the least \<open>int\<close> leaves it negative, and the table is read out of bounds.\<close>

definition fmt_err :: "(u8 \<Rightarrow> 's \<Rightarrow> 's) \<Rightarrow> u32 \<Rightarrow> 's \<Rightarrow> 's option" where
  "fmt_err putch a s =
     (let err = (if sint a < 0 then - a else a);
          other = map_option (\<lambda>out. fold putch (bytes ''error '' @ out) s) (fmt_dec (scast err) fmtspec0)
      in if MAXERROR < sint err then other
         else if sint err < 0 then None
         else case error_string (nat (sint err)) of
                None \<Rightarrow> other
              | Some str \<Rightarrow> fmt_str (\<lambda>_. lit (bytes str)) putch 0 fmtspec0 s)"

definition conversions :: "u8 list" where
  "conversions = bytes ''cesduopx%''"

definition convert ::
  "('s \<Rightarrow> mem) \<Rightarrow> (u8 \<Rightarrow> 's \<Rightarrow> 's) \<Rightarrow> u8 \<Rightarrow> fmtspec \<Rightarrow> u32 list \<Rightarrow> 's \<Rightarrow> ('s \<times> u32 list) option" where
  "convert rd putch ch sp ap s =
     (let number = (\<lambda>pre num base ap'. map_option (\<lambda>out. (fold putch (pre @ out) s, ap')) (fmt_num num base sp)) in
      if ch = chr CHR ''c'' then map_option (\<lambda>(a, ap'). (putch (ucast a) s, ap')) (va_arg32 ap)
      else if ch = chr CHR ''e'' then
        Option.bind (va_arg32 ap) (\<lambda>(a, ap'). map_option (\<lambda>s'. (s', ap')) (fmt_err putch a s))
      else if ch = chr CHR ''s'' then
        Option.bind (va_arg32 ap) (\<lambda>(a, ap').
          map_option (\<lambda>s'. (s', ap'))
            (if a = 0 then fmt_str (\<lambda>_. lit (bytes ''(null)'')) putch 0 sp s else fmt_str rd putch a sp s))
      else if ch = chr CHR ''d'' then
        Option.bind (getint ap (lflag sp)) (\<lambda>(n, ap'). map_option (\<lambda>out. (fold putch out s, ap')) (fmt_dec n sp))
      else if ch = chr CHR ''u'' then Option.bind (getuint ap (lflag sp)) (\<lambda>(n, ap'). number [] n 10 ap')
      else if ch = chr CHR ''o'' then Option.bind (getuint ap (lflag sp)) (\<lambda>(n, ap'). number [] n 8 ap')
      else if ch = chr CHR ''p'' then Option.bind (va_arg32 ap) (\<lambda>(a, ap'). number (bytes ''0x'') (ucast a) 16 ap')
      else if ch = chr CHR ''x'' then Option.bind (getuint ap (lflag sp)) (\<lambda>(n, ap'). number [] n 16 ap')
      else Some (putch ch s, ap))"

section \<open>The format loop\<close>

lemma reswitch_length: "reswitch fmt sp ap = Some (ch, sp', rest, ap') \<Longrightarrow> length rest \<le> length fmt"
proof (induction "length fmt" arbitrary: fmt sp ap rule: less_induct)
  case less
  show ?case
  proof (cases fmt)
    case Nil
    then show ?thesis using less.prems by simp
  next
    case (Cons c fmt1)
    obtain p fmt2 where wf: "width_field (int (unat c) - 48) fmt1 = (p, fmt2)" by (metis surj_pair)
    then have le: "length fmt2 \<le> length fmt1"
      using width_field_length [of "int (unat c) - 48" fmt1] by simp
    have IH: "length rest \<le> Suc (length fmt1)"
      if "length f \<le> length fmt1" "reswitch f sp'' ap'' = Some (ch, sp', rest, ap')" for f sp'' ap''
      using less.hyps [of f sp'' ap''] that Cons by fastforce
    show ?thesis
      using less.prems IH [OF le] IH [OF order_refl] unfolding Cons reswitch.simps(2) wf
      by (simp split: if_splits option.splits prod.splits)
  qed
qed

text \<open>An unknown conversion prints the percent sign and continues right behind it; arguments taken by
  a star stay taken.\<close>

function vprintfmt :: "('s \<Rightarrow> mem) \<Rightarrow> (u8 \<Rightarrow> 's \<Rightarrow> 's) \<Rightarrow> u8 list \<Rightarrow> u32 list \<Rightarrow> 's \<Rightarrow> 's option" where
  "vprintfmt rd putch [] ap s = Some s"
| "vprintfmt rd putch (ch # fmt) ap s =
     (if ch \<noteq> chr CHR ''%'' then vprintfmt rd putch fmt ap (putch ch s)
      else case reswitch fmt fmtspec0 ap of
             None \<Rightarrow> None
           | Some (c, sp, rest, ap1) \<Rightarrow>
               if c \<in> set conversions then
                 (case convert rd putch c sp ap1 s of
                    None \<Rightarrow> None
                  | Some (s', ap2) \<Rightarrow> vprintfmt rd putch rest ap2 s')
               else vprintfmt rd putch fmt ap1 (putch ch s))"
  by pat_completeness auto
termination
  by (relation "measure (\<lambda>(rd, putch, fmt, ap, s). length fmt)")
     (auto dest!: reswitch_length simp: less_Suc_eq_le)

section \<open>Printing into a buffer\<close>

record sprintbuf =
  buf :: u32
  ebuf :: u32
  cnt :: u32

definition sprintputch :: "u8 \<Rightarrow> mem \<times> sprintbuf \<Rightarrow> mem \<times> sprintbuf" where
  "sprintputch ch mb = (case mb of (m, b) \<Rightarrow>
     let b' = b\<lparr>cnt := cnt b + 1\<rparr>
     in if buf b' < ebuf b' then (m(buf b' := ch), b'\<lparr>buf := buf b' + 1\<rparr>) else (m, b'))"

text \<open>The end of the buffer is computed on 32-bit pointers; the result is the error or the number of characters.\<close>

definition vsnprintf :: "mem \<Rightarrow> u32 \<Rightarrow> u32 \<Rightarrow> u8 list \<Rightarrow> u32 list \<Rightarrow> (mem \<times> (errno + u32)) option" where
  "vsnprintf m str sz fmt ap =
     (let b = \<lparr>buf = str, ebuf = str + sz - 1, cnt = 0\<rparr>
      in if str = 0 \<or> ebuf b < buf b then Some (m, Inl E_INVAL)
         else map_option (\<lambda>(m', b'). (m'(buf b' := 0), Inr (cnt b'))) (vprintfmt fst sprintputch fmt ap (m, b)))"

definition snprintf :: "mem \<Rightarrow> u32 \<Rightarrow> u32 \<Rightarrow> u8 list \<Rightarrow> u32 list \<Rightarrow> (mem \<times> (errno + u32)) option" where
  "snprintf m str sz fmt args = vsnprintf m str sz fmt args"

section \<open>Division and digits\<close>

lemma long_division:
  fixes h l base K :: nat
  assumes b: "0 < base" and l: "l < K"
  shows "(h * K + l) div base = h div base * K + (h mod base * K + l) div base"
    and "(h * K + l) mod base = (h mod base * K + l) mod base"
    and "(h mod base * K + l) div base < K"
proof -
  have "h * K = (base * (h div base) + h mod base) * K" by simp
  also have "\<dots> = base * (h div base * K) + h mod base * K" by (simp only: add_mult_distrib mult.assoc)
  finally have split: "h * K + l = base * (h div base * K) + (h mod base * K + l)" by simp
  show "(h * K + l) div base = h div base * K + (h mod base * K + l) div base"
    unfolding split using b by (subst div_mult_self4) auto
  show "(h * K + l) mod base = (h mod base * K + l) mod base"
    unfolding split by (rule mod_mult_self4)
  have "(h mod base + 1) * K \<le> base * K" using b by (intro mult_le_mono1) (simp add: Suc_leI)
  then have "h mod base * K + l < K * base" using l by (simp add: mult.commute)
  then show "(h mod base * K + l) div base < K" by (rule less_mult_imp_div_less)
qed

lemma do_div_correct:
  assumes b: "0 < base"
  shows "do_div n base = Some (n div base, n mod base)"
proof -
  define h l where "h = n div 2 ^ 32" and "l = n mod (2 ^ 32 :: nat)"
  have n: "n = h * 2 ^ 32 + l" by (simp add: h_def l_def)
  have l: "l < 2 ^ 32" by (simp add: l_def)
  note d = long_division [OF b l, of h]
  show ?thesis
    unfolding do_div_def divl_def Let_def h_def [symmetric] l_def [symmetric] using b d l
    by (auto simp: n del: mult_numeral_1_right power_numeral)
qed

lemma xdigit_digit_of:
  assumes "d < base" and "base \<le> 16"
  shows "\<exists>c. xdigit d = Some c \<and> digit_of c = Some (int d) \<and> c \<noteq> 0 \<and> is_digit (int base) c"
proof -
  have "list_all (\<lambda>d. case xdigit d of None \<Rightarrow> False | Some c \<Rightarrow> digit_of c = Some (int d) \<and> c \<noteq> 0) [0..<16]"
    by code_simp
  then obtain c where "xdigit d = Some c" "digit_of c = Some (int d)" "c \<noteq> 0"
    using assms by (fastforce simp: list_all_iff split: option.splits)
  then show ?thesis using assms(1) by (auto simp: is_digit_def)
qed

text \<open>\<open>printnum\<close> returns for every base from 2 to 16: padding up to the width, then the digits.\<close>

lemma printnum_digits:
  assumes "2 \<le> base" and "base \<le> 16" and "num < 2 ^ 64"
  shows "\<exists>ds. printnum num base w c = Some (replicate (nat (w - int (length ds))) c @ ds)
      \<and> ds \<noteq> [] \<and> (\<forall>x \<in> set ds. is_digit (int base) x \<and> x \<noteq> 0) \<and> digits_val (int base) 0 ds = int num
      \<and> (\<forall>n. num < base ^ Suc n \<longrightarrow> length ds \<le> Suc n)"
  using assms(3)
proof (induction num arbitrary: w rule: less_induct)
  case (less num)
  have dv: "do_div num base = Some (num div base, num mod base)"
    using do_div_correct assms(1) by simp
  obtain x where x: "xdigit (num mod base) = Some x" "digit_of x = Some (int (num mod base))"
    "x \<noteq> 0" "is_digit (int base) x"
    using xdigit_digit_of [of "num mod base" base] assms(1,2) by auto
  show ?case
  proof (cases "base \<le> num")
    case False
    have "printnum num base w c = Some (replicate (nat (w - int (length [x]))) c @ [x])"
      using False x dv by (subst printnum.simps) simp
    moreover have "digits_val (int base) 0 [x] = int num"
      using x(2) False by (simp add: digits_val_def)
    ultimately show ?thesis using x by (intro exI [of _ "[x]"]) simp
  next
    case True
    have "num div base < num" using assms(1) True by (intro div_less_dividend) auto
    then obtain ds where ds: "printnum (num div base) base (w - 1) c
        = Some (replicate (nat (w - 1 - int (length ds))) c @ ds)"
      "\<forall>x \<in> set ds. is_digit (int base) x \<and> x \<noteq> 0" "digits_val (int base) 0 ds = int (num div base)"
      "\<forall>n. num div base < base ^ Suc n \<longrightarrow> length ds \<le> Suc n"
      using less.IH [of "num div base" "w - 1"] less.prems by auto
    have "length (ds @ [x]) \<le> Suc n" if "num < base ^ Suc n" for n
    proof (cases n)
      case 0
      then show ?thesis using that True by simp
    next
      case (Suc n')
      then have "num div base < base ^ Suc n'" using that by (intro less_mult_imp_div_less) (simp add: mult.commute)
      then show ?thesis using ds(4) Suc by simp
    qed
    moreover have "printnum num base w c = Some (replicate (nat (w - int (length (ds @ [x])))) c @ ds @ [x])"
      using True x dv ds(1) by (subst printnum.simps) (simp add: algebra_simps)
    moreover have "digits_val (int base) 0 (ds @ [x]) = int num"
      using ds(3) x(2) by (simp add: digits_val_def zdiv_int zmod_int)
    ultimately show ?thesis using ds(2) x by (intro exI [of _ "ds @ [x]"]) auto
  qed
qed

text \<open>In base 1 the recursion never reaches a number below the base.\<close>

lemma printnum_base1_Some:
  assumes "printnum num base w c = Some out"
  shows "base = 1 \<Longrightarrow> num = 0"
proof (induction num base w c out rule: printnum.raw_induct)
  case (1 f num base w c out)
  show ?case
  proof (rule ccontr)
    assume "num \<noteq> 0"
    then obtain pre where "f num 1 (w - 1) c = Some pre"
      using 1(2) "1.prems" do_div_correct [of 1 num] by (auto simp: Option.bind_eq_Some_conv)
    from 1(1) [OF this] \<open>num \<noteq> 0\<close> show False by simp
  qed
qed fact

lemma printnum_base1: "0 < num \<Longrightarrow> printnum num 1 w c = None"
  using printnum_base1_Some [of num 1 w c] by (cases "printnum num 1 w c") auto

section \<open>The buffer\<close>

text \<open>What the callback leaves: the characters that fit, the position behind them and the count of all.\<close>

definition put_bytes :: "mem \<Rightarrow> u32 \<Rightarrow> u8 list \<Rightarrow> mem" where
  "put_bytes m p xs = (\<lambda>q. if unat (q - p) < length xs then xs ! unat (q - p) else m q)"

lemma put_bytes_snoc:
  assumes "length xs < 2 ^ 32"
  shows "(put_bytes m p xs)(p + of_nat (length xs) := x) = put_bytes m p (xs @ [x])"
proof
  fix q
  show "((put_bytes m p xs)(p + of_nat (length xs) := x)) q = put_bytes m p (xs @ [x]) q"
  proof (cases "q = p + of_nat (length xs)")
    case True
    then show ?thesis using assms by (simp add: put_bytes_def unat_of_nat_u32)
  next
    case False
    then have "unat (q - p) \<noteq> length xs" using unat_eq_of_nat [OF assms, of "q - p"] by (auto simp: algebra_simps)
    then show ?thesis using False by (simp add: put_bytes_def nth_append less_Suc_eq)
  qed
qed


lemma sprintputch_fold:
  assumes pe: "p \<le> e"
  shows "fold sprintputch out (m, \<lparr>buf = p, ebuf = e, cnt = c\<rparr>) =
     (put_bytes m p (take (unat (e - p)) out),
      \<lparr>buf = p + of_nat (min (unat (e - p)) (length out)), ebuf = e, cnt = c + of_nat (length out)\<rparr>)"
proof (induction out rule: rev_induct)
  case Nil
  show ?case by (auto simp: put_bytes_def fun_eq_iff)
next
  case (snoc x xs)
  have d: "unat (e - p) = unat e - unat p" "unat p \<le> unat e" using pe by (auto simp: unat_sub word_le_nat_alt)
  show ?case
  proof (cases "length xs < unat (e - p)")
    case True
    have "unat (p + of_nat (length xs)) = unat p + length xs"
      using True d unat_u32_less [of e] by (intro no_wrap) linarith
    then have "p + of_nat (length xs) < e" using True d by (simp add: word_less_nat_alt)
    moreover have "length xs < 2 ^ 32" using True unat_u32_less [of "e - p"] by simp
    ultimately show ?thesis
      using snoc True put_bytes_snoc [of xs m p x] by (simp add: sprintputch_def Let_def min_absorb2 algebra_simps)
  next
    case False
    then show ?thesis using snoc by (simp add: sprintputch_def Let_def min_absorb1 algebra_simps)
  qed
qed

lemma buffer_end: "str \<le> str + sz - 1 \<Longrightarrow> str \<noteq> 0 \<Longrightarrow> 0 < unat sz \<and> unat (str + sz - 1 - str) = unat sz - 1"
proof -
  assume le: "str \<le> str + sz - 1" and ne: "str \<noteq> 0"
  have "sz \<noteq> 0"
  proof
    assume "sz = 0"
    then have "unat str \<le> unat (str - 1)" using le by (simp add: word_le_nat_alt)
    moreover have "unat (str - 1) = unat str - 1" "0 < unat str" using ne by (simp_all add: unat_minus_one unat_gt_0)
    ultimately show False by linarith
  qed
  moreover have "str + sz - 1 - str = sz - 1" by simp
  ultimately show ?thesis by (simp add: unat_minus_one unat_gt_0)
qed

lemma vsnprintf_eq:
  assumes "str \<noteq> 0" and le: "str \<le> str + sz - 1"
    and out: "vprintfmt fst sprintputch fmt ap (m, \<lparr>buf = str, ebuf = str + sz - 1, cnt = 0\<rparr>) =
      Some (fold sprintputch out (m, \<lparr>buf = str, ebuf = str + sz - 1, cnt = 0\<rparr>))"
  shows "vsnprintf m str sz fmt ap = Some (put_bytes m str (take (unat sz - 1) out @ [0]), Inr (of_nat (length out)))"
proof -
  note e = buffer_end [OF le assms(1)]
  have "length (take (unat sz - 1) out) < 2 ^ 32" using unat_u32_less [of sz] by simp
  then have "(put_bytes m str (take (unat sz - 1) out))(str + of_nat (length (take (unat sz - 1) out)) := 0)
      = put_bytes m str (take (unat sz - 1) out @ [0])"
    by (rule put_bytes_snoc)
  moreover have "\<not> str + sz - 1 < str" using le by simp
  ultimately show ?thesis
    using assms(1) e sprintputch_fold [OF le, of out m 0] unfolding vsnprintf_def Let_def out
    by (simp add: min.commute)
qed

lemma cstr_put_bytes: "0 \<notin> set xs \<Longrightarrow> length xs < 2 ^ 32 \<Longrightarrow> cstr (put_bytes m p (xs @ [0])) p xs"
proof -
  assume z: "0 \<notin> set xs" and n: "length xs < 2 ^ 32"
  have "unat (of_nat i :: u32) = i" if "i \<le> length xs" for i using that n by (intro unat_of_nat_u32) simp
  then show ?thesis unfolding cstr_nth using z by (auto simp: put_bytes_def nth_append) (metis nth_mem)
qed

section \<open>Reading back what was printed\<close>

lemma digits_val_replicate0:
  "c = 48 \<Longrightarrow> digits_val base 0 (replicate n c @ ds) = digits_val base 0 ds"
  by (induction n) (auto simp: digits_val_def digit_of_def)

lemma strtol_skip_spaces:
  "cstr m s (replicate n 32 @ rest) \<Longrightarrow> rest = [] \<or> hd rest \<noteq> 32 \<and> hd rest \<noteq> 9 \<Longrightarrow>
   strtol_skip m s = Some (s + of_nat n) \<and> cstr m (s + of_nat n) rest"
proof (induction n arbitrary: s)
  case 0
  then have "m s \<noteq> 32 \<and> m s \<noteq> 9" by (cases rest) auto
  then show ?case using 0 by (subst strtol_skip.simps) simp
next
  case (Suc n)
  then have "cstr m (s + 1) (replicate n 32 @ rest)" by simp
  then have "strtol_skip m (s + 1) = Some (s + 1 + of_nat n) \<and> cstr m (s + 1 + of_nat n) rest"
    using Suc.IH Suc.prems(2) by blast
  then show ?case using Suc.prems by (subst strtol_skip.simps) (auto simp: add.assoc)
qed

lemma is_digit_not: "is_digit base c \<Longrightarrow> base \<le> 16 \<Longrightarrow> c \<noteq> 32 \<and> c \<noteq> 9 \<and> c \<noteq> 43 \<and> c \<noteq> 45 \<and> c \<noteq> 120"
  by (auto simp: is_digit_def digit_of_def)

text \<open>Blanks, an optional minus sign and a nonempty list of digits are read as the number.\<close>

lemma strtol_of_digits:
  assumes c: "cstr m s (replicate n 32 @ (if neg then [45] else []) @ ds)" and ne: "ds \<noteq> []"
    and dg: "\<forall>x \<in> set ds. is_digit base x" and b: "1 < base" "base \<le> 16"
  shows "strtol m s base = Some (of_int ((if neg then -1 else 1) * digits_val base 0 ds),
    s + of_nat n + (if neg then 1 else 0) + of_nat (length ds))"
proof -
  obtain d ds' where ds: "ds = d # ds'" using ne by (cases ds) auto
  have d: "d \<noteq> 32 \<and> d \<noteq> 9 \<and> d \<noteq> 43 \<and> d \<noteq> 45 \<and> d \<noteq> 120"
    using dg ds is_digit_not b(2) by auto
  let ?s = "if neg then s + of_nat n + 1 else s + of_nat n"
  have sk: "strtol_skip m s = Some (s + of_nat n)" and sg: "neg \<longrightarrow> m (s + of_nat n) = 45" and cs: "cstr m ?s ds"
    using strtol_skip_spaces [OF c] ds d by auto
  have m0: "m ?s = d" using cs ds by simp
  have "m (?s + 1) \<noteq> 120"
    using cs ds dg is_digit_not [of base 120] b(2) by (cases ds') auto
  moreover have "strtol_digits m ?s base (of_int 0) = Some (of_int (digits_val base 0 ds), ?s + of_nat (length ds))"
    using strtol_digits_cstr [of m ?s ds "[]" base 0] cs dg by auto
  ultimately show ?thesis
    using sk sg m0 d b by (cases neg) (simp_all add: strtol_def)
qed

lemma printnum_pad_digits:
  assumes "2 \<le> base" and "base \<le> 16" and "num < 2 ^ 64" and "c = 32 \<or> c = 48"
  shows "\<exists>n ds. printnum num base w c = Some (replicate n 32 @ ds) \<and> ds \<noteq> []
      \<and> (\<forall>x \<in> set ds. is_digit (int base) x) \<and> 0 \<notin> set (replicate n 32 @ ds)
      \<and> digits_val (int base) 0 ds = int num"
proof -
  obtain ds where ds: "printnum num base w c = Some (replicate (nat (w - int (length ds))) c @ ds)"
    "ds \<noteq> []" "\<forall>x \<in> set ds. is_digit (int base) x \<and> x \<noteq> 0" "digits_val (int base) 0 ds = int num"
    using printnum_digits [OF assms(1-3)] by blast
  let ?k = "nat (w - int (length ds))"
  show ?thesis
  proof (cases "c = 32")
    case True
    then show ?thesis using ds by (intro exI [of _ ?k] exI [of _ ds]) auto
  next
    case False
    then have c: "c = 48" using assms(4) by simp
    have "is_digit (int base) 48" using assms(1) by (simp add: is_digit_def digit_of_def)
    then show ?thesis using ds c digits_val_replicate0 [OF c]
      by (intro exI [of _ 0] exI [of _ "replicate ?k 48 @ ds"]) auto
  qed
qed

text \<open>C28: \<open>printnum\<close> returns for every 64-bit number and every base from 2 to 16, and \<open>strtol\<close> in the same base reads
  its output, padded with blanks or zeros to any width, to the end. What it returns are the low 32 bits of the
  number, since its \<open>long\<close> has 32 bits and overflow is not detected; for a number below 2 to the 31 that is
  the number itself.\<close>

theorem printnum_strtol_roundtrip:
  assumes "2 \<le> base" and "base \<le> 16" and "num < 2 ^ 64" and "pad = 32 \<or> pad = 48"
  shows "\<exists>out. printnum num base w pad = Some out \<and>
      (\<forall>m s. cstr m s out \<longrightarrow> (\<exists>v. strtol m s (int base) = Some (v, s + of_nat (length out)) \<and>
         unat v = num mod 2 ^ 32 \<and> (num < 2 ^ 31 \<longrightarrow> sint v = int num)))"
proof -
  obtain n ds where p: "printnum num base w pad = Some (replicate n 32 @ ds)" "ds \<noteq> []"
    "\<forall>x \<in> set ds. is_digit (int base) x" "digits_val (int base) 0 ds = int num"
    using printnum_pad_digits [OF assms] by blast
  let ?v = "of_nat num :: u32"
  have r: "strtol m s (int base) = Some (?v, s + of_nat (length (replicate n 32 @ ds)))"
    if "cstr m s (replicate n 32 @ ds)" for m s
    using strtol_of_digits [of m s n False ds "int base"] that p assms(1,2) by (auto simp: add.assoc)
  have u: "unat ?v = num mod 2 ^ 32" by (simp add: unsigned_of_nat take_bit_nat_def)
  have "sint ?v = int num" if "num < 2 ^ 31"
  proof -
    have "unat ?v = num" using u that by simp
    moreover have "sint ?v = int (unat ?v)" using calculation that by (intro sint_small) simp
    ultimately show ?thesis by simp
  qed
  then show ?thesis using p(1) r u by blast
qed

theorem printnum_strtol_roundtrip_witness:
  "\<exists>out. printnum 255 16 4 48 = Some out \<and> out = map chr ''00ff''
     \<and> (\<exists>v. strtol (put_bytes (\<lambda>_. 0) 7 (out @ [0])) 7 16 = Some (v, 11) \<and> sint v = 255)"
proof -
  obtain out where o: "printnum 255 16 4 48 = Some out"
    "\<forall>m s. cstr m s out \<longrightarrow> (\<exists>v. strtol m s 16 = Some (v, s + of_nat (length out)) \<and> sint v = 255)"
    using printnum_strtol_roundtrip [of 16 255 48 4] by fastforce
  have "printnum 15 16 3 48 = Some (map chr ''00f'')"
    by (subst printnum.simps) (simp add: do_div_correct xdigit_def chr_def numeral_2_eq_2)
  then have "printnum 255 16 4 48 = Some (map chr ''00ff'')"
    by (subst printnum.simps) (simp add: do_div_correct xdigit_def chr_def)
  then have out: "out = map chr ''00ff''" using o(1) by simp
  have "cstr (put_bytes (\<lambda>_. 0) 7 (out @ [0])) 7 out"
    by (rule cstr_put_bytes) (simp_all add: out chr_def)
  then obtain v where "strtol (put_bytes (\<lambda>_. 0) 7 (out @ [0])) 7 16 = Some (v, 7 + of_nat (length out))" "sint v = 255"
    using o(2) by blast
  then show ?thesis using o(1) out by auto
qed

lemma sint_bounds_u32: "- 2147483648 \<le> sint (x :: u32)" "sint x < 2147483648"
  using sint_greater_eq [of x] sint_less [of x] by simp_all

lemma sint_scast_u64: "sint (scast (x :: u32) :: u64) = sint x"
  by (rule sint_up_scast) (simp add: is_up)

lemma unat_abs_scast:
  "int (unat (if sint (x :: u32) < 0 then - scast x else scast x :: u64)) = \<bar>sint x\<bar>"
proof -
  have eq: "(if sint x < 0 then - scast x else scast x :: u64) = word_of_int \<bar>sint x\<bar>"
    by (simp only: scast_eq wi_hom_neg abs_if split: if_split) simp
  have "\<bar>sint x\<bar> \<le> 2147483648" using sint_bounds_u32 [of x] by linarith
  also have "(2147483648 :: int) < 2 ^ 64" by simp
  finally have tb: "take_bit 64 \<bar>sint x\<bar> = \<bar>sint x\<bar>"
    by (intro take_bit_int_eq_self) simp_all
  have "int (unat (word_of_int \<bar>sint x\<bar> :: u64)) = \<bar>sint x\<bar>"
    using tb by (simp only: uint_word_of_int_eq int_nat_eq unsigned_of_int of_nat_nat) simp
  then show ?thesis unfolding eq .
qed

lemma convert_d:
  "convert rd putch (chr CHR ''d'') fmtspec0 (x # ap) s = map_option (\<lambda>out. (fold putch out s, ap)) (fmt_dec (scast x) fmtspec0)"
  by (simp add: convert_def chr_def getint_def fmtspec0_def)

lemma vprintfmt_d: "vprintfmt rd putch (map chr ''%d'') [x] s = map_option (\<lambda>out. fold putch out s) (fmt_dec (scast x) fmtspec0)"
proof -
  have rs: "reswitch [chr CHR ''d''] fmtspec0 [x] = Some (chr CHR ''d'', fmtspec0, [], [x])"
    by (simp add: chr_def)
  have d: "chr CHR ''d'' \<in> set conversions" by (simp add: conversions_def bytes_def)
  have "vprintfmt rd putch (map chr ''%d'') [x] s =
      (case convert rd putch (chr CHR ''d'') fmtspec0 [x] s of None \<Rightarrow> None
       | Some (s', ap2) \<Rightarrow> vprintfmt rd putch [] ap2 s')"
    unfolding list.map vprintfmt.simps(2) rs by (simp add: d)
  then show ?thesis by (simp add: convert_d split: option.split)
qed

lemma fmt_dec_digits:
  "\<exists>ds. fmt_dec (scast (x :: u32)) fmtspec0 = Some ((if sint x < 0 then [45] else []) @ ds)
     \<and> ds \<noteq> [] \<and> (\<forall>c \<in> set ds. is_digit 10 c \<and> c \<noteq> 0) \<and> digits_val 10 0 ds = \<bar>sint x\<bar> \<and> length ds \<le> 10"
proof -
  let ?w = "if sint x < 0 then - scast x else scast x :: u64"
  obtain ds where p: "printnum (unat ?w) 10 (-1) 32 = Some ds" "ds \<noteq> []"
    "\<forall>c \<in> set ds. is_digit 10 c \<and> c \<noteq> 0" "digits_val 10 0 ds = int (unat ?w)"
    "\<forall>n. unat ?w < 10 ^ Suc n \<longrightarrow> length ds \<le> Suc n"
    using printnum_digits [of 10 "unat ?w" "-1" 32] unsigned_less [of ?w] by auto
  have a: "digits_val 10 0 ds = \<bar>sint x\<bar>" using p(4) unat_abs_scast by simp
  define n where "n = unat ?w"
  have "int n = \<bar>sint x\<bar>" unfolding n_def by (rule unat_abs_scast)
  then have "n < 10 ^ Suc 9" using sint_bounds_u32 [of x] by simp
  then have "length ds \<le> 10" using p(5) [rule_format, of 9] unfolding n_def by simp
  moreover have "fmt_dec (scast x) fmtspec0 = Some ((if sint x < 0 then [45] else []) @ ds)"
    using p(1) by (auto simp: fmt_dec_def fmt_num_def fmtspec0_def sint_scast_u64 split: if_splits)
  ultimately show ?thesis using a p(2,3) by blast
qed

text \<open>C29: for every \<open>int\<close> and every buffer that does not run over the end of the address space, \<open>snprintf\<close> with
  \<open>"%d"\<close> returns the number of characters, at most 11, and when they fit into the buffer \<open>strtol\<close> in base 10 reads
  the number back from it.\<close>

theorem snprintf_d_strtol:
  assumes str: "str \<noteq> 0" and sz: "str \<le> str + sz - 1"
  shows "\<exists>m' k. snprintf m str sz (map chr ''%d'') [x] = Some (m', Inr k) \<and> k \<le> 11
      \<and> (k < sz \<longrightarrow> strtol m' str 10 = Some (x, str + k))"
proof -
  let ?sg = "if sint x < 0 then [45] else [] :: u8 list"
  obtain ds where ds: "fmt_dec (scast x) fmtspec0 = Some (?sg @ ds)" "ds \<noteq> []"
    "\<forall>c \<in> set ds. is_digit 10 c \<and> c \<noteq> 0" "digits_val 10 0 ds = \<bar>sint x\<bar>" "length ds \<le> 10"
    using fmt_dec_digits by blast
  let ?m = "put_bytes m str (take (unat sz - 1) (?sg @ ds) @ [0])" and ?k = "of_nat (length (?sg @ ds)) :: u32"
  have lk: "length (?sg @ ds) \<le> 11" using ds(5) by auto
  then have uk: "unat ?k = length (?sg @ ds)" by (intro unat_of_nat_u32) simp
  have "snprintf m str sz (map chr ''%d'') [x] = Some (?m, Inr ?k)"
    unfolding snprintf_def by (rule vsnprintf_eq [OF str sz]) (simp only: vprintfmt_d ds(1) option.map)
  moreover have "strtol ?m str 10 = Some (x, str + ?k)" if "?k < sz"
  proof -
    have "length (?sg @ ds) \<le> unat sz - 1" using that uk by (simp add: word_less_nat_alt)
    moreover have "cstr (put_bytes m str ((?sg @ ds) @ [0])) str (?sg @ ds)"
      by (rule cstr_put_bytes) (use ds(3) lk in auto)
    ultimately have "cstr ?m str (replicate 0 32 @ ?sg @ ds)" by simp
    from strtol_of_digits [OF this ds(2)] ds(3,4) show ?thesis by (auto simp: abs_if add.assoc)
  qed
  moreover have "?k \<le> 11" using lk uk by (simp add: word_le_nat_alt)
  ultimately show ?thesis by blast
qed

theorem snprintf_d_strtol_witness:
  "\<exists>m' k. snprintf (\<lambda>_. 0) 100 20 (map chr ''%d'') [-7] = Some (m', Inr k) \<and> strtol m' 100 10 = Some (-7, 100 + k)"
proof -
  obtain m' k where mk: "snprintf (\<lambda>_. 0) 100 20 (map chr ''%d'') [-7] = Some (m', Inr k)" "k \<le> 11"
    "k < 20 \<longrightarrow> strtol m' 100 10 = Some (-7, 100 + k)"
    using snprintf_d_strtol [of 100 20 "\<lambda>_. 0" "-7"] by auto
  have "k < 20" using mk(2) by (rule order.strict_trans1) simp
  then show ?thesis using mk(1,3) by blast
qed

section \<open>What formatting reads and writes\<close>




























end
