(* ===== verification/Skew_Heap.thy ===== *)
theory Skew_Heap
  imports Prelude "HOL-Library.Tree_Multiset"
begin

text \<open>
  The intrusive skew heap of \<open>libs/skew_heap.h\<close>: three pointer fields per entry and the writes of
  the C code. \<open>sh_rep\<close> relates the pointers to trees; merging, inserting and removing are shown to
  return and to be the tree operations, which keep the multiset of entries and, where the comparison
  is a linear preorder on the entries, the heap order.
\<close>

section \<open>The operations of skew\_heap.h\<close>

record 'a sheap =
  parent :: "'a \<Rightarrow> 'a option"
  left :: "'a \<Rightarrow> 'a option"
  right :: "'a \<Rightarrow> 'a option"

definition skew_heap_init :: "'a sheap \<Rightarrow> 'a \<Rightarrow> 'a sheap" where
  "skew_heap_init h a = h\<lparr>left := (left h)(a := None), right := (right h)(a := None),
     parent := (parent h)(a := None)\<rparr>"

definition set_parent :: "'a sheap \<Rightarrow> 'a option \<Rightarrow> 'a option \<Rightarrow> 'a sheap" where
  "set_parent h l p = (case l of None \<Rightarrow> h | Some x \<Rightarrow> h\<lparr>parent := (parent h)(x := p)\<rparr>)"

partial_function (option) skew_heap_merge ::
  "('a \<Rightarrow> 'a \<Rightarrow> int) \<Rightarrow> 'a sheap \<Rightarrow> 'a option \<Rightarrow> 'a option \<Rightarrow> ('a option \<times> 'a sheap) option" where
  "skew_heap_merge cmp h a b =
     (case a of None \<Rightarrow> Some (b, h) | Some x \<Rightarrow>
     (case b of None \<Rightarrow> Some (a, h) | Some y \<Rightarrow>
       if cmp x y = -1 then
         (let r = left h x in
          Option.bind (skew_heap_merge cmp h (right h x) b) (\<lambda>(l, h1).
           let h2 = h1\<lparr>left := (left h1)(x := l)\<rparr>;
               h3 = h2\<lparr>right := (right h2)(x := r)\<rparr>
           in Some (a, set_parent h3 l (Some x))))
       else
         (let r = left h y in
          Option.bind (skew_heap_merge cmp h a (right h y)) (\<lambda>(l, h1).
           let h2 = h1\<lparr>left := (left h1)(y := l)\<rparr>;
               h3 = h2\<lparr>right := (right h2)(y := r)\<rparr>
           in Some (b, set_parent h3 l (Some y))))))"

definition skew_heap_insert ::
  "('a \<Rightarrow> 'a \<Rightarrow> int) \<Rightarrow> 'a sheap \<Rightarrow> 'a option \<Rightarrow> 'a \<Rightarrow> ('a option \<times> 'a sheap) option" where
  "skew_heap_insert cmp h a b = skew_heap_merge cmp (skew_heap_init h b) a (Some b)"

definition skew_heap_remove ::
  "('a \<Rightarrow> 'a \<Rightarrow> int) \<Rightarrow> 'a sheap \<Rightarrow> 'a option \<Rightarrow> 'a \<Rightarrow> ('a option \<times> 'a sheap) option" where
  "skew_heap_remove cmp h a b =
     (let p = parent h b in
      Option.bind (skew_heap_merge cmp h (left h b) (right h b)) (\<lambda>(rep, h1).
       let h2 = set_parent h1 rep p
       in case p of
            None \<Rightarrow> Some (rep, h2)
          | Some q \<Rightarrow> if left h2 q = Some b
                     then Some (a, h2\<lparr>left := (left h2)(q := rep)\<rparr>)
                     else Some (a, h2\<lparr>right := (right h2)(q := rep)\<rparr>)))"

section \<open>Trees\<close>

fun tmerge :: "('a \<Rightarrow> 'a \<Rightarrow> int) \<Rightarrow> 'a tree \<Rightarrow> 'a tree \<Rightarrow> 'a tree" where
  "tmerge cmp Leaf t = t"
| "tmerge cmp t Leaf = t"
| "tmerge cmp (Node l1 x r1) (Node l2 y r2) =
     (if cmp x y = -1 then Node (tmerge cmp r1 (Node l2 y r2)) x l1
      else Node (tmerge cmp (Node l1 x r1) r2) y l2)"

fun tremove :: "('a \<Rightarrow> 'a \<Rightarrow> int) \<Rightarrow> 'a \<Rightarrow> 'a tree \<Rightarrow> 'a tree" where
  "tremove cmp b Leaf = Leaf"
| "tremove cmp b (Node l x r) =
     (if x = b then tmerge cmp l r else Node (tremove cmp b l) x (tremove cmp b r))"

lemma mset_tmerge [simp]: "mset_tree (tmerge cmp t1 t2) = mset_tree t1 + mset_tree t2"
  by (induction cmp t1 t2 rule: tmerge.induct) (auto simp: ac_simps)

lemma set_tmerge [simp]: "set_tree (tmerge cmp t1 t2) = set_tree t1 \<union> set_tree t2"
  by (induction cmp t1 t2 rule: tmerge.induct) auto

text \<open>A tree whose entries are pairwise different.\<close>

definition dtree :: "'a tree \<Rightarrow> bool" where
  "dtree t \<longleftrightarrow> distinct (inorder t)"

lemma dtree_simps [simp]:
  "dtree Leaf"
  "dtree (Node l x r) \<longleftrightarrow> dtree l \<and> dtree r \<and> x \<notin> set_tree l \<and> x \<notin> set_tree r
     \<and> set_tree l \<inter> set_tree r = {}"
  by (auto simp: dtree_def)

lemma dtree_tmerge:
  "dtree t1 \<Longrightarrow> dtree t2 \<Longrightarrow> set_tree t1 \<inter> set_tree t2 = {} \<Longrightarrow> dtree (tmerge cmp t1 t2)"
  by (induction cmp t1 t2 rule: tmerge.induct) auto

lemma set_tremove: "dtree t \<Longrightarrow> set_tree (tremove cmp b t) = set_tree t - {b}"
  by (induction cmp b t rule: tremove.induct) auto

lemma dtree_tremove: "dtree t \<Longrightarrow> dtree (tremove cmp b t)"
proof (induction cmp b t rule: tremove.induct)
  case (2 cmp b l x r)
  then show ?case using dtree_tmerge [of l r cmp] by (auto simp: set_tremove)
qed simp

section \<open>Representation\<close>

fun sh_rep :: "'a sheap \<Rightarrow> 'a option \<Rightarrow> 'a tree \<Rightarrow> bool" where
  "sh_rep h p Leaf \<longleftrightarrow> p = None"
| "sh_rep h p (Node l x r) \<longleftrightarrow>
     p = Some x \<and> sh_rep h (left h x) l \<and> sh_rep h (right h x) r
     \<and> (\<forall>y. left h x = Some y \<longrightarrow> parent h y = Some x)
     \<and> (\<forall>y. right h x = Some y \<longrightarrow> parent h y = Some x)"

lemma sh_rep_None: "sh_rep h p t \<Longrightarrow> p = None \<longleftrightarrow> t = Leaf"
  by (cases t) auto

lemma sh_rep_root: "sh_rep h (Some x) t \<Longrightarrow> x \<in> set_tree t"
  by (cases t) auto

text \<open>Only the pointers of the entries in the tree matter; the parent of its root does not.\<close>

lemma sh_rep_cong:
  assumes "\<forall>x \<in> set_tree t. left h' x = left h x \<and> right h' x = right h x
      \<and> (p \<noteq> Some x \<longrightarrow> parent h' x = parent h x)" and "dtree t" and "sh_rep h p t"
  shows "sh_rep h' p t"
  using assms
proof (induction t arbitrary: p)
  case (Node l x r)
  have l: "sh_rep h' (left h x) l"
  proof (rule Node.IH(1))
    show "\<forall>y \<in> set_tree l. left h' y = left h y \<and> right h' y = right h y
        \<and> (left h x \<noteq> Some y \<longrightarrow> parent h' y = parent h y)"
      using Node.prems by auto
  qed (use Node.prems in auto)
  have r: "sh_rep h' (right h x) r"
  proof (rule Node.IH(2))
    show "\<forall>y \<in> set_tree r. left h' y = left h y \<and> right h' y = right h y
        \<and> (right h x \<noteq> Some y \<longrightarrow> parent h' y = parent h y)"
      using Node.prems by auto
  qed (use Node.prems in auto)
  have "parent h' y = Some x" if "left h x = Some y" for y
    using that Node.prems sh_rep_root [of h y l] by auto
  moreover have "parent h' y = Some x" if "right h x = Some y" for y
    using that Node.prems sh_rep_root [of h y r] by auto
  ultimately show ?case using l r Node.prems by auto
qed simp

definition same_at :: "'a sheap \<Rightarrow> 'a sheap \<Rightarrow> 'a \<Rightarrow> bool" where
  "same_at h h' x \<longleftrightarrow> left h' x = left h x \<and> right h' x = right h x \<and> parent h' x = parent h x"

definition hang :: "'a sheap \<Rightarrow> 'a \<Rightarrow> 'a option \<Rightarrow> 'a option \<Rightarrow> 'a sheap" where
  "hang h x l r = set_parent (h\<lparr>left := (left h)(x := l), right := (right h)(x := r)\<rparr>) l (Some x)"

lemma hang_simps [simp]:
  "left (hang h x l r) = (left h)(x := l)" "right (hang h x l r) = (right h)(x := r)"
  "parent (hang h x l r) y = (if l = Some y then Some x else parent h y)"
  by (simp_all add: hang_def set_parent_def split: option.split)

lemma hang_rep:
  assumes "sh_rep h l lt" and "sh_rep h r rt" and d: "dtree (Node lt x rt)"
    and "\<forall>y. r = Some y \<longrightarrow> parent h y = Some x"
  shows "sh_rep (hang h x l r) (Some x) (Node lt x rt)"
    and "y \<notin> set_tree (Node lt x rt) \<Longrightarrow> same_at h (hang h x l r) y"
    and "parent (hang h x l r) x = parent h x"
proof -
  have lin: "y \<in> set_tree lt" if "l = Some y" for y using that assms(1) sh_rep_root by auto
  have rin: "y \<in> set_tree rt" if "r = Some y" for y using that assms(2) sh_rep_root by auto
  have "sh_rep (hang h x l r) l lt"
    by (rule sh_rep_cong [where h = h]) (use assms in auto)
  moreover have "sh_rep (hang h x l r) r rt"
    by (rule sh_rep_cong [where h = h]) (use assms lin in auto)
  ultimately show "sh_rep (hang h x l r) (Some x) (Node lt x rt)"
    using assms(3,4) lin rin by auto
  show "same_at h (hang h x l r) y" if "y \<notin> set_tree (Node lt x rt)"
    using that lin by (auto simp: same_at_def)
  show "parent (hang h x l r) x = parent h x" using lin d by auto
qed

lemma skew_heap_merge_step:
  "skew_heap_merge cmp h (Some x) (Some y) =
     (if cmp x y = -1
      then map_option (\<lambda>(l, h1). (Some x, hang h1 x l (left h x))) (skew_heap_merge cmp h (right h x) (Some y))
      else map_option (\<lambda>(l, h1). (Some y, hang h1 y l (left h y))) (skew_heap_merge cmp h (Some x) (right h y)))"
  by (subst skew_heap_merge.simps)
    (auto simp: hang_def Let_def map_conv_bind_option split: Option.bind_splits)

lemma skew_heap_merge_None [simp]:
  "skew_heap_merge cmp h None b = Some (b, h)" "skew_heap_merge cmp h a None = Some (a, h)"
  by (subst skew_heap_merge.simps, auto split: option.split)+

lemma skew_heap_merge_rep:
  assumes "sh_rep h a t1" and "sh_rep h b t2" and "dtree t1" and "dtree t2"
    and "set_tree t1 \<inter> set_tree t2 = {}"
  shows "\<exists>p h'. skew_heap_merge cmp h a b = Some (p, h') \<and> sh_rep h' p (tmerge cmp t1 t2)
      \<and> (\<forall>x. x \<notin> set_tree t1 \<union> set_tree t2 \<longrightarrow> same_at h h' x)
      \<and> (\<forall>x. p = Some x \<longrightarrow> parent h' x = parent h x)"
  using assms
proof (induction cmp t1 t2 arbitrary: a b rule: tmerge.induct)
  case (1 cmp t)
  then show ?case by (auto simp: same_at_def)
next
  case (2 cmp l x r)
  then show ?case by (auto simp: same_at_def)
next
  case (3 cmp l1 x r1 l2 y r2)
  let ?t1 = "Node l1 x r1" and ?t2 = "Node l2 y r2"
  have a: "a = Some x" and b: "b = Some y" using 3(3,4) by auto
  show ?case
  proof (cases "cmp x y = -1")
    case True
    have dj: "set_tree r1 \<inter> set_tree ?t2 = {}" using 3(7) by auto
    have "sh_rep h (right h x) r1" "dtree r1" using 3(3,5) by auto
    then obtain p h1 where m: "skew_heap_merge cmp h (right h x) b = Some (p, h1)"
      "sh_rep h1 p (tmerge cmp r1 ?t2)" "\<And>z. z \<notin> set_tree r1 \<union> set_tree ?t2 \<Longrightarrow> same_at h h1 z"
      using 3(1) [OF True _ 3(4) _ 3(6) dj] by blast
    have x: "same_at h h1 x" using m(3) [of x] 3(5,7) by auto
    have sl: "same_at h h1 z" if "z \<in> set_tree l1" for z using m(3) [of z] 3(5,7) that by auto
    have l1: "sh_rep h1 (left h x) l1"
      by (rule sh_rep_cong [where h = h]) (use 3(3,5) sl in \<open>auto simp: same_at_def\<close>)
    have d: "dtree (Node (tmerge cmp r1 ?t2) x l1)"
      using 3(5-7) dtree_tmerge [of r1 ?t2 cmp] by auto
    have pl: "\<forall>z. left h x = Some z \<longrightarrow> parent h1 z = Some x"
    proof (intro allI impI)
      fix z assume z: "left h x = Some z"
      then have "z \<in> set_tree l1" using 3(3) sh_rep_root [of h z l1] by auto
      then have "same_at h h1 z" by (rule sl)
      then show "parent h1 z = Some x" using z 3(3) by (auto simp: same_at_def)
    qed
    note hr = hang_rep [OF m(2) l1 d pl]
    have "same_at h (hang h1 x p (left h x)) z" if "z \<notin> set_tree ?t1 \<union> set_tree ?t2" for z
      using hr(2) [of z] m(3) [of z] that by (auto simp: same_at_def)
    moreover have "skew_heap_merge cmp h a b = Some (Some x, hang h1 x p (left h x))"
      using m(1) True unfolding a b by (simp add: skew_heap_merge_step)
    moreover have "parent (hang h1 x p (left h x)) x = parent h x"
      using hr(3) x by (simp add: same_at_def)
    ultimately show ?thesis using hr(1) True by (metis option.inject tmerge.simps(3))
  next
    case False
    have dj: "set_tree ?t1 \<inter> set_tree r2 = {}" using 3(7) by auto
    have "sh_rep h (right h y) r2" "dtree r2" using 3(4,6) by auto
    then obtain p h1 where m: "skew_heap_merge cmp h a (right h y) = Some (p, h1)"
      "sh_rep h1 p (tmerge cmp ?t1 r2)" "\<And>z. z \<notin> set_tree ?t1 \<union> set_tree r2 \<Longrightarrow> same_at h h1 z"
      using 3(2) [OF False 3(3) _ 3(5) _ dj] by blast
    have y: "same_at h h1 y" using m(3) [of y] 3(6,7) by auto
    have sl: "same_at h h1 z" if "z \<in> set_tree l2" for z using m(3) [of z] 3(6,7) that by auto
    have l2: "sh_rep h1 (left h y) l2"
      by (rule sh_rep_cong [where h = h]) (use 3(4,6) sl in \<open>auto simp: same_at_def\<close>)
    have d: "dtree (Node (tmerge cmp ?t1 r2) y l2)"
      using 3(5-7) dtree_tmerge [of ?t1 r2 cmp] by auto
    have pl: "\<forall>z. left h y = Some z \<longrightarrow> parent h1 z = Some y"
    proof (intro allI impI)
      fix z assume z: "left h y = Some z"
      then have "z \<in> set_tree l2" using 3(4) sh_rep_root [of h z l2] by auto
      then have "same_at h h1 z" by (rule sl)
      then show "parent h1 z = Some y" using z 3(4) by (auto simp: same_at_def)
    qed
    note hr = hang_rep [OF m(2) l2 d pl]
    have "same_at h (hang h1 y p (left h y)) z" if "z \<notin> set_tree ?t1 \<union> set_tree ?t2" for z
      using hr(2) [of z] m(3) [of z] that by (auto simp: same_at_def)
    moreover have "skew_heap_merge cmp h a b = Some (Some y, hang h1 y p (left h y))"
      using m(1) False unfolding a b by (simp add: skew_heap_merge_step)
    moreover have "parent (hang h1 y p (left h y)) y = parent h y"
      using hr(3) y by (simp add: same_at_def)
    ultimately show ?thesis using hr(1) False by (metis option.inject tmerge.simps(3))
  qed
qed

section \<open>Insertion and removal\<close>

text \<open>\<open>heap_ok h a t\<close>: the root pointer \<open>a\<close> represents the tree \<open>t\<close>, and the root has no parent.\<close>

definition heap_ok :: "'a sheap \<Rightarrow> 'a option \<Rightarrow> 'a tree \<Rightarrow> bool" where
  "heap_ok h a t \<longleftrightarrow> sh_rep h a t \<and> dtree t \<and> (\<forall>x. a = Some x \<longrightarrow> parent h x = None)"

lemma skew_heap_insert_ok:
  assumes ok: "heap_ok h a t" and b: "b \<notin> set_tree t"
  shows "\<exists>p h'. skew_heap_insert cmp h a b = Some (p, h') \<and> heap_ok h' p (tmerge cmp t (Node Leaf b Leaf))
      \<and> (\<forall>x. x \<notin> insert b (set_tree t) \<longrightarrow> same_at h h' x)"
proof -
  let ?h = "skew_heap_init h b" and ?s = "Node Leaf b Leaf"
  have rep: "sh_rep h a t" and d: "dtree t" and root: "\<forall>x. a = Some x \<longrightarrow> parent h x = None"
    using ok by (auto simp: heap_ok_def)
  have init: "same_at h ?h x" if "x \<noteq> b" for x
    using that by (simp add: same_at_def skew_heap_init_def)
  have "sh_rep ?h a t"
    by (rule sh_rep_cong [OF _ d rep]) (use b in \<open>auto simp: skew_heap_init_def\<close>)
  moreover have "sh_rep ?h (Some b) ?s" by (simp add: skew_heap_init_def)
  ultimately obtain p h' where m: "skew_heap_merge cmp ?h a (Some b) = Some (p, h')"
    "sh_rep h' p (tmerge cmp t ?s)" "\<forall>x. x \<notin> set_tree t \<union> set_tree ?s \<longrightarrow> same_at ?h h' x"
    "\<forall>x. p = Some x \<longrightarrow> parent h' x = parent ?h x"
    using skew_heap_merge_rep [of ?h a t "Some b" ?s cmp] d b by auto
  have "parent h' x = None" if "p = Some x" for x
  proof -
    have "x = b \<or> a = Some x"
      using m(2) rep that by (cases t) (auto split: if_splits)
    then show ?thesis using m(4) that root init [of x] by (auto simp: same_at_def skew_heap_init_def)
  qed
  moreover have "dtree (tmerge cmp t ?s)" using d b by (intro dtree_tmerge) auto
  moreover have "same_at h h' x" if "x \<notin> insert b (set_tree t)" for x
    using m(3) [rule_format, of x] init [of x] that by (auto simp: same_at_def)
  ultimately show ?thesis using m(1,2) by (auto simp: skew_heap_insert_def heap_ok_def)
qed

lemma sh_rep_unique: "sh_rep h p t \<Longrightarrow> sh_rep h p u \<Longrightarrow> t = u"
proof (induction t arbitrary: p u)
  case Leaf
  then show ?case by (cases u) auto
next
  case (Node l x r)
  then show ?case by (cases u) auto
qed

lemma tremove_id: "b \<notin> set_tree t \<Longrightarrow> tremove cmp b t = t"
  by (induction cmp b t rule: tremove.induct) auto

text \<open>The entries strictly below an entry.\<close>

fun under :: "'a \<Rightarrow> 'a tree \<Rightarrow> 'a set" where
  "under b Leaf = {}"
| "under b (Node l x r) = (if x = b then set_tree l \<union> set_tree r else under b l \<union> under b r)"

lemma under_subset: "under b t \<subseteq> set_tree t"
  by (induction t) auto

lemma under_notin: "b \<notin> set_tree t \<Longrightarrow> under b t = {}"
  by (induction t) auto

lemma root_not_under: "sh_rep h (Some y) t \<Longrightarrow> dtree t \<Longrightarrow> y \<noteq> b \<Longrightarrow> y \<notin> under b t"
  using under_subset by (cases t) fastforce+

lemma sh_rep_node:
  assumes "sh_rep h p t" and "b \<in> set_tree t" and "dtree t"
  shows "\<exists>l r. sh_rep h (left h b) l \<and> sh_rep h (right h b) r \<and> dtree (Node l b r)
      \<and> under b t = set_tree l \<union> set_tree r"
  using assms
proof (induction t arbitrary: p)
  case (Node l x r)
  show ?case
  proof (cases "x = b")
    case True
    then show ?thesis using Node.prems by (intro exI [of _ l] exI [of _ r]) auto
  next
    case False
    then consider "b \<in> set_tree l" "b \<notin> set_tree r" | "b \<in> set_tree r" "b \<notin> set_tree l"
      using Node.prems by auto
    then show ?thesis
      using Node.IH Node.prems False by cases (auto simp: under_notin)
  qed
qed simp

lemma sh_rep_children:
  "sh_rep h p t \<Longrightarrow> q \<in> set_tree t \<Longrightarrow> left h q = Some b \<or> right h q = Some b \<Longrightarrow> b \<in> set_tree t"
proof (induction t arbitrary: p)
  case (Node l x r)
  then show ?case using sh_rep_root [of h b l] sh_rep_root [of h b r] by auto
qed simp

lemma parent_child:
  assumes "sh_rep h p t" and "b \<in> set_tree t" and "p \<noteq> Some b"
  shows "\<exists>q. parent h b = Some q \<and> q \<in> set_tree t \<and> (left h q = Some b \<or> right h q = Some b)"
  using assms
proof (induction t arbitrary: p)
  case (Node l x r)
  show ?case
  proof (cases "left h x = Some b \<or> right h x = Some b")
    case True
    then show ?thesis using Node.prems by auto
  next
    case False
    then show ?thesis using Node.IH Node.prems by fastforce
  qed
qed simp

lemma child_not_below:
  assumes "sh_rep h p t" and "dtree t" and "b \<in> set_tree t" and "left h q = Some b \<or> right h q = Some b"
  shows "q \<notin> under b t"
proof
  assume q: "q \<in> under b t"
  obtain l r where lr: "sh_rep h (left h b) l" "sh_rep h (right h b) r" "dtree (Node l b r)"
    and u: "under b t = set_tree l \<union> set_tree r"
    using sh_rep_node [OF assms(1,3,2)] by blast
  have "b \<in> set_tree l \<union> set_tree r"
    using q u assms(4) sh_rep_children [OF lr(1), of q b] sh_rep_children [OF lr(2), of q b] by auto
  then show False using lr(3) by auto
qed

text \<open>Replacing a proper subtree: \<open>h'\<close> has the replacement \<open>rep\<close> at the child pointer of \<open>q\<close>.\<close>

lemma replace_rep:
  assumes "sh_rep h p t" and "dtree t" and "b \<in> set_tree t" and "p \<noteq> Some b"
    and lr: "sh_rep h (left h b) lb" "sh_rep h (right h b) rb"
    and q: "parent h b = Some q"
    and rep: "sh_rep h' rep (tmerge cmp lb rb)" "\<forall>y. rep = Some y \<longrightarrow> parent h' y = Some q"
    and fr: "\<And>x. x \<in> set_tree t \<Longrightarrow> x \<notin> insert b (under b t) \<Longrightarrow>
      left h' x = (if x = q \<and> left h q = Some b then rep else left h x)
      \<and> right h' x = (if x = q \<and> left h q \<noteq> Some b then rep else right h x)
      \<and> parent h' x = parent h x"
  shows "sh_rep h' p (tremove cmp b t)"
  using assms(1-4) fr
proof (induction t arbitrary: p)
  case (Node l x r)
  have p: "p = Some x" and l: "sh_rep h (left h x) l" and r: "sh_rep h (right h x) r"
    and pl: "\<And>y. left h x = Some y \<Longrightarrow> parent h y = Some x"
    and pr: "\<And>y. right h x = Some y \<Longrightarrow> parent h y = Some x"
    and xb: "x \<noteq> b"
    using Node.prems by auto
  have dl: "dtree l" and dr: "dtree r" and nl: "x \<notin> set_tree l" and nr: "x \<notin> set_tree r"
    and lr_disj: "set_tree l \<inter> set_tree r = {}"
    using Node.prems(2) by auto
  have xu: "x \<notin> under b l" "x \<notin> under b r"
    using under_subset [of b l] under_subset [of b r] nl nr by blast+
  have fx: "left h' x = (if x = q \<and> left h q = Some b then rep else left h x)"
    "right h' x = (if x = q \<and> left h q \<noteq> Some b then rep else right h x)"
    using Node.prems(5) [of x] xb xu by auto
  have up: "parent h' y = parent h y" if "y \<in> set_tree l \<union> set_tree r" "y \<notin> insert b (under b l \<union> under b r)" for y
    using Node.prems(5) [of y] that xb by auto
  have side: "sh_rep h' c u" "\<forall>y. c = Some y \<longrightarrow> parent h' y = parent h y"
    if u: "sh_rep h c u" "dtree u" "set_tree u \<subseteq> set_tree l \<union> set_tree r" "b \<notin> set_tree u"
      "set_tree u \<inter> (under b l \<union> under b r) = {}" "q \<notin> set_tree u" for c u
  proof -
    have z: "z \<in> set_tree (Node l x r)" "z \<notin> insert b (under b (Node l x r))" "z \<noteq> q" if "z \<in> set_tree u" for z
      using u(3-6) that xb by auto
    have same: "left h' z = left h z \<and> right h' z = right h z \<and> parent h' z = parent h z" if "z \<in> set_tree u" for z
      using Node.prems(5) [OF z(1) [OF that] z(2) [OF that]] z(3) [OF that] by simp
    show "sh_rep h' c u" by (rule sh_rep_cong [OF _ u(2,1)]) (use same in blast)
    show "\<forall>y. c = Some y \<longrightarrow> parent h' y = parent h y" 
      using same sh_rep_root [of h _ u] u(1) by auto
  qed
  consider (inl) "b \<in> set_tree l" "b \<notin> set_tree r" | (inr) "b \<in> set_tree r" "b \<notin> set_tree l"
    using Node.prems(3) xb lr_disj by auto
  then show ?case
  proof cases
    case inl
    have ur: "under b r = {}" using inl under_notin by fast
    have tr: "tremove cmp b r = r" using inl tremove_id by fast
    have "set_tree r \<inter> (under b l \<union> under b r) = {}" using lr_disj under_subset [of b l] ur by blast
    note keep = side [OF r dr Un_upper2 inl(2) this]
    show ?thesis
    proof (cases "left h x = Some b")
      case True
      then have qx: "q = x" using pl q by auto
      obtain l' r' where l': "l = Node l' b r'" using True l by (cases l) auto
      then have "l' = lb" "r' = rb" using l lr sh_rep_unique True by auto
      moreover have "left h' x = rep" "right h' x = right h x" using fx True qx by simp_all
      ultimately show ?thesis
        using keep [OF nr [folded qx]] rep l' tr xb p pr qx by simp
    next
      case False
      have "q \<in> set_tree l" using parent_child [OF l inl(1) False] q by auto
      then have qx: "q \<noteq> x" and qr: "q \<notin> set_tree r" using nl lr_disj by auto
      have "sh_rep h' (left h x) (tremove cmp b l)"
        using Node.IH(1) [OF l dl inl(1) False] Node.prems(5) ur xb by auto
      moreover have "parent h' y = Some x" if "left h x = Some y" for y
        using up [of y] pl [OF that] root_not_under [OF _ dl, of h y b] sh_rep_root [of h y l] l that False ur
        by auto
      moreover have "left h' x = left h x" "right h' x = right h x" using fx qx by simp_all
      ultimately show ?thesis
        using keep [OF qr] tr xb p pr by simp
    qed
  next
    case inr
    have ul: "under b l = {}" using inr under_notin by fast
    have tl: "tremove cmp b l = l" using inr tremove_id by fast
    have "set_tree l \<inter> (under b l \<union> under b r) = {}" using lr_disj under_subset [of b r] ul by blast
    note keep = side [OF l dl Un_upper1 inr(2) this]
    have lb: "left h x \<noteq> Some b" using l inr(2) sh_rep_root by fastforce
    show ?thesis
    proof (cases "right h x = Some b")
      case True
      then have qx: "q = x" using pr q by auto
      obtain l' r' where r': "r = Node l' b r'" using True r by (cases r) auto
      then have "l' = lb" "r' = rb" using r lr sh_rep_unique True by auto
      moreover have "left h' x = left h x" "right h' x = rep" using fx lb qx by simp_all
      ultimately show ?thesis
        using keep [OF nl [folded qx]] rep r' tl xb p pl qx by simp
    next
      case False
      have "q \<in> set_tree r" using parent_child [OF r inr(1) False] q by auto
      then have qx: "q \<noteq> x" and ql: "q \<notin> set_tree l" using nr lr_disj by auto
      have "sh_rep h' (right h x) (tremove cmp b r)"
        using Node.IH(2) [OF r dr inr(1) False] Node.prems(5) ul xb by auto
      moreover have "parent h' y = Some x" if "right h x = Some y" for y
        using up [of y] pr [OF that] root_not_under [OF _ dr, of h y b] sh_rep_root [of h y r] r that False ul
        by auto
      moreover have "left h' x = left h x" "right h' x = right h x" using fx qx by simp_all
      ultimately show ?thesis
        using keep [OF ql] tl xb p pl by simp
    qed
  qed
qed simp

lemma set_parent_simps [simp]:
  "left (set_parent h l p) = left h" "right (set_parent h l p) = right h"
  "parent (set_parent h l p) y = (if l = Some y then p else parent h y)"
  by (simp_all add: set_parent_def split: option.split)

lemma skew_heap_remove_ok:
  assumes ok: "heap_ok h a t" and b: "b \<in> set_tree t"
  shows "\<exists>p h'. skew_heap_remove cmp h a b = Some (p, h') \<and> heap_ok h' p (tremove cmp b t)
      \<and> (\<forall>x. x \<notin> set_tree t \<longrightarrow> same_at h h' x)"
proof -
  have rep: "sh_rep h a t" and d: "dtree t" and root: "\<forall>x. a = Some x \<longrightarrow> parent h x = None"
    using ok by (auto simp: heap_ok_def)
  obtain lb rb where lr: "sh_rep h (left h b) lb" "sh_rep h (right h b) rb" and db: "dtree (Node lb b rb)"
    and un: "under b t = set_tree lb \<union> set_tree rb"
    using sh_rep_node [OF rep b d] by blast
  obtain c h1 where m: "skew_heap_merge cmp h (left h b) (right h b) = Some (c, h1)"
    "sh_rep h1 c (tmerge cmp lb rb)" "\<And>x. x \<notin> under b t \<Longrightarrow> same_at h h1 x"
    using skew_heap_merge_rep [OF lr, of cmp] db un by auto
  have cu: "x \<in> under b t" if "c = Some x" for x
    using that m(2) sh_rep_root [of h1 x "tmerge cmp lb rb"] un by simp
  define h2 where "h2 = set_parent h1 c (parent h b)"
  have dm: "dtree (tmerge cmp lb rb)" using db by (intro dtree_tmerge) auto
  have rep2: "sh_rep h2 c (tmerge cmp lb rb)"
    by (rule sh_rep_cong [OF _ dm m(2)]) (auto simp: h2_def)
  have same2: "same_at h h2 x" if "x \<notin> under b t" for x
    using m(3) [OF that] cu that by (auto simp: same_at_def h2_def)
  have bu: "b \<notin> under b t" using db un by auto
  show ?thesis
  proof (cases "a = Some b")
    case True
    have "t = Node lb b rb" using rep lr True sh_rep_unique by (cases t) auto
    moreover have "parent h b = None" using root True by simp
    ultimately show ?thesis
      using m(1) rep2 dm same2 under_subset [of b t]
      by (auto simp: skew_heap_remove_def Let_def heap_ok_def h2_def)
  next
    case False
    obtain q where q: "parent h b = Some q" "q \<in> set_tree t" "left h q = Some b \<or> right h q = Some b"
      using parent_child [OF rep b False] by blast
    have qu: "q \<notin> under b t" using child_not_below [OF rep d b] q(3) by blast
    have hq: "left h2 q = left h q" "right h2 q = right h q"
      using same2 [OF qu] by (simp_all add: same_at_def)
    define h3 where "h3 = (if left h q = Some b then h2\<lparr>left := (left h2)(q := c)\<rparr>
      else h2\<lparr>right := (right h2)(q := c)\<rparr>)"
    have run: "skew_heap_remove cmp h a b = Some (a, h3)"
      using m(1) q(1) hq by (auto simp: skew_heap_remove_def Let_def h2_def h3_def)
    have rep3: "sh_rep h3 c (tmerge cmp lb rb)"
      by (rule sh_rep_cong [OF _ dm rep2]) (use qu un in \<open>auto simp: h3_def\<close>)
    have fr: "left h3 x = (if x = q \<and> left h q = Some b then c else left h x)
      \<and> right h3 x = (if x = q \<and> left h q \<noteq> Some b then c else right h x) \<and> parent h3 x = parent h x"
      if "x \<notin> under b t" for x
      using same2 [OF that] by (auto simp: h3_def same_at_def)
    have "sh_rep h3 a (tremove cmp b t)"
      by (rule replace_rep [OF rep d b False lr q(1) rep3])
        (use q(1) fr in \<open>auto simp: h3_def h2_def\<close>)
    moreover have "parent h3 x = None" if "a = Some x" for x
      using fr [of x] root that root_not_under [of h x t b] rep d False by auto
    moreover have "same_at h h3 x" if x: "x \<notin> set_tree t" for x
    proof -
      have "x \<notin> under b t" "x \<noteq> q" using x q(2) under_subset [of b t] by blast+
      then show ?thesis using fr [of x] by (simp add: same_at_def)
    qed
    ultimately show ?thesis using run dtree_tremove [OF d] by (auto simp: heap_ok_def)
  qed
qed

section \<open>Heap order\<close>

fun heap_by :: "('a \<Rightarrow> 'a \<Rightarrow> bool) \<Rightarrow> 'a tree \<Rightarrow> bool" where
  "heap_by le Leaf \<longleftrightarrow> True"
| "heap_by le (Node l x r) \<longleftrightarrow> (\<forall>y \<in> set_tree l \<union> set_tree r. le x y) \<and> heap_by le l \<and> heap_by le r"

text \<open>\<open>orders cmp le A\<close>: on \<open>A\<close> the relation is transitive and the comparison function decides it.\<close>

definition orders :: "('a \<Rightarrow> 'a \<Rightarrow> int) \<Rightarrow> ('a \<Rightarrow> 'a \<Rightarrow> bool) \<Rightarrow> 'a set \<Rightarrow> bool" where
  "orders cmp le A \<longleftrightarrow>
     (\<forall>x \<in> A. \<forall>y \<in> A. (if cmp x y = -1 then le x y else le y x))
     \<and> (\<forall>x \<in> A. \<forall>y \<in> A. \<forall>z \<in> A. le x y \<longrightarrow> le y z \<longrightarrow> le x z)"

lemma orders_subset: "orders cmp le B \<Longrightarrow> A \<subseteq> B \<Longrightarrow> orders cmp le A"
  unfolding orders_def by (meson subsetD)

lemma orders_dec:
  "orders cmp le A \<Longrightarrow> x \<in> A \<Longrightarrow> y \<in> A \<Longrightarrow> if cmp x y = -1 then le x y else le y x"
  unfolding orders_def by blast

lemma orders_trans:
  "orders cmp le A \<Longrightarrow> x \<in> A \<Longrightarrow> y \<in> A \<Longrightarrow> z \<in> A \<Longrightarrow> le x y \<Longrightarrow> le y z \<Longrightarrow> le x z"
  unfolding orders_def by blast

lemma heap_tmerge:
  "heap_by le t1 \<Longrightarrow> heap_by le t2 \<Longrightarrow> orders cmp le (set_tree t1 \<union> set_tree t2) \<Longrightarrow>
   heap_by le (tmerge cmp t1 t2)"
proof (induction cmp t1 t2 rule: tmerge.induct)
  case (3 cmp l1 x r1 l2 y r2)
  let ?A = "set_tree (Node l1 x r1) \<union> set_tree (Node l2 y r2)"
  have dec: "if cmp x y = -1 then le x y else le y x" by (rule orders_dec [OF 3(5)]) auto
  show ?case
  proof (cases "cmp x y = -1")
    case True
    have "heap_by le (tmerge cmp r1 (Node l2 y r2))"
      by (rule 3(1) [OF True]) (use 3(3,4) orders_subset [OF 3(5)] in \<open>auto simp: subset_iff\<close>)
    moreover have "le x z" if "z \<in> set_tree (Node l2 y r2)" for z
    proof (cases "z = y")
      case False
      then have "le y z" using that 3(4) by auto
      then show ?thesis using dec True that by (intro orders_trans [OF 3(5), of x y z]) auto
    qed (use dec True in simp)
    ultimately show ?thesis using True 3(3) by auto
  next
    case False
    have "heap_by le (tmerge cmp (Node l1 x r1) r2)"
      by (rule 3(2) [OF False]) (use 3(3,4) orders_subset [OF 3(5)] in \<open>auto simp: subset_iff\<close>)
    moreover have "le y z" if "z \<in> set_tree (Node l1 x r1)" for z
    proof (cases "z = x")
      case False': False
      then have "le x z" using that 3(3) by auto
      then show ?thesis using dec False that by (intro orders_trans [OF 3(5), of y x z]) auto
    qed (use dec False in simp)
    ultimately show ?thesis using False 3(4) by auto
  qed
qed auto

lemma heap_tremove:
  "heap_by le t \<Longrightarrow> dtree t \<Longrightarrow> orders cmp le (set_tree t) \<Longrightarrow> heap_by le (tremove cmp b t)"
proof (induction t)
  case (Node l x r)
  have "heap_by le (tremove cmp b l)" "heap_by le (tremove cmp b r)"
    using Node orders_subset [OF Node.prems(3), of "set_tree l"]
      orders_subset [OF Node.prems(3), of "set_tree r"] by auto
  moreover have "heap_by le (tmerge cmp l r)"
    using Node.prems orders_subset [OF Node.prems(3), of "set_tree l \<union> set_tree r"]
    by (intro heap_tmerge) auto
  ultimately show ?case using Node.prems by (auto simp: set_tremove)
qed simp

lemma heap_root_least: "heap_by le (Node l x r) \<Longrightarrow> y \<in> set_tree (Node l x r) \<Longrightarrow> y = x \<or> le x y"
  by auto

end
