(* ===== verification/Proc_Base.thy ===== *)
theory Proc_Base
  imports DList Skew_Heap
begin

text \<open>
  The process descriptor of \<open>kern/process/proc.h\<close>, the trap frame of \<open>kern/trap/trap.h\<close>, the run
  queue and the timers of \<open>kern/schedule/sched.h\<close>. Descriptors are addressed by numbers; a pointer
  that may be NULL is an option. The scheduler's data is the record \<open>sched\<close>, which the process
  management extends.
\<close>

section \<open>Saved registers\<close>

record cpu_context =
  eip :: u32
  esp :: u32
  ebx :: u32
  ecx :: u32
  edx :: u32
  esi :: u32
  edi :: u32
  ebp :: u32

definition context0 :: cpu_context where
  "context0 = \<lparr>eip = 0, esp = 0, ebx = 0, ecx = 0, edx = 0, esi = 0, edi = 0, ebp = 0\<rparr>"

record pushregs =
  reg_edi :: u32
  reg_esi :: u32
  reg_ebp :: u32
  reg_oesp :: u32
  reg_ebx :: u32
  reg_edx :: u32
  reg_ecx :: u32
  reg_eax :: u32

record trapframe =
  tf_regs :: pushregs
  tf_gs :: u16
  tf_fs :: u16
  tf_es :: u16
  tf_ds :: u16
  tf_trapno :: u32
  tf_err :: u32
  tf_eip :: u32
  tf_cs :: u16
  tf_eflags :: u32
  tf_esp :: u32
  tf_ss :: u16

definition trapframe0 :: trapframe where
  "trapframe0 = \<lparr>tf_regs = \<lparr>reg_edi = 0, reg_esi = 0, reg_ebp = 0, reg_oesp = 0, reg_ebx = 0, reg_edx = 0,
       reg_ecx = 0, reg_eax = 0\<rparr>, tf_gs = 0, tf_fs = 0, tf_es = 0, tf_ds = 0, tf_trapno = 0, tf_err = 0,
     tf_eip = 0, tf_cs = 0, tf_eflags = 0, tf_esp = 0, tf_ss = 0\<rparr>"

section \<open>Processes\<close>

datatype proc_state = PROC_UNINIT | PROC_SLEEPING | PROC_RUNNABLE | PROC_ZOMBIE

text \<open>The field \<open>rq\<close> is NULL or the one run queue; \<open>tf\<close> is NULL or the frame at the top of the kernel
  stack. The list links are in the stores of the lists they belong to.\<close>

record proc =
  state :: proc_state
  pid :: int
  runs :: int
  kstack :: u32
  need_resched :: bool
  pparent :: "nat option"
  mm :: "nat option"
  pcontext :: cpu_context
  tf :: "trapframe option"
  cr3 :: u32
  pflags :: u32
  pname :: "u8 list"
  exit_code :: int
  wait_state :: u32
  cptr :: "nat option"
  yptr :: "nat option"
  optr :: "nat option"
  rq :: bool
  time_slice :: int
  lab6_stride :: u32
  lab6_priority :: u32
  filesp :: "nat option"

definition PF_EXITING :: u32 where "PF_EXITING = 0x1"
definition WT_INTERRUPTED :: u32 where "WT_INTERRUPTED = 0x80000000"
definition WT_CHILD :: u32 where "WT_CHILD = 0x80000001"
definition WT_KSEM :: u32 where "WT_KSEM = 0x100"
definition WT_TIMER :: u32 where "WT_TIMER = 0x80000002"
definition WT_KBD :: u32 where "WT_KBD = 0x80000004"

section \<open>Run queue and timers\<close>

datatype rnode = RunList | RunLink nat
datatype tnode = TimerList | TimerLink nat

fun le2proc :: "rnode \<Rightarrow> nat" where
  "le2proc (RunLink p) = p"

fun le2timer :: "tnode \<Rightarrow> nat" where
  "le2timer (TimerLink t) = t"

record timer =
  expires :: u32
  tproc :: "nat option"

record sched =
  procs :: "nat \<Rightarrow> proc"
  current :: nat
  idleproc :: nat
  run_list :: "rnode links"
  proc_num :: u32
  max_time_slice :: int
  lab6_run_pool :: "nat option"
  pool :: "nat sheap"
  timers :: "nat \<Rightarrow> timer"
  timer_list :: "tnode links"
  esp0 :: u32
  cpu_cr3 :: u32

definition upd_proc :: "'a sched_scheme \<Rightarrow> nat \<Rightarrow> (proc \<Rightarrow> proc) \<Rightarrow> 'a sched_scheme" where
  "upd_proc s p f = s\<lparr>procs := (procs s)(p := f (procs s p))\<rparr>"

definition upd_timer :: "'a sched_scheme \<Rightarrow> nat \<Rightarrow> (timer \<Rightarrow> timer) \<Rightarrow> 'a sched_scheme" where
  "upd_timer s t f = s\<lparr>timers := (timers s)(t := f (timers s t))\<rparr>"

lemma upd_proc_simps [simp]:
  "procs (upd_proc s p f) = (procs s)(p := f (procs s p))"
  "current (upd_proc s p f) = current s" "idleproc (upd_proc s p f) = idleproc s"
  "run_list (upd_proc s p f) = run_list s" "proc_num (upd_proc s p f) = proc_num s"
  "max_time_slice (upd_proc s p f) = max_time_slice s"
  "lab6_run_pool (upd_proc s p f) = lab6_run_pool s" "pool (upd_proc s p f) = pool s"
  "timers (upd_proc s p f) = timers s" "timer_list (upd_proc s p f) = timer_list s"
  "esp0 (upd_proc s p f) = esp0 s" "cpu_cr3 (upd_proc s p f) = cpu_cr3 s"
  "sched.more (upd_proc s p f) = sched.more s"
  by (simp_all add: upd_proc_def)

lemma upd_timer_simps [simp]:
  "timers (upd_timer s t f) = (timers s)(t := f (timers s t))"
  "procs (upd_timer s t f) = procs s" "current (upd_timer s t f) = current s"
  "idleproc (upd_timer s t f) = idleproc s" "run_list (upd_timer s t f) = run_list s"
  "proc_num (upd_timer s t f) = proc_num s" "max_time_slice (upd_timer s t f) = max_time_slice s"
  "lab6_run_pool (upd_timer s t f) = lab6_run_pool s" "pool (upd_timer s t f) = pool s"
  "timer_list (upd_timer s t f) = timer_list s" "esp0 (upd_timer s t f) = esp0 s"
  "cpu_cr3 (upd_timer s t f) = cpu_cr3 s" "sched.more (upd_timer s t f) = sched.more s"
  by (simp_all add: upd_timer_def)

text \<open>What a scheduling class leaves alone: everything but its own queue data, and of a process only
  the queue mark, the time slice and the stride.\<close>

definition sched_view :: "proc \<Rightarrow> proc" where
  "sched_view p = p\<lparr>rq := False, time_slice := 0, lab6_stride := 0\<rparr>"

definition class_frame :: "'a sched_scheme \<Rightarrow> 'a sched_scheme \<Rightarrow> bool" where
  "class_frame s s' \<longleftrightarrow>
     (\<forall>p. sched_view (procs s' p) = sched_view (procs s p))
     \<and> current s' = current s \<and> idleproc s' = idleproc s \<and> max_time_slice s' = max_time_slice s
     \<and> timers s' = timers s \<and> timer_list s' = timer_list s \<and> esp0 s' = esp0 s \<and> cpu_cr3 s' = cpu_cr3 s
     \<and> sched.more s' = sched.more s"

lemma class_frame_refl [simp]: "class_frame s s"
  by (simp add: class_frame_def)

lemma class_frame_trans: "class_frame s t \<Longrightarrow> class_frame t u \<Longrightarrow> class_frame s u"
  by (simp add: class_frame_def)

lemma sched_view_fields:
  assumes "sched_view p = sched_view q"
  shows "state p = state q" and "pid p = pid q" and "wait_state p = wait_state q" and "runs p = runs q"
    and "need_resched p = need_resched q" and "lab6_priority p = lab6_priority q" and "pflags p = pflags q"
    and "kstack p = kstack q" and "cr3 p = cr3 q" and "pparent p = pparent q"
    and "cptr p = cptr q" and "yptr p = yptr q" and "optr p = optr q" and "exit_code p = exit_code q"
  using assms by (cases p; cases q; simp add: sched_view_def)+

lemma class_frame_state:
  "class_frame s s' \<Longrightarrow> state (procs s' p) = state (procs s p)"
  "class_frame s s' \<Longrightarrow> wait_state (procs s' p) = wait_state (procs s p)"
  "class_frame s s' \<Longrightarrow> pid (procs s' p) = pid (procs s p)"
  by (auto simp: class_frame_def dest!: spec [of _ p] dest: sched_view_fields)

lemma class_frame_globals:
  assumes "class_frame s s'"
  shows "current s' = current s" and "idleproc s' = idleproc s" and "timers s' = timers s"
    and "timer_list s' = timer_list s" and "max_time_slice s' = max_time_slice s"
    and "sched.more s' = sched.more s" and "esp0 s' = esp0 s" and "cpu_cr3 s' = cpu_cr3 s"
  using assms by (simp_all add: class_frame_def)

end
