(* ===== verification/Sched_Class.thy ===== *)
theory Sched_Class
  imports Proc_Base
begin

text \<open>
  The policy-independent scheduler core of \<open>kern/schedule/sched.c\<close>. The struct \<open>sched_class\<close> of
  function pointers is a record of operations, passed to the core as an argument; what the core relies
  on is the locale \<open>sched_class_laws\<close>. Inside the locale it is shown that no runnable process is ever
  lost: the run queue holds exactly the runnable processes that neither run nor are the idle process.
\<close>

section \<open>The scheduler core\<close>

record 's sched_class =
  sc_init :: "'s \<Rightarrow> 's"
  enqueue :: "'s \<Rightarrow> nat \<Rightarrow> 's res"
  dequeue :: "'s \<Rightarrow> nat \<Rightarrow> 's res"
  pick_next :: "'s \<Rightarrow> (nat option \<times> 's) res"
  proc_tick :: "'s \<Rightarrow> nat \<Rightarrow> 's"

definition KSTACKSIZE :: u32 where "KSTACKSIZE = 2 * 4096"

definition sched_class_enqueue ::
  "'a sched_scheme sched_class \<Rightarrow> 'a sched_scheme \<Rightarrow> nat \<Rightarrow> 'a sched_scheme res" where
  "sched_class_enqueue c s p = (if p \<noteq> idleproc s then enqueue c s p else Ok s)"

definition sched_class_dequeue ::
  "'a sched_scheme sched_class \<Rightarrow> 'a sched_scheme \<Rightarrow> nat \<Rightarrow> 'a sched_scheme res" where
  "sched_class_dequeue c s p = dequeue c s p"

definition sched_class_pick_next ::
  "'a sched_scheme sched_class \<Rightarrow> 'a sched_scheme \<Rightarrow> (nat option \<times> 'a sched_scheme) res" where
  "sched_class_pick_next c s = pick_next c s"

definition sched_class_proc_tick ::
  "'a sched_scheme sched_class \<Rightarrow> 'a sched_scheme \<Rightarrow> nat \<Rightarrow> 'a sched_scheme" where
  "sched_class_proc_tick c s p =
     (if p \<noteq> idleproc s then proc_tick c s p else upd_proc s p (\<lambda>pr. pr\<lparr>need_resched := True\<rparr>))"

definition sched_init :: "'a sched_scheme sched_class \<Rightarrow> 'a sched_scheme \<Rightarrow> 'a sched_scheme" where
  "sched_init c s =
     (let s1 = s\<lparr>timer_list := list_init (timer_list s) TimerList\<rparr>;
          s2 = s1\<lparr>max_time_slice := 5\<rparr>
      in sc_init c s2)"

text \<open>Waking a runnable process only prints a warning.\<close>

definition wakeup_proc ::
  "'a sched_scheme sched_class \<Rightarrow> 'a sched_scheme \<Rightarrow> nat \<Rightarrow> 'a sched_scheme res" where
  "wakeup_proc c s p =
     assert_c (state (procs s p) \<noteq> PROC_ZOMBIE)
       (if state (procs s p) \<noteq> PROC_RUNNABLE then
          (let s1 = upd_proc s p (\<lambda>pr. pr\<lparr>state := PROC_RUNNABLE\<rparr>);
               s2 = upd_proc s1 p (\<lambda>pr. pr\<lparr>wait_state := 0\<rparr>)
           in if p \<noteq> current s2 then sched_class_enqueue c s2 p else Ok s2)
        else Ok s)"

text \<open>\<open>proc_run\<close> up to the switch of the register contexts, which is assembly.\<close>

definition proc_run :: "'a sched_scheme \<Rightarrow> nat \<Rightarrow> 'a sched_scheme" where
  "proc_run s p =
     (if p \<noteq> current s
      then s\<lparr>current := p, esp0 := kstack (procs s p) + KSTACKSIZE, cpu_cr3 := cr3 (procs s p)\<rparr>
      else s)"

definition schedule :: "'a sched_scheme sched_class \<Rightarrow> 'a sched_scheme \<Rightarrow> 'a sched_scheme res" where
  "schedule c s =
     (let s1 = upd_proc s (current s) (\<lambda>pr. pr\<lparr>need_resched := False\<rparr>) in
      res_bind (if state (procs s1 (current s1)) = PROC_RUNNABLE
                then sched_class_enqueue c s1 (current s1) else Ok s1) (\<lambda>s2.
      res_bind (sched_class_pick_next c s2) (\<lambda>(next, s3).
      res_bind (case next of None \<Rightarrow> Ok s3 | Some p \<Rightarrow> sched_class_dequeue c s3 p) (\<lambda>s4.
       let n = (case next of None \<Rightarrow> idleproc s4 | Some p \<Rightarrow> p);
           s5 = upd_proc s4 n (\<lambda>pr. pr\<lparr>runs := runs pr + 1\<rparr>)
       in Ok (if n \<noteq> current s5 then proc_run s5 n else s5)))))"

text \<open>What happens to the scheduler over time: a reschedule, a wakeup of any process that has not exited, or the
  current process going to sleep and giving up the processor, as \<open>do_wait\<close>, \<open>do_sleep\<close> and
  \<open>down\<close> do. The idle process never sleeps.\<close>

datatype sched_event = Resched | Wake nat | Sleep u32

fun sched_step :: "'a sched_scheme sched_class \<Rightarrow> sched_event \<Rightarrow> 'a sched_scheme \<Rightarrow> 'a sched_scheme res" where
  "sched_step c Resched s = schedule c s"
| "sched_step c (Wake p) s = (if state (procs s p) \<noteq> PROC_ZOMBIE then wakeup_proc c s p else Ok s)"
| "sched_step c (Sleep ws) s =
     (if current s = idleproc s then schedule c s
      else let s1 = upd_proc s (current s) (\<lambda>pr. pr\<lparr>state := PROC_SLEEPING, wait_state := ws\<rparr>)
           in schedule c s1)"

fun sched_run :: "'a sched_scheme sched_class \<Rightarrow> sched_event list \<Rightarrow> 'a sched_scheme \<Rightarrow> 'a sched_scheme res" where
  "sched_run c [] s = Ok s"
| "sched_run c (e # es) s = res_bind (sched_step c e s) (sched_run c es)"

fun decision :: "sched_event \<Rightarrow> bool" where
  "decision (Wake p) \<longleftrightarrow> False"
| "decision e \<longleftrightarrow> True"

text \<open>Both classes give a process that enters the queue a fresh time slice when its own is used up or
  too large.\<close>

definition refill :: "'a sched_scheme \<Rightarrow> nat \<Rightarrow> 'a sched_scheme" where
  "refill s p =
     (if time_slice (procs s p) = 0 \<or> max_time_slice s < time_slice (procs s p)
      then upd_proc s p (\<lambda>pr. pr\<lparr>time_slice := max_time_slice s\<rparr>) else s)"

lemma refill_simps [simp]:
  "run_list (refill s p) = run_list s" "proc_num (refill s p) = proc_num s"
  "rq (procs (refill s p) q) = rq (procs s q)" "max_time_slice (refill s p) = max_time_slice s"
  "pool (refill s p) = pool s" "lab6_run_pool (refill s p) = lab6_run_pool s"
  "class_frame s (refill s p)" "lab6_stride (procs (refill s p) q) = lab6_stride (procs s q)"
  by (simp_all add: refill_def class_frame_def sched_view_def)

section \<open>What the core relies on\<close>

text \<open>States that agree on everything a scheduling class looks at.\<close>

definition same_queue :: "'a sched_scheme \<Rightarrow> 'a sched_scheme \<Rightarrow> bool" where
  "same_queue s s' \<longleftrightarrow>
     run_list s' = run_list s \<and> proc_num s' = proc_num s \<and> lab6_run_pool s' = lab6_run_pool s
     \<and> pool s' = pool s
     \<and> (\<forall>p. rq (procs s' p) = rq (procs s p) \<and> time_slice (procs s' p) = time_slice (procs s p)
            \<and> lab6_stride (procs s' p) = lab6_stride (procs s p))"

text \<open>The runnable processes that wait for the processor.\<close>

definition waiting :: "'a sched_scheme \<Rightarrow> nat set" where
  "waiting s = {p. state (procs s p) = PROC_RUNNABLE \<and> p \<noteq> current s \<and> p \<noteq> idleproc s}"

text \<open>What a clock tick leaves alone: it counts down a time slice and may ask for a reschedule.\<close>

definition tick_frame :: "'a sched_scheme \<Rightarrow> 'a sched_scheme \<Rightarrow> bool" where
  "tick_frame s s' \<longleftrightarrow>
     (\<forall>p. (procs s' p)\<lparr>time_slice := 0, need_resched := False\<rparr> = (procs s p)\<lparr>time_slice := 0, need_resched := False\<rparr>)
     \<and> current s' = current s \<and> idleproc s' = idleproc s \<and> timers s' = timers s \<and> timer_list s' = timer_list s
     \<and> sched.more s' = sched.more s"

lemma tick_frame_state:
  assumes "tick_frame s s'"
  shows "state (procs s' p) = state (procs s p)" and "wait_state (procs s' p) = wait_state (procs s p)"
proof -
  have "(procs s' p)\<lparr>time_slice := 0, need_resched := False\<rparr> = (procs s p)\<lparr>time_slice := 0, need_resched := False\<rparr>"
    using assms by (simp add: tick_frame_def)
  then show "state (procs s' p) = state (procs s p)" "wait_state (procs s' p) = wait_state (procs s p)"
    by (cases "procs s p"; cases "procs s' p"; simp)+
qed

locale sched_class_laws =
  fixes c :: "'a sched_scheme sched_class" and cinv :: "'a sched_scheme \<Rightarrow> bool"
    and queue :: "'a sched_scheme \<Rightarrow> nat set"
  assumes enqueue_law: "cinv s \<Longrightarrow> p \<notin> queue s \<Longrightarrow>
      \<exists>s'. enqueue c s p = Ok s' \<and> cinv s' \<and> queue s' = insert p (queue s) \<and> class_frame s s'"
    and dequeue_law: "cinv s \<Longrightarrow> p \<in> queue s \<Longrightarrow>
      \<exists>s'. dequeue c s p = Ok s' \<and> cinv s' \<and> queue s' = queue s - {p} \<and> class_frame s s'"
    and pick_law: "cinv s \<Longrightarrow>
      \<exists>r s'. pick_next c s = Ok (r, s') \<and> cinv s' \<and> queue s' = queue s \<and> class_frame s s'
        \<and> (case r of None \<Rightarrow> queue s = {} | Some p \<Rightarrow> p \<in> queue s)"
    and tick_law: "cinv s \<Longrightarrow> cinv (proc_tick c s p) \<and> queue (proc_tick c s p) = queue s \<and> tick_frame s (proc_tick c s p)"
    and queue_cong: "same_queue s s' \<Longrightarrow> cinv s' = cinv s \<and> queue s' = queue s"
begin

lemma wakeup_keeps_queue:
  assumes "cinv s" and "queue s = waiting s" and "state (procs s p) \<noteq> PROC_ZOMBIE"
    and idle: "state (procs s (idleproc s)) = PROC_RUNNABLE"
  shows "\<exists>s'. wakeup_proc c s p = Ok s' \<and> cinv s' \<and> queue s' = waiting s'
      \<and> (\<forall>q. state (procs s' q) = (if q = p then PROC_RUNNABLE else state (procs s q)))
      \<and> current s' = current s \<and> idleproc s' = idleproc s \<and> timers s' = timers s \<and> timer_list s' = timer_list s
      \<and> (\<forall>q. wait_state (procs s' q) =
           (if q = p \<and> state (procs s p) \<noteq> PROC_RUNNABLE then 0 else wait_state (procs s q)))"
proof (cases "state (procs s p) = PROC_RUNNABLE")
  case True
  then show ?thesis using assms by (auto simp: wakeup_proc_def)
next
  case False
  let ?s = "upd_proc (upd_proc s p (\<lambda>pr. pr\<lparr>state := PROC_RUNNABLE\<rparr>)) p (\<lambda>pr. pr\<lparr>wait_state := 0\<rparr>)"
  have "same_queue s ?s" by (simp add: same_queue_def)
  then have q: "cinv ?s" "queue ?s = waiting s" using queue_cong [of s ?s] assms(1,2) by auto
  have pi: "p \<noteq> idleproc s" using False idle by auto
  show ?thesis
  proof (cases "p = current s")
    case True
    have "queue ?s = waiting ?s" using q(2) True by (auto simp: waiting_def)
    then show ?thesis using q(1) True False assms(3) by (auto simp: wakeup_proc_def Let_def)
  next
    case pc: False
    have "p \<notin> queue ?s" using q(2) False by (simp add: waiting_def)
    then obtain s' where s': "enqueue c ?s p = Ok s'" "cinv s'" "queue s' = insert p (waiting s)"
      "class_frame ?s s'"
      using enqueue_law [OF q(1), of p] q(2) by auto
    have fields: "\<And>x. state (procs s' x) = state (procs ?s x)" "current s' = current s" "idleproc s' = idleproc s"
      "timers s' = timers s" "timer_list s' = timer_list s"
      "\<And>x. wait_state (procs s' x) = wait_state (procs ?s x)"
      using s'(4) class_frame_state [OF s'(4)] by (auto simp: class_frame_def)
    have "queue s' = waiting s'" using s'(3) fields(1-3) pc pi by (auto simp: waiting_def)
    moreover have "wakeup_proc c s p = Ok s'"
      using s'(1) pc pi False assms(3) by (simp add: wakeup_proc_def sched_class_enqueue_def)
    ultimately show ?thesis using s'(2) fields False by auto
  qed
qed

lemma schedule_keeps_queue:
  assumes inv: "cinv s" and w: "queue s = waiting s" and idle: "state (procs s (idleproc s)) = PROC_RUNNABLE"
  shows "\<exists>s'. schedule c s = Ok s' \<and> cinv s' \<and> queue s' = waiting s'
      \<and> (\<forall>q. state (procs s' q) = state (procs s q) \<and> wait_state (procs s' q) = wait_state (procs s q))
      \<and> idleproc s' = idleproc s \<and> timers s' = timers s \<and> timer_list s' = timer_list s
      \<and> state (procs s' (current s')) = PROC_RUNNABLE
      \<and> (current s' = idleproc s' \<longrightarrow> waiting s' = {})
      \<and> (current s' \<noteq> idleproc s' \<longrightarrow> current s' \<in> waiting s \<union> {current s})"
proof -
  let ?c = "current s" and ?i = "idleproc s"
  define s1 where "s1 = upd_proc s ?c (\<lambda>pr. pr\<lparr>need_resched := False\<rparr>)"
  have "same_queue s s1" by (simp add: same_queue_def s1_def)
  then have q1: "cinv s1" "queue s1 = waiting s" using queue_cong inv w by auto
  have st1: "\<And>q. state (procs s1 q) = state (procs s q)" "\<And>q. wait_state (procs s1 q) = wait_state (procs s q)"
    "current s1 = ?c" "idleproc s1 = ?i" "timers s1 = timers s" "timer_list s1 = timer_list s"
    by (simp_all add: s1_def)
  define A where "A = {p. state (procs s p) = PROC_RUNNABLE \<and> p \<noteq> ?i}"
  obtain s2 where s2: "(if state (procs s1 ?c) = PROC_RUNNABLE then sched_class_enqueue c s1 ?c else Ok s1) = Ok s2"
    "cinv s2" "queue s2 = A" "class_frame s1 s2"
  proof (cases "state (procs s ?c) = PROC_RUNNABLE \<and> ?c \<noteq> ?i")
    case True
    have "?c \<notin> queue s1" using q1(2) by (simp add: waiting_def)
    then obtain s2 where "enqueue c s1 ?c = Ok s2" "cinv s2" "queue s2 = insert ?c (waiting s)" "class_frame s1 s2"
      using enqueue_law [OF q1(1), of ?c] q1(2) by auto
    moreover have "insert ?c (waiting s) = A" using True by (auto simp: A_def waiting_def)
    ultimately show thesis using that True st1 by (auto simp: sched_class_enqueue_def)
  next
    case False
    then have "waiting s = A" by (auto simp: A_def waiting_def)
    then show thesis using that [of s1] q1 False st1 by (auto simp: sched_class_enqueue_def)
  qed
  obtain r s3 where s3: "pick_next c s2 = Ok (r, s3)" "cinv s3" "queue s3 = A" "class_frame s2 s3"
    "case r of None \<Rightarrow> A = {} | Some p \<Rightarrow> p \<in> A"
    using pick_law [OF s2(2)] s2(3) by auto
  define n where "n = (case r of None \<Rightarrow> ?i | Some p \<Rightarrow> p)"
  obtain s4 where s4: "(case r of None \<Rightarrow> Ok s3 | Some p \<Rightarrow> sched_class_dequeue c s3 p) = Ok s4"
    "cinv s4" "queue s4 = A - {n}" "class_frame s3 s4"
  proof (cases r)
    case None
    then show thesis using that [of s3] s3 by (auto simp: n_def)
  next
    case (Some p)
    then show thesis using that dequeue_law [OF s3(2), of p] s3(3,5)
      by (auto simp: n_def sched_class_dequeue_def)
  qed
  have fr: "class_frame s1 s4" using class_frame_trans s2(4) s3(4) s4(4) by blast
  define s5 where "s5 = upd_proc s4 n (\<lambda>pr. pr\<lparr>runs := runs pr + 1\<rparr>)"
  define s' where "s' = (if n \<noteq> current s5 then proc_run s5 n else s5)"
  have "same_queue s4 s'" by (simp add: same_queue_def s'_def s5_def proc_run_def)
  then have q': "cinv s'" "queue s' = A - {n}" using queue_cong s4(2,3) by auto
  have fld: "\<And>q. state (procs s' q) = state (procs s q)" "\<And>q. wait_state (procs s' q) = wait_state (procs s q)"
    "current s' = n" "idleproc s' = ?i" "timers s' = timers s" "timer_list s' = timer_list s"
    using class_frame_state [OF fr] class_frame_globals [OF fr] st1
    by (simp_all add: s'_def s5_def proc_run_def)
  have e2: "(if state (procs s1 (current s1)) = PROC_RUNNABLE
      then sched_class_enqueue c s1 (current s1) else Ok s1) = Ok s2"
    using s2(1) unfolding st1(3) .
  have n4: "(case r of None \<Rightarrow> idleproc s4 | Some p \<Rightarrow> p) = n"
    using class_frame_globals(2) [OF fr] st1(4) by (simp add: n_def split: option.split)
  have run: "schedule c s = Ok s'"
    unfolding schedule_def Let_def s1_def [symmetric] e2 sched_class_pick_next_def
    by (simp add: s3(1) s4(1) n4 s'_def s5_def)
  have nA: "n = ?i \<and> A = {} \<or> n \<in> A" using s3(5) by (auto simp: n_def split: option.splits)
  have w': "waiting s' = A - {n}" unfolding waiting_def A_def fld by blast
  have iA: "?i \<notin> A" by (simp add: A_def)
  have "state (procs s' (current s')) = PROC_RUNNABLE" using nA idle unfolding fld A_def by blast
  moreover have "current s' = idleproc s' \<longrightarrow> waiting s' = {}" using nA iA unfolding w' fld by blast
  moreover have "current s' \<noteq> idleproc s' \<longrightarrow> current s' \<in> waiting s \<union> {current s}"
    using nA unfolding fld A_def waiting_def by blast
  ultimately show ?thesis using run q' w' fld by metis
qed

lemma step_keeps_queue:
  assumes "cinv s" and "queue s = waiting s" and idle: "state (procs s (idleproc s)) = PROC_RUNNABLE"
  shows "\<exists>s'. sched_step c e s = Ok s' \<and> cinv s' \<and> queue s' = waiting s'
      \<and> state (procs s' (idleproc s')) = PROC_RUNNABLE"
proof (cases e)
  case Resched
  obtain s' where "schedule c s = Ok s'" "cinv s'" "queue s' = waiting s'" "idleproc s' = idleproc s"
    "\<forall>q. state (procs s' q) = state (procs s q) \<and> wait_state (procs s' q) = wait_state (procs s q)"
    using schedule_keeps_queue [OF assms] by blast
  then show ?thesis using idle Resched by simp
next
  case (Wake p)
  show ?thesis
  proof (cases "state (procs s p) \<noteq> PROC_ZOMBIE")
    case z: True
    obtain s' where "wakeup_proc c s p = Ok s'" "cinv s'" "queue s' = waiting s'" "idleproc s' = idleproc s"
      "\<forall>q. state (procs s' q) = (if q = p then PROC_RUNNABLE else state (procs s q))"
      using wakeup_keeps_queue [OF assms(1,2) z idle] by blast
    then show ?thesis using idle Wake z by simp
  next
    case False
    then show ?thesis using assms Wake by simp
  qed
next
  case (Sleep ws)
  define t where "t = (if current s = idleproc s then s
    else upd_proc s (current s) (\<lambda>pr. pr\<lparr>state := PROC_SLEEPING, wait_state := ws\<rparr>))"
  have "same_queue s t" by (simp add: same_queue_def t_def)
  then have "cinv t" "queue t = waiting s" using queue_cong assms(1,2) by auto
  moreover have "waiting t = waiting s" by (auto simp: waiting_def t_def)
  moreover have idt: "state (procs t (idleproc t)) = PROC_RUNNABLE" using idle by (simp add: t_def)
  ultimately obtain s' where "schedule c t = Ok s'" "cinv s'" "queue s' = waiting s'" "idleproc s' = idleproc t"
    "\<forall>q. state (procs s' q) = state (procs t q) \<and> wait_state (procs s' q) = wait_state (procs t q)"
    using schedule_keeps_queue [of t] by auto
  moreover have "sched_step c e s = schedule c t" using Sleep by (simp add: t_def)
  ultimately show ?thesis using idt by simp
qed

lemma run_keeps_queue:
  "cinv s \<Longrightarrow> queue s = waiting s \<Longrightarrow> state (procs s (idleproc s)) = PROC_RUNNABLE \<Longrightarrow>
   \<exists>s'. sched_run c es s = Ok s' \<and> cinv s' \<and> queue s' = waiting s'
     \<and> state (procs s' (idleproc s')) = PROC_RUNNABLE"
proof (induction es arbitrary: s)
  case (Cons e es)
  obtain s1 where "sched_step c e s = Ok s1" "cinv s1" "queue s1 = waiting s1"
    "state (procs s1 (idleproc s1)) = PROC_RUNNABLE"
    using step_keeps_queue [OF Cons.prems] by blast
  then show ?case using Cons.IH [of s1] by simp
qed simp

end

end
