(* ===== verification/Sched_Timer.thy ===== *)
theory Sched_Timer
  imports Sched_Class
begin

text \<open>
  The timers of \<open>kern/schedule/sched.c\<close>. The kernel keeps them in a list in which each timer holds the
  number of ticks after its predecessor; the abstract view \<open>due\<close> gives the ticks that each pending
  timer has left. Adding, removing and the clock tick are shown to be the obvious operations on that
  map, for every scheduling class that keeps \<open>sched_class_laws\<close>.
\<close>

section \<open>The code\<close>

definition timer_init :: "'a sched_scheme \<Rightarrow> nat \<Rightarrow> nat \<Rightarrow> int \<Rightarrow> 'a sched_scheme" where
  "timer_init s t p n =
     (let s1 = upd_timer s t (\<lambda>x. x\<lparr>expires := word_of_int n, tproc := Some p\<rparr>)
      in s1\<lparr>timer_list := list_init (timer_list s1) (TimerLink t)\<rparr>)"

partial_function (option) add_timer_loop ::
  "'a sched_scheme \<Rightarrow> nat \<Rightarrow> tnode \<Rightarrow> ('a sched_scheme \<times> tnode) option" where
  "add_timer_loop s t le =
     (if le = TimerList then Some (s, le)
      else if expires (timers s t) < expires (timers s (le2timer le))
      then Some (upd_timer s (le2timer le) (\<lambda>x. x\<lparr>expires := expires x - expires (timers s t)\<rparr>), le)
      else add_timer_loop (upd_timer s t (\<lambda>x. x\<lparr>expires := expires x - expires (timers s (le2timer le))\<rparr>)) t
             (list_next (timer_list s) le))"

definition add_timer :: "'a sched_scheme \<Rightarrow> nat \<Rightarrow> 'a sched_scheme res" where
  "add_timer s t =
     assert_c (0 < expires (timers s t) \<and> tproc (timers s t) \<noteq> None)
       (assert_c (list_empty (timer_list s) (TimerLink t))
         (case add_timer_loop s t (list_next (timer_list s) TimerList) of
            None \<Rightarrow> Diverge
          | Some (s1, le) \<Rightarrow> Ok (s1\<lparr>timer_list := list_add_before (timer_list s1) le (TimerLink t)\<rparr>)))"

definition del_timer :: "'a sched_scheme \<Rightarrow> nat \<Rightarrow> 'a sched_scheme" where
  "del_timer s t =
     (if \<not> list_empty (timer_list s) (TimerLink t) then
        (let s1 =
           (if expires (timers s t) \<noteq> 0 then
              (let le = list_next (timer_list s) (TimerLink t)
               in if le \<noteq> TimerList
                  then upd_timer s (le2timer le) (\<lambda>x. x\<lparr>expires := expires x + expires (timers s t)\<rparr>)
                  else s)
            else s)
         in s1\<lparr>timer_list := list_del_init (timer_list s1) (TimerLink t)\<rparr>)
      else s)"

partial_function (option) expire_loop ::
  "'a sched_scheme sched_class \<Rightarrow> 'a sched_scheme \<Rightarrow> tnode \<Rightarrow> nat \<Rightarrow> 'a sched_scheme res option" where
  "expire_loop c s le t =
     (if expires (timers s t) \<noteq> 0 then Some (Ok s)
      else (case tproc (timers s t) of
          None \<Rightarrow> Some Panic
        | Some p \<Rightarrow>
            if wait_state (procs s p) \<noteq> 0 \<and> and (wait_state (procs s p)) WT_INTERRUPTED = 0 then Some Panic
            else (case wakeup_proc c s p of
                Panic \<Rightarrow> Some Panic
              | Diverge \<Rightarrow> Some Diverge
              | Ok s1 \<Rightarrow>
                  if list_next (timer_list s) le = TimerList then Some (Ok (del_timer s1 t))
                  else expire_loop c (del_timer s1 t) (list_next (timer_list s) le)
                         (le2timer (list_next (timer_list s) le)))))"

definition run_timer_list :: "'a sched_scheme sched_class \<Rightarrow> 'a sched_scheme \<Rightarrow> 'a sched_scheme res" where
  "run_timer_list c s =
     (let le = list_next (timer_list s) TimerList in
      res_bind
        (if le \<noteq> TimerList then
           (let t = le2timer le in
            assert_c (expires (timers s t) \<noteq> 0)
              (case expire_loop c (upd_timer s t (\<lambda>x. x\<lparr>expires := expires x - 1\<rparr>)) le t of
                 None \<Rightarrow> Diverge | Some r \<Rightarrow> r))
         else Ok s)
        (\<lambda>s1. Ok (sched_class_proc_tick c s1 (current s1))))"

section \<open>Ticks left\<close>

fun due_from :: "(nat \<Rightarrow> timer) \<Rightarrow> nat \<Rightarrow> nat list \<Rightarrow> nat \<rightharpoonup> nat" where
  "due_from T a [] = Map.empty"
| "due_from T a (t # ts) =
     (due_from T (a + unat (expires (T t))) ts)(t \<mapsto> a + unat (expires (T t)))"

abbreviation due :: "'a sched_scheme \<Rightarrow> nat list \<Rightarrow> nat \<rightharpoonup> nat" where
  "due s ts \<equiv> due_from (timers s) 0 ts"

lemma due_from_none: "x \<notin> set ts \<Longrightarrow> due_from T a ts x = None"
  by (induction ts arbitrary: a) auto

lemma due_from_some: "x \<in> set ts \<Longrightarrow> \<exists>n. due_from T a ts x = Some n \<and> a \<le> n"
proof (induction ts arbitrary: a)
  case (Cons t ts)
  show ?case
  proof (cases "x = t")
    case False
    then show ?thesis using Cons.IH [of "a + unat (expires (T t))"] Cons.prems by force
  qed simp
qed simp

lemma due_from_cong:
  "(\<And>x. x \<in> set ts \<Longrightarrow> expires (T x) = expires (T' x)) \<Longrightarrow> due_from T a ts = due_from T' a ts"
  by (induction ts arbitrary: a) auto

lemma due_from_less:
  assumes "\<forall>n \<in> ran (due_from T a (t # ts)). n < m"
  shows "a + unat (expires (T t)) < m" and "\<forall>n \<in> ran (due_from T (a + unat (expires (T t))) ts). n < m \<or> t \<in> set ts"
proof -
  have "due_from T a (t # ts) t = Some (a + unat (expires (T t)))" by simp
  then show "a + unat (expires (T t)) < m" using assms ranI by fast
  show "\<forall>n \<in> ran (due_from T (a + unat (expires (T t))) ts). n < m \<or> t \<in> set ts"
  proof
    fix n assume "n \<in> ran (due_from T (a + unat (expires (T t))) ts)"
    then obtain x where x: "due_from T (a + unat (expires (T t))) ts x = Some n" by (auto simp: ran_def)
    show "n < m \<or> t \<in> set ts"
    proof (cases "x = t")
      case True
      then show ?thesis using x due_from_none by fastforce
    next
      case False
      then have "due_from T a (t # ts) x = Some n" using x by simp
      then show ?thesis using assms ranI by fast
    qed
  qed
qed

text \<open>A larger first entry shifts everything behind it.\<close>

lemma due_from_shift: "due_from T (a + b) ts x = map_option (\<lambda>n. n + b) (due_from T a ts x)"
proof (induction ts arbitrary: a)
  case (Cons t ts)
  show ?case using Cons [of "a + unat (expires (T t))"] by (simp add: ac_simps)
qed simp

definition timers_rep :: "'a sched_scheme \<Rightarrow> nat list \<Rightarrow> bool" where
  "timers_rep s ts \<longleftrightarrow>
     dl_rep (timer_list s) TimerList (map TimerLink ts)
     \<and> (\<forall>t. t \<notin> set ts \<longrightarrow> list_empty (timer_list s) (TimerLink t))
     \<and> (\<forall>n \<in> ran (due s ts). n < 2 ^ 32)"

definition timers_ok :: "'a sched_scheme \<Rightarrow> nat list \<Rightarrow> bool" where
  "timers_ok s ts \<longleftrightarrow> timers_rep s ts \<and> (\<forall>n \<in> ran (due s ts). 0 < n)"

lemma timers_distinct: "timers_rep s ts \<Longrightarrow> distinct ts"
  by (auto simp: timers_rep_def dl_rep_def distinct_map)

section \<open>Adding a timer\<close>

lemma add_timer_loop_due:
  assumes "dl_rep (timer_list s) TimerList (map TimerLink (as @ bs))" and "t \<notin> set bs" and "distinct bs"
  shows "\<exists>s' cs ds. add_timer_loop s t (hd (map TimerLink bs @ [TimerList])) = Some (s', hd (map TimerLink ds @ [TimerList]))
    \<and> bs = cs @ ds \<and> s' = s\<lparr>timers := timers s'\<rparr>
    \<and> (\<forall>x. tproc (timers s' x) = tproc (timers s x)) \<and> (\<forall>x. x \<notin> set bs \<union> {t} \<longrightarrow> timers s' x = timers s x)
    \<and> due_from (timers s') a (cs @ t # ds) = (due_from (timers s) a bs)(t \<mapsto> a + unat (expires (timers s t)))"
  using assms
proof (induction bs arbitrary: s as a)
  case Nil
  show ?case by (intro exI [of _ s] exI [of _ "[]"]) (simp add: add_timer_loop.simps)
next
  case (Cons b bs)
  let ?e = "expires (timers s t)" and ?b = "expires (timers s b)"
  have bt: "b \<noteq> t" "b \<notin> set bs" "t \<notin> set bs" using Cons.prems by auto
  show ?case
  proof (cases "?e < ?b")
    case True
    let ?s = "upd_timer s b (\<lambda>x. x\<lparr>expires := expires x - ?e\<rparr>)"
    have le: "unat ?e \<le> unat ?b" using True by (simp add: word_less_nat_alt)
    have "unat (?b - ?e) = unat ?b - unat ?e" using True by (simp add: unat_sub)
    moreover have "due_from (timers ?s) k bs = due_from (timers s) k bs" for k
      using bt by (intro due_from_cong) auto
    ultimately have "due_from (timers ?s) a ([] @ t # b # bs) = (due_from (timers s) a (b # bs))(t \<mapsto> a + unat ?e)"
      using le bt by (simp add: fun_upd_twist)
    moreover have "add_timer_loop s t (hd (map TimerLink (b # bs) @ [TimerList]))
        = Some (?s, hd (map TimerLink (b # bs) @ [TimerList]))"
      using True by (simp add: add_timer_loop.simps)
    moreover have "?s = s\<lparr>timers := timers ?s\<rparr>" by (simp add: upd_timer_def)
    moreover have "\<forall>x. tproc (timers ?s x) = tproc (timers s x)" by simp
    moreover have "\<forall>x. x \<notin> set (b # bs) \<union> {t} \<longrightarrow> timers ?s x = timers s x" by simp
    moreover have "b # bs = [] @ b # bs" by simp
    ultimately show ?thesis by blast
  next
    case False
    let ?s = "upd_timer s t (\<lambda>x. x\<lparr>expires := expires x - ?b\<rparr>)"
    have le: "unat ?b \<le> unat ?e" using False by (simp add: word_less_nat_alt)
    have sub: "unat (?e - ?b) = unat ?e - unat ?b" using False by (simp add: unat_sub not_less)
    have "list_next (timer_list s) (TimerLink b) = hd (map TimerLink bs @ [TimerList])"
      using dl_rep_next [of "timer_list s" TimerList "map TimerLink as" "TimerLink b" "map TimerLink bs"] Cons.prems(1)
      by (cases bs) simp_all
    then have step: "add_timer_loop s t (TimerLink b) = add_timer_loop ?s t (hd (map TimerLink bs @ [TimerList]))"
      using False by (simp add: add_timer_loop.simps [of s t "TimerLink b"])
    have pre: "dl_rep (timer_list ?s) TimerList (map TimerLink ((as @ [b]) @ bs))" "distinct bs"
      using Cons.prems by simp_all
    obtain s' cs ds where IH: "add_timer_loop ?s t (hd (map TimerLink bs @ [TimerList])) = Some (s', hd (map TimerLink ds @ [TimerList]))"
      "bs = cs @ ds" "s' = ?s\<lparr>timers := timers s'\<rparr>" "\<forall>x. tproc (timers s' x) = tproc (timers ?s x)"
      "\<forall>x. x \<notin> set bs \<union> {t} \<longrightarrow> timers s' x = timers ?s x"
      "due_from (timers s') (a + unat ?b) (cs @ t # ds)
         = (due_from (timers ?s) (a + unat ?b) bs)(t \<mapsto> (a + unat ?b) + unat (expires (timers ?s t)))"
      using Cons.IH [OF pre(1) bt(3) pre(2), of "a + unat ?b"] by blast
    have same: "due_from (timers ?s) k bs = due_from (timers s) k bs" for k
      using bt by (intro due_from_cong) auto
    have "timers s' b = timers s b" using IH(5) bt by auto
    then have "due_from (timers s') a ((b # cs) @ t # ds) = (due_from (timers s) a (b # bs))(t \<mapsto> a + unat ?e)"
      using IH(6) same sub le bt by (simp add: fun_upd_twist)
    moreover have "\<forall>x. x \<notin> set (b # bs) \<union> {t} \<longrightarrow> timers s' x = timers s x" using IH(5) by simp
    moreover have "\<forall>x. tproc (timers s' x) = tproc (timers s x)" using IH(4) by simp
    moreover have "s' = s\<lparr>timers := timers s'\<rparr>" using IH(3) by (simp add: upd_timer_def)
    moreover have "b # bs = (b # cs) @ ds" using IH(2) by simp
    moreover have "add_timer_loop s t (hd (map TimerLink (b # bs) @ [TimerList])) = Some (s', hd (map TimerLink ds @ [TimerList]))"
      using step IH(1) by simp
    ultimately show ?thesis by blast
  qed
qed

lemma timers_link_add:
  assumes rep: "dl_rep (timer_list s) TimerList (map TimerLink (cs @ ds))"
    and un: "\<forall>x. x \<notin> set (cs @ ds) \<longrightarrow> list_empty (timer_list s) (TimerLink x)" and t: "t \<notin> set (cs @ ds)"
  shows "let h = list_add_before (timer_list s) (hd (map TimerLink ds @ [TimerList])) (TimerLink t)
    in dl_rep h TimerList (map TimerLink (cs @ t # ds)) \<and> (\<forall>x. x \<notin> set (cs @ t # ds) \<longrightarrow> list_empty h (TimerLink x))"
proof -
  let ?le = "hd (map TimerLink ds @ [TimerList])"
  let ?h = "list_add_before (timer_list s) ?le (TimerLink t)"
  have le: "?le \<in> set (TimerList # map TimerLink (cs @ ds))" by (cases ds) auto
  have "dl_rep ?h TimerList (map TimerLink (cs @ t # ds))"
  proof (cases ds)
    case Nil
    then show ?thesis using dl_rep_add_before_head [OF rep, of "TimerLink t"] t by auto
  next
    case (Cons d es)
    then show ?thesis
      using dl_rep_add_before [of "timer_list s" TimerList "map TimerLink cs" "TimerLink d" "map TimerLink es" "TimerLink t"]
        rep t by auto
  qed
  moreover have "list_empty ?h (TimerLink x)" if "x \<notin> set (cs @ t # ds)" for x
    using list_add_before_frame(1) [OF rep le, of "TimerLink x" "TimerLink t"] un that by (auto simp: list_empty_def)
  ultimately show ?thesis by (simp add: Let_def)
qed

lemma add_timer_ok:
  assumes ok: "timers_ok s ts" and t: "t \<notin> set ts" and e: "0 < expires (timers s t)" and p: "tproc (timers s t) \<noteq> None"
  shows "\<exists>s' cs ds. add_timer s t = Ok s' \<and> ts = cs @ ds \<and> timers_ok s' (cs @ t # ds)
    \<and> due s' (cs @ t # ds) = (due s ts)(t \<mapsto> unat (expires (timers s t)))
    \<and> s' = s\<lparr>timers := timers s', timer_list := timer_list s'\<rparr> \<and> (\<forall>x. tproc (timers s' x) = tproc (timers s x))"
proof -
  have rep: "dl_rep (timer_list s) TimerList (map TimerLink ts)" and d: "distinct ts"
    and un: "\<forall>x. x \<notin> set ts \<longrightarrow> list_empty (timer_list s) (TimerLink x)"
    using ok timers_distinct [of s ts] by (auto simp: timers_ok_def timers_rep_def)
  obtain s1 cs ds where s1: "add_timer_loop s t (hd (map TimerLink ts @ [TimerList])) = Some (s1, hd (map TimerLink ds @ [TimerList]))"
    "ts = cs @ ds" "s1 = s\<lparr>timers := timers s1\<rparr>" "\<forall>x. tproc (timers s1 x) = tproc (timers s x)"
    "due s1 (cs @ t # ds) = (due s ts)(t \<mapsto> unat (expires (timers s t)))"
    using add_timer_loop_due [of s "[]" ts t 0] rep t d by auto
  have tl: "timer_list s1 = timer_list s" using s1(3) by (metis sched.select_convs(10) sched.surjective sched.update_convs(9))
  define s' where "s' = s1\<lparr>timer_list := list_add_before (timer_list s1) (hd (map TimerLink ds @ [TimerList])) (TimerLink t)\<rparr>"
  have "list_next (timer_list s) TimerList = hd (map TimerLink ts @ [TimerList])"
    using dl_rep_next_head [OF rep] by (cases ts) auto
  then have run: "add_timer s t = Ok s'" using e p un t s1(1) by (simp add: add_timer_def s'_def word_greater_zero_iff)
  have "due s' (cs @ t # ds) = (due s ts)(t \<mapsto> unat (expires (timers s t)))" using s1(5) by (simp add: s'_def)
  moreover have "dl_rep (timer_list s') TimerList (map TimerLink (cs @ t # ds))"
    "\<forall>x. x \<notin> set (cs @ t # ds) \<longrightarrow> list_empty (timer_list s') (TimerLink x)"
    using timers_link_add [of s cs ds t] rep un t s1(2) by (simp_all add: s'_def tl Let_def)
  moreover have "0 < unat (expires (timers s t))" using e by (simp add: word_less_nat_alt)
  ultimately have "timers_ok s' (cs @ t # ds)"
    using ok unat_u32_less by (auto simp: timers_ok_def timers_rep_def ran_def split: if_splits)
  moreover have "s' = s\<lparr>timers := timers s', timer_list := timer_list s'\<rparr>" using s1(3) by (simp add: s'_def)
  moreover have "\<forall>x. tproc (timers s' x) = tproc (timers s x)" using s1(4) by (simp add: s'_def)
  ultimately show ?thesis using run s1(2) \<open>due s' _ = _\<close> by blast
qed

section \<open>Removing a timer\<close>

lemma due_from_remove:
  assumes "distinct (as @ t # bs)" and "\<And>x. x \<in> set (as @ bs) \<Longrightarrow> x \<notin> set (take 1 bs) \<Longrightarrow> expires (T' x) = expires (T x)"
    and "\<And>b. b \<in> set (take 1 bs) \<Longrightarrow> unat (expires (T' b)) = unat (expires (T t)) + unat (expires (T b))"
  shows "due_from T' a (as @ bs) = (due_from T a (as @ t # bs))(t := None)"
  using assms
proof (induction as arbitrary: a)
  case Nil
  show ?case
  proof (cases bs)
    case (Cons b cs)
    have "due_from T' k cs = due_from T k cs" for k
      by (rule due_from_cong) (use Nil Cons in auto)
    moreover have "due_from T k cs t = None" for k by (rule due_from_none) (use Nil.prems(1) Cons in auto)
    moreover have "t \<noteq> b" using Nil.prems(1) Cons by auto
    ultimately show ?thesis using Nil.prems(3) [of b] Cons by (auto simp: fun_eq_iff ac_simps)
  qed (simp add: fun_eq_iff)
next
  case (Cons x as)
  have "x \<notin> set (take 1 bs)" using Cons.prems(1) by (auto dest: in_set_takeD)
  then have "expires (T' x) = expires (T x)" using Cons.prems(2) by simp
  moreover have "x \<noteq> t" using Cons.prems(1) by auto
  moreover have "due_from T' (a + unat (expires (T x))) (as @ bs)
      = (due_from T (a + unat (expires (T x))) (as @ t # bs))(t := None)"
    by (rule Cons.IH) (use Cons.prems in auto)
  ultimately show ?case by (auto simp: fun_eq_iff)
qed

lemma due_from_gap:
  assumes "\<forall>n \<in> ran (due_from T a (as @ t # b # bs)). n < m" and "distinct (as @ t # b # bs)"
  shows "unat (expires (T t)) + unat (expires (T b)) < m"
  using assms
proof (induction as arbitrary: a)
  case Nil
  then have "due_from T a (t # b # bs) b = Some (a + unat (expires (T t)) + unat (expires (T b)))" by auto
  then have "a + unat (expires (T t)) + unat (expires (T b)) < m" using Nil.prems(1) ranI by fastforce
  then show ?case by simp
next
  case (Cons x as)
  have "n < m" if "n \<in> ran (due_from T (a + unat (expires (T x))) (as @ t # b # bs))" for n
    using due_from_less(2) [OF Cons.prems(1) [unfolded append_Cons]] Cons.prems(2) that by auto
  then show ?case using Cons.IH Cons.prems(2) by auto
qed

lemma del_timer_ok:
  assumes rep: "timers_rep s (as @ t # bs)"
  shows "timers_rep (del_timer s t) (as @ bs)" and "due (del_timer s t) (as @ bs) = (due s (as @ t # bs))(t := None)"
    and "del_timer s t = s\<lparr>timers := timers (del_timer s t), timer_list := timer_list (del_timer s t)\<rparr>"
    and "tproc (timers (del_timer s t) x) = tproc (timers s x)"
proof -
  have dl: "dl_rep (timer_list s) TimerList (map TimerLink as @ TimerLink t # map TimerLink bs)"
    and un: "\<forall>x. x \<notin> set (as @ t # bs) \<longrightarrow> list_empty (timer_list s) (TimerLink x)"
    and bound: "\<forall>n \<in> ran (due s (as @ t # bs)). n < 2 ^ 32" and d: "distinct (as @ t # bs)"
    using rep timers_distinct [OF rep] by (auto simp: timers_rep_def)
  let ?h = "list_del_init (timer_list s) (TimerLink t)"
  define T' where "T' = (case bs of [] \<Rightarrow> timers s
     | b # _ \<Rightarrow> (timers s)(b := (timers s b)\<lparr>expires := expires (timers s b) + expires (timers s t)\<rparr>))"
  have nx: "list_next (timer_list s) (TimerLink t) = (case bs of [] \<Rightarrow> TimerList | b # _ \<Rightarrow> TimerLink b)"
    using dl_rep_next [OF dl] by (cases bs) auto
  have ne: "\<not> list_empty (timer_list s) (TimerLink t)" using dl_rep_linked [OF dl, of "TimerLink t"] by simp
  have eq: "del_timer s t = s\<lparr>timers := T', timer_list := ?h\<rparr>"
    using ne nx by (cases bs) (simp_all add: del_timer_def T'_def upd_timer_def Let_def)
  show due': "due (del_timer s t) (as @ bs) = (due s (as @ t # bs))(t := None)"
    unfolding eq
  proof (simp, rule due_from_remove [OF d])
    fix b assume "b \<in> set (take 1 bs)"
    then obtain cs where b: "bs = b # cs" by (cases bs) auto
    have "unat (expires (timers s t)) + unat (expires (timers s b)) < 2 ^ 32"
      using due_from_gap [of "timers s" 0 as t b cs] bound d b by blast
    then show "unat (expires (T' b)) = unat (expires (timers s t)) + unat (expires (timers s b))"
      using b by (simp add: T'_def unat_add_u32 add.commute)
  qed (cases bs; auto simp: T'_def)
  have "dl_rep ?h TimerList (map TimerLink (as @ bs))" using dl_rep_del_init(1) [OF dl] by simp
  moreover have "list_empty ?h (TimerLink x)" if "x \<notin> set (as @ bs)" for x
  proof (cases "x = t")
    case True
    then show ?thesis using dl_rep_del_init(2) [OF dl] by simp
  next
    case False
    then show ?thesis using list_del_init_frame(1) [OF dl, of "TimerLink t" "TimerLink x"] un that
      by (auto simp: list_empty_def)
  qed
  moreover have "\<forall>n \<in> ran (due (del_timer s t) (as @ bs)). n < 2 ^ 32"
    using bound unfolding due' by (auto simp: ran_def split: if_splits)
  ultimately show "timers_rep (del_timer s t) (as @ bs)" by (simp add: timers_rep_def eq)
  show "del_timer s t = s\<lparr>timers := timers (del_timer s t), timer_list := timer_list (del_timer s t)\<rparr>"
    by (simp add: eq)
  show "tproc (timers (del_timer s t) x) = tproc (timers s x)" by (cases bs) (simp_all add: eq T'_def)
qed

section \<open>The clock tick\<close>

text \<open>Every pending timer belongs to a process that can be woken.\<close>

definition sleepers_ok :: "'a sched_scheme \<Rightarrow> nat list \<Rightarrow> bool" where
  "sleepers_ok s ts \<longleftrightarrow> (\<forall>t \<in> set ts. \<exists>p. tproc (timers s t) = Some p \<and> state (procs s p) \<noteq> PROC_ZOMBIE
     \<and> (wait_state (procs s p) = 0 \<or> and (wait_state (procs s p)) WT_INTERRUPTED \<noteq> 0))"

definition live :: "nat option \<Rightarrow> nat option" where
  "live d = (if d = Some 0 then None else d)"

definition expired :: "'a sched_scheme \<Rightarrow> nat list \<Rightarrow> nat \<Rightarrow> nat set" where
  "expired s ts n = {p. \<exists>t. due s ts t = Some n \<and> tproc (timers s t) = Some p}"

lemma del_timer_expired:
  assumes "timers_rep s (t # ts)" and "expires (timers s t) = 0"
  shows "timers_rep (del_timer s t) ts" and "timers (del_timer s t) = timers s"
    and "procs (del_timer s t) = procs s" and "current (del_timer s t) = current s"
    and "idleproc (del_timer s t) = idleproc s" and "same_queue s (del_timer s t)"
proof -
  show "timers_rep (del_timer s t) ts" using del_timer_ok(1) [of s "[]" t ts] assms(1) by simp
  show "timers (del_timer s t) = timers s" "procs (del_timer s t) = procs s" "current (del_timer s t) = current s"
    "idleproc (del_timer s t) = idleproc s" "same_queue s (del_timer s t)"
    using assms(2) by (simp_all add: del_timer_def same_queue_def)
qed

lemma timers_rep_cong:
  "timers s' = timers s \<Longrightarrow> timer_list s' = timer_list s \<Longrightarrow> timers_rep s' ts = timers_rep s ts"
  by (simp add: timers_rep_def)

lemma due_positive:
  assumes "expires (timers s t) \<noteq> 0"
  shows "\<forall>n \<in> ran (due s (t # ts)). 0 < n"
proof
  fix n assume "n \<in> ran (due s (t # ts))"
  then obtain x where x: "due s (t # ts) x = Some n" by (auto simp: ran_def)
  have e: "0 < unat (expires (timers s t))" using assms by (simp add: unat_gt_0)
  show "0 < n"
  proof (cases "x = t")
    case False
    then have d: "due_from (timers s) (unat (expires (timers s t))) ts x = Some n" using x by simp
    then have "x \<in> set ts" using due_from_none by fastforce
    then show ?thesis using due_from_some [of x ts "timers s" "unat (expires (timers s t))"] d e by auto
  qed (use x e in auto)
qed

lemma expired_first:
  assumes "timers_rep s (t # ts)" and "expires (timers s t) = 0" and "tproc (timers s t) = Some p"
  shows "expired s (t # ts) 0 = insert p (expired s ts 0)"
proof -
  have d: "due s (t # ts) = (due s ts)(t \<mapsto> 0)" using assms(2) by simp
  have "due s ts t = None" using timers_distinct [OF assms(1)] by (simp add: due_from_none)
  then show ?thesis unfolding expired_def d using assms(3) by (auto split: if_splits) (metis option.distinct(1))
qed

lemma due_tick:
  assumes "timers_rep s (t # ts)" and "expires (timers s t) \<noteq> 0"
  shows "due (upd_timer s t (\<lambda>x. x\<lparr>expires := expires x - 1\<rparr>)) (t # ts) x = map_option (\<lambda>n. n - 1) (due s (t # ts) x)"
proof -
  let ?s = "upd_timer s t (\<lambda>x. x\<lparr>expires := expires x - 1\<rparr>)" and ?e = "unat (expires (timers s t))"
  have e: "unat (expires (timers s t) - 1) = ?e - 1" and pos: "?e = (?e - 1) + 1"
    using assms(2) by (simp_all add: unat_minus_one unat_gt_0)
  have "due_from (timers ?s) k ts = due_from (timers s) k ts" for k
    using timers_distinct [OF assms(1)] by (intro due_from_cong) auto
  moreover have "due_from (timers s) ?e ts x = map_option (\<lambda>n. n + 1) (due_from (timers s) (?e - 1) ts x)"
    by (subst pos) (rule due_from_shift)
  then have "map_option (\<lambda>n. n - 1) (due_from (timers s) ?e ts x) = due_from (timers s) (?e - 1) ts x"
    by (simp add: option.map_comp comp_def option.map_id [unfolded id_def])
  ultimately show ?thesis using e by simp
qed

lemma expired_tick:
  assumes "timers_ok s (t # ts)" and "expires (timers s t) \<noteq> 0"
  shows "expired (upd_timer s t (\<lambda>x. x\<lparr>expires := expires x - 1\<rparr>)) (t # ts) 0 = expired s (t # ts) 1"
proof -
  let ?s = "upd_timer s t (\<lambda>x. x\<lparr>expires := expires x - 1\<rparr>)"
  have rep: "timers_rep s (t # ts)" using assms(1) unfolding timers_ok_def by blast
  have "due ?s (t # ts) x = Some 0 \<longleftrightarrow> due s (t # ts) x = Some 1" for x
  proof (cases "due s (t # ts) x")
    case (Some n)
    then have "0 < n" using assms(1) ranI [of "due s (t # ts)" x n] unfolding timers_ok_def by blast
    then show ?thesis unfolding due_tick [OF rep assms(2)] Some by auto
  qed (simp only: due_tick [OF rep assms(2)] option.map option.distinct)
  moreover have "tproc (timers ?s x) = tproc (timers s x)" for x by simp
  ultimately show ?thesis unfolding expired_def by presburger
qed

context sched_class_laws
begin

lemma expire_step:
  assumes rep: "timers_rep s (t # ts)" and sl: "sleepers_ok s (t # ts)" and inv: "cinv s" "queue s = waiting s"
    and idle: "state (procs s (idleproc s)) = PROC_RUNNABLE" and z: "expires (timers s t) = 0"
  shows "\<exists>s2 p. expire_loop c s (TimerLink t) t
        = (case ts of [] \<Rightarrow> Some (Ok s2) | u # _ \<Rightarrow> expire_loop c s2 (TimerLink u) u)
    \<and> timers_rep s2 ts \<and> sleepers_ok s2 ts \<and> cinv s2 \<and> queue s2 = waiting s2
    \<and> timers s2 = timers s \<and> current s2 = current s \<and> idleproc s2 = idleproc s \<and> tproc (timers s t) = Some p
    \<and> (\<forall>q. state (procs s2 q) = (if q = p then PROC_RUNNABLE else state (procs s q)))"
proof -
  obtain p where p: "tproc (timers s t) = Some p" "state (procs s p) \<noteq> PROC_ZOMBIE"
    "wait_state (procs s p) = 0 \<or> and (wait_state (procs s p)) WT_INTERRUPTED \<noteq> 0"
    using sl by (auto simp: sleepers_ok_def)
  obtain s1 where s1: "wakeup_proc c s p = Ok s1" "cinv s1" "queue s1 = waiting s1" "current s1 = current s"
    "idleproc s1 = idleproc s" "timers s1 = timers s" "timer_list s1 = timer_list s"
    "\<forall>q. state (procs s1 q) = (if q = p then PROC_RUNNABLE else state (procs s q))"
    "\<forall>q. wait_state (procs s1 q) = (if q = p \<and> state (procs s p) \<noteq> PROC_RUNNABLE then 0 else wait_state (procs s q))"
    using wakeup_keeps_queue [OF inv p(2) idle] by blast
  have rep1: "timers_rep s1 (t # ts)" using timers_rep_cong [OF s1(6,7)] rep by simp
  have z1: "expires (timers s1 t) = 0" using z s1(6) by simp
  note del = del_timer_expired [OF rep1 z1]
  let ?s2 = "del_timer s1 t"
  have "cinv ?s2" "queue ?s2 = waiting s1" using queue_cong [OF del(6)] s1(2,3) by auto
  moreover have "waiting s1 = waiting ?s2" by (simp add: waiting_def del(3-5))
  moreover have "sleepers_ok ?s2 ts"
    using sl s1(8,9) unfolding sleepers_ok_def del(2,3) s1(6) by fastforce
  moreover have "list_next (timer_list s) (TimerLink t) = (case ts of [] \<Rightarrow> TimerList | u # _ \<Rightarrow> TimerLink u)"
    using dl_rep_next [of "timer_list s" TimerList "[]" "TimerLink t" "map TimerLink ts"] rep
    by (cases ts) (auto simp: timers_rep_def)
  then have "expire_loop c s (TimerLink t) t = (case ts of [] \<Rightarrow> Some (Ok ?s2) | u # _ \<Rightarrow> expire_loop c ?s2 (TimerLink u) u)"
    using z p s1(1) by (subst expire_loop.simps) (auto split: list.split)
  ultimately show ?thesis using del(1-5) s1(4-6,8) p(1)
    by (intro exI [of _ ?s2] exI [of _ p]) simp
qed

lemma expire_loop_ok:
  assumes "timers_rep s (t # ts)" and "sleepers_ok s (t # ts)" and "cinv s" and "queue s = waiting s"
    and "state (procs s (idleproc s)) = PROC_RUNNABLE"
  shows "\<exists>s' us. expire_loop c s (TimerLink t) t = Some (Ok s') \<and> timers_ok s' us
    \<and> (\<forall>x. due s' us x = live (due s (t # ts) x)) \<and> timers s' = timers s
    \<and> cinv s' \<and> queue s' = waiting s' \<and> current s' = current s \<and> idleproc s' = idleproc s
    \<and> (\<forall>q. state (procs s' q) = (if q \<in> expired s (t # ts) 0 then PROC_RUNNABLE else state (procs s q)))"
  using assms
proof (induction ts arbitrary: s t rule: length_induct)
  case (1 ts)
  show ?case
  proof (cases "expires (timers s t) = 0")
    case False
    note pos = due_positive [OF False, of ts]
    have no0: "due s (t # ts) x \<noteq> Some 0" for x using pos ranI [of "due s (t # ts)" x 0] by force
    have "expire_loop c s (TimerLink t) t = Some (Ok s)" using False by (simp add: expire_loop.simps)
    moreover have "timers_ok s (t # ts)" using pos "1.prems"(1) unfolding timers_ok_def by blast
    moreover have "live (due s (t # ts) x) = due s (t # ts) x" for x unfolding live_def using no0 by simp
    moreover have "expired s (t # ts) 0 = {}" unfolding expired_def using no0 by blast
    ultimately show ?thesis using "1.prems" by (intro exI [of _ s] exI [of _ "t # ts"]) simp
  next
    case True
    obtain s2 p where s2: "expire_loop c s (TimerLink t) t
        = (case ts of [] \<Rightarrow> Some (Ok s2) | u # _ \<Rightarrow> expire_loop c s2 (TimerLink u) u)"
      "timers_rep s2 ts" "sleepers_ok s2 ts" "cinv s2" "queue s2 = waiting s2"
      "timers s2 = timers s" "current s2 = current s" "idleproc s2 = idleproc s" "tproc (timers s t) = Some p"
      "\<forall>q. state (procs s2 q) = (if q = p then PROC_RUNNABLE else state (procs s q))"
      using expire_step [OF "1.prems" True] by blast
    have rest: "live (due s ts x) = live (due s (t # ts) x)" for x
    proof -
      have "due s (t # ts) = (due s ts)(t \<mapsto> 0)" using True by simp
      moreover have "due s ts t = None" using timers_distinct [OF "1.prems"(1)] by (simp add: due_from_none)
      ultimately show ?thesis unfolding live_def by simp
    qed
    have ex: "expired s (t # ts) 0 = insert p (expired s ts 0)" using expired_first [OF "1.prems"(1) True s2(9)] .
    have idle2: "state (procs s2 (idleproc s2)) = PROC_RUNNABLE" using s2(8,10) "1.prems"(5) by simp
    show ?thesis
    proof (cases ts)
      case Nil
      have "live (due s (t # ts) x) = None" for x using rest [of x] Nil by (simp add: live_def)
      moreover have "timers_ok s2 []" using s2(2) Nil by (simp add: timers_ok_def)
      moreover have "expired s ts 0 = {}" using Nil by (simp add: expired_def)
      ultimately show ?thesis using s2 ex Nil by (intro exI [of _ s2] exI [of _ "[]"]) simp
    next
      case (Cons u us)
      obtain s' vs where s': "expire_loop c s2 (TimerLink u) u = Some (Ok s')" "timers_ok s' vs"
        "\<forall>x. due s' vs x = live (due s2 ts x)" "timers s' = timers s2" "cinv s'" "queue s' = waiting s'"
        "current s' = current s2" "idleproc s' = idleproc s2"
        "\<forall>q. state (procs s' q) = (if q \<in> expired s2 ts 0 then PROC_RUNNABLE else state (procs s2 q))"
        using "1.IH" [rule_format, of us s2 u] s2(2-5) idle2 Cons by auto
      have "expired s2 ts 0 = expired s ts 0" by (simp add: expired_def s2(6))
      then have "\<forall>q. state (procs s' q) = (if q \<in> expired s (t # ts) 0 then PROC_RUNNABLE else state (procs s q))"
        using s'(9) s2(10) unfolding ex by simp
      moreover have "\<forall>x. due s' vs x = live (due s (t # ts) x)" using s'(3) rest unfolding s2(6) by simp
      ultimately show ?thesis using s2(1,6-8) s' Cons by (intro exI [of _ s'] exI [of _ vs]) simp
    qed
  qed
qed

lemma run_timer_list_ok:
  assumes ok: "timers_ok s ts" and sl: "sleepers_ok s ts" and inv: "cinv s" "queue s = waiting s"
    and idle: "state (procs s (idleproc s)) = PROC_RUNNABLE"
  shows "\<exists>s' us. run_timer_list c s = Ok s' \<and> timers_ok s' us
    \<and> (\<forall>x. due s' us x = live (map_option (\<lambda>n. n - 1) (due s ts x)))
    \<and> cinv s' \<and> queue s' = waiting s' \<and> current s' = current s \<and> idleproc s' = idleproc s
    \<and> (\<forall>q. state (procs s' q) = (if q \<in> expired s ts 1 then PROC_RUNNABLE else state (procs s q)))"
proof -
  let ?le = "list_next (timer_list s) TimerList"
  have rep: "timers_rep s ts" using ok by (simp add: timers_ok_def)
  have le: "?le = (case ts of [] \<Rightarrow> TimerList | t # _ \<Rightarrow> TimerLink t)"
    using dl_rep_next_head [of "timer_list s" TimerList "map TimerLink ts"] rep
    by (cases ts) (auto simp: timers_rep_def)
  obtain s1 us where s1: "(if ?le \<noteq> TimerList then assert_c (expires (timers s (le2timer ?le)) \<noteq> 0)
        (case expire_loop c (upd_timer s (le2timer ?le) (\<lambda>x. x\<lparr>expires := expires x - 1\<rparr>)) ?le (le2timer ?le) of
           None \<Rightarrow> Diverge | Some r \<Rightarrow> r) else Ok s) = Ok s1"
    "timers_ok s1 us" "\<forall>x. due s1 us x = live (map_option (\<lambda>n. n - 1) (due s ts x))"
    "cinv s1" "queue s1 = waiting s1" "current s1 = current s" "idleproc s1 = idleproc s"
    "\<forall>q. state (procs s1 q) = (if q \<in> expired s ts 1 then PROC_RUNNABLE else state (procs s q))"
  proof (cases ts)
    case Nil
    have "live (map_option (\<lambda>n. n - 1) (due s [] x)) = None" for x by (simp add: live_def)
    moreover have "expired s [] 1 = {}" by (simp add: expired_def)
    ultimately show thesis using that [of s "[]"] le ok inv Nil by simp
  next
    case (Cons t rs)
    let ?s = "upd_timer s t (\<lambda>x. x\<lparr>expires := expires x - 1\<rparr>)"
    have "unat (expires (timers s t)) \<in> ran (due s (t # rs))" by (auto simp: ran_def)
    then have e: "expires (timers s t) \<noteq> 0" using ok Cons by (auto simp: timers_ok_def)
    note tick = due_tick [OF rep [unfolded Cons] e] expired_tick [OF ok [unfolded Cons] e]
    have "\<forall>n \<in> ran (due ?s (t # rs)). n < 2 ^ 32"
      using rep Cons unfolding timers_rep_def ran_def tick(1) by fastforce
    then have "timers_rep ?s (t # rs)" using rep Cons by (simp add: timers_rep_def)
    moreover have "sleepers_ok ?s (t # rs)" using sl Cons by (simp add: sleepers_ok_def)
    moreover have "same_queue s ?s" by (simp add: same_queue_def)
    then have "cinv ?s" "queue ?s = waiting ?s" using queue_cong [of s ?s] inv by (auto simp: waiting_def)
    ultimately obtain s1 us where s1: "expire_loop c ?s (TimerLink t) t = Some (Ok s1)" "timers_ok s1 us"
      "\<forall>x. due s1 us x = live (due ?s (t # rs) x)" "cinv s1" "queue s1 = waiting s1" "current s1 = current ?s"
      "idleproc s1 = idleproc ?s"
      "\<forall>q. state (procs s1 q) = (if q \<in> expired ?s (t # rs) 0 then PROC_RUNNABLE else state (procs ?s q))"
      using expire_loop_ok [of ?s t rs] idle by auto
    show thesis
      by (rule that [of s1 us]) (use s1 e le Cons in \<open>simp_all only: tick, simp_all\<close>)
  qed
  define s' where "s' = sched_class_proc_tick c s1 (current s1)"
  have fr: "cinv s' \<and> queue s' = queue s1 \<and> tick_frame s1 s'"
  proof (cases "current s1 = idleproc s1")
    case True
    then have "s' = upd_proc s1 (current s1) (\<lambda>pr. pr\<lparr>need_resched := True\<rparr>)"
      by (simp add: s'_def sched_class_proc_tick_def)
    moreover have "same_queue s1 \<dots>" by (simp add: same_queue_def)
    ultimately show ?thesis using queue_cong s1(4) by (simp add: tick_frame_def)
  next
    case False
    then show ?thesis using tick_law [OF s1(4)] by (simp add: s'_def sched_class_proc_tick_def)
  qed
  have f: "current s' = current s1" "idleproc s' = idleproc s1" "timers s' = timers s1" "timer_list s' = timer_list s1"
    using fr by (simp_all add: tick_frame_def)
  have st: "\<And>q. state (procs s' q) = state (procs s1 q)" using tick_frame_state(1) fr by blast
  have "timers_ok s' us" using s1(2) f by (simp add: timers_ok_def timers_rep_def)
  moreover have "waiting s' = waiting s1" by (simp add: waiting_def f st)
  moreover have "run_timer_list c s = Ok s'"
    unfolding run_timer_list_def Let_def s1(1) by (simp add: s'_def)
  ultimately show ?thesis using s1 fr f st by (intro exI [of _ s'] exI [of _ us]) simp
qed

end

end
