(* ===== verification/Sched_RR.thy ===== *)
theory Sched_RR
  imports Sched_Timer
begin

text \<open>
  The round-robin class of \<open>kern/schedule/rr_sched.c\<close>: a first-in first-out run queue on the list of
  \<open>libs/list.h\<close>. It interprets \<open>sched_class_laws\<close>; beyond the laws it is shown to be fair: a waiting
  process runs after at most as many decisions as processes stand before it.
\<close>

definition RR_init :: "'a sched_scheme \<Rightarrow> 'a sched_scheme" where
  "RR_init s = s\<lparr>run_list := list_init (run_list s) RunList, proc_num := 0\<rparr>"

definition RR_enqueue :: "'a sched_scheme \<Rightarrow> nat \<Rightarrow> 'a sched_scheme res" where
  "RR_enqueue s p =
     assert_c (list_empty (run_list s) (RunLink p))
       (let s1 = s\<lparr>run_list := list_add_before (run_list s) RunList (RunLink p)\<rparr>;
            s2 = refill s1 p;
            s3 = upd_proc s2 p (\<lambda>pr. pr\<lparr>rq := True\<rparr>)
        in Ok (s3\<lparr>proc_num := proc_num s3 + 1\<rparr>))"

definition RR_dequeue :: "'a sched_scheme \<Rightarrow> nat \<Rightarrow> 'a sched_scheme res" where
  "RR_dequeue s p =
     assert_c (\<not> list_empty (run_list s) (RunLink p) \<and> rq (procs s p))
       (let s1 = s\<lparr>run_list := list_del_init (run_list s) (RunLink p)\<rparr>
        in Ok (s1\<lparr>proc_num := proc_num s1 - 1\<rparr>))"

definition RR_pick_next :: "'a sched_scheme \<Rightarrow> nat option" where
  "RR_pick_next s =
     (let le = list_next (run_list s) RunList in if le \<noteq> RunList then Some (le2proc le) else None)"

definition RR_proc_tick :: "'a sched_scheme \<Rightarrow> nat \<Rightarrow> 'a sched_scheme" where
  "RR_proc_tick s p =
     (let s1 = (if 0 < time_slice (procs s p)
                then upd_proc s p (\<lambda>pr. pr\<lparr>time_slice := time_slice pr - 1\<rparr>) else s)
      in if time_slice (procs s1 p) = 0 then upd_proc s1 p (\<lambda>pr. pr\<lparr>need_resched := True\<rparr>) else s1)"

definition RR_sched_class :: "'a sched_scheme sched_class" where
  "RR_sched_class = \<lparr>sc_init = RR_init, enqueue = RR_enqueue, dequeue = RR_dequeue,
     pick_next = (\<lambda>s. Ok (RR_pick_next s, s)), proc_tick = RR_proc_tick\<rparr>"

lemma RR_ops [simp]:
  "sc_init RR_sched_class = RR_init" "enqueue RR_sched_class = RR_enqueue"
  "dequeue RR_sched_class = RR_dequeue" "pick_next RR_sched_class = (\<lambda>s. Ok (RR_pick_next s, s))"
  "proc_tick RR_sched_class = RR_proc_tick"
  by (simp_all add: RR_sched_class_def)

section \<open>The queue as a list\<close>

text \<open>\<open>rr_ok s ps\<close>: the run list holds \<open>ps\<close> in this order, other processes are unlinked, members carry
  the queue mark, and the counter counts them.\<close>

definition rr_ok :: "'a sched_scheme \<Rightarrow> nat list \<Rightarrow> bool" where
  "rr_ok s ps \<longleftrightarrow>
     dl_rep (run_list s) RunList (map RunLink ps)
     \<and> (\<forall>p. p \<notin> set ps \<longrightarrow> list_empty (run_list s) (RunLink p))
     \<and> (\<forall>p \<in> set ps. rq (procs s p)) \<and> proc_num s = of_nat (length ps)"

definition rr_inv :: "'a sched_scheme \<Rightarrow> bool" where
  "rr_inv s \<longleftrightarrow> (\<exists>ps. rr_ok s ps)"

definition rr_list :: "'a sched_scheme \<Rightarrow> nat list" where
  "rr_list s = (THE ps. rr_ok s ps)"

definition rr_queue :: "'a sched_scheme \<Rightarrow> nat set" where
  "rr_queue s = {p. \<not> list_empty (run_list s) (RunLink p)}"

lemma rr_ok_unique: "rr_ok s ps \<Longrightarrow> rr_ok s qs \<Longrightarrow> ps = qs"
proof -
  assume "rr_ok s ps" "rr_ok s qs"
  then have "map RunLink ps = map RunLink qs" by (auto simp: rr_ok_def intro: dl_rep_unique)
  then show "ps = qs" by (simp add: inj_map_eq_map inj_def)
qed

lemma rr_list_eq: "rr_ok s ps \<Longrightarrow> rr_list s = ps"
  using rr_ok_unique by (auto simp: rr_list_def)

lemma rr_queue_eq: "rr_ok s ps \<Longrightarrow> rr_queue s = set ps"
proof -
  assume ok: "rr_ok s ps"
  then have "\<not> list_empty (run_list s) (RunLink p)" if "p \<in> set ps" for p
    using that dl_rep_linked [of "run_list s" RunList "map RunLink ps" "RunLink p"]
    by (auto simp: rr_ok_def)
  then show ?thesis using ok by (auto simp: rr_ok_def rr_queue_def)
qed

lemma RR_enqueue_ok:
  assumes ok: "rr_ok s ps" and p: "p \<notin> set ps"
  shows "\<exists>s'. RR_enqueue s p = Ok s' \<and> rr_ok s' (ps @ [p]) \<and> class_frame s s'"
proof -
  have dl: "dl_rep (run_list s) RunList (map RunLink ps)"
    and un: "\<forall>q. q \<notin> set ps \<longrightarrow> list_empty (run_list s) (RunLink q)" using ok by (auto simp: rr_ok_def)
  define s1 where "s1 = s\<lparr>run_list := list_add_before (run_list s) RunList (RunLink p)\<rparr>"
  define s' where "s' = (upd_proc (refill s1 p) p (\<lambda>pr. pr\<lparr>rq := True\<rparr>))\<lparr>proc_num := proc_num s + 1\<rparr>"
  have run: "RR_enqueue s p = Ok s'"
    using un p by (simp add: RR_enqueue_def s'_def s1_def Let_def)
  have "dl_rep (run_list s') RunList (map RunLink (ps @ [p]))"
    using dl_rep_add_before_head [OF dl, of "RunLink p"] p by (auto simp: s'_def s1_def)
  moreover have "list_empty (run_list s') (RunLink q)" if "q \<notin> set (ps @ [p])" for q
    using list_add_before_frame(1) [OF dl, of RunList "RunLink q" "RunLink p"] un that
    by (auto simp: s'_def s1_def list_empty_def)
  ultimately have "rr_ok s' (ps @ [p])" using ok by (auto simp: rr_ok_def s'_def s1_def)
  moreover have "class_frame s s1" by (simp add: s1_def class_frame_def)
  then have "class_frame s (refill s1 p)" using class_frame_trans refill_simps(7) by blast
  then have "class_frame s s'" by (simp add: s'_def class_frame_def sched_view_def)
  ultimately show ?thesis using run by blast
qed

lemma RR_dequeue_ok:
  assumes ok: "rr_ok s (as @ p # cs)"
  shows "\<exists>s'. RR_dequeue s p = Ok s' \<and> rr_ok s' (as @ cs) \<and> class_frame s s'"
proof -
  have dl: "dl_rep (run_list s) RunList (map RunLink as @ RunLink p # map RunLink cs)"
    and un: "\<forall>q. q \<notin> set (as @ p # cs) \<longrightarrow> list_empty (run_list s) (RunLink q)" using ok by (auto simp: rr_ok_def)
  have d: "distinct (as @ p # cs)" using dl by (auto simp: dl_rep_def distinct_map)
  define s' where "s' = s\<lparr>run_list := list_del_init (run_list s) (RunLink p), proc_num := proc_num s - 1\<rparr>"
  have run: "RR_dequeue s p = Ok s'"
    using ok rr_queue_eq [OF ok] by (auto simp: RR_dequeue_def s'_def rr_ok_def rr_queue_def)
  have "list_empty (run_list s') (RunLink q)" if "q \<notin> set (as @ cs)" for q
  proof (cases "q = p")
    case True
    then show ?thesis using dl_rep_del_init(2) [OF dl] by (simp add: s'_def)
  next
    case False
    then show ?thesis
      using list_del_init_frame(1) [OF dl, of "RunLink p" "RunLink q"] un that
      by (auto simp: s'_def list_empty_def)
  qed
  then have "rr_ok s' (as @ cs)"
    using ok dl_rep_del_init(1) [OF dl] by (auto simp: rr_ok_def s'_def)
  moreover have "class_frame s s'" by (simp add: s'_def class_frame_def)
  ultimately show ?thesis using run by blast
qed

lemma RR_pick_next_ok:
  assumes "rr_ok s ps"
  shows "RR_pick_next s = (case ps of [] \<Rightarrow> None | p # _ \<Rightarrow> Some p)"
  using assms dl_rep_next_head [of "run_list s" RunList "map RunLink ps"]
  by (auto simp: rr_ok_def RR_pick_next_def split: list.splits)

interpretation rr: sched_class_laws RR_sched_class rr_inv rr_queue
proof unfold_locales
  fix s :: "'a sched_scheme" and p assume inv: "rr_inv s" and p: "p \<notin> rr_queue s"
  obtain ps where ok: "rr_ok s ps" using inv by (auto simp: rr_inv_def)
  have "p \<notin> set ps" using p rr_queue_eq [OF ok] by simp
  then obtain s' where "RR_enqueue s p = Ok s'" "rr_ok s' (ps @ [p])" "class_frame s s'"
    using RR_enqueue_ok [OF ok] by blast
  then show "\<exists>s'. enqueue RR_sched_class s p = Ok s' \<and> rr_inv s' \<and> rr_queue s' = insert p (rr_queue s)
      \<and> class_frame s s'"
    using rr_queue_eq [OF ok] rr_queue_eq [of s' "ps @ [p]"] by (auto simp: rr_inv_def)
next
  fix s :: "'a sched_scheme" and p assume inv: "rr_inv s" and p: "p \<in> rr_queue s"
  obtain ps where ok: "rr_ok s ps" using inv by (auto simp: rr_inv_def)
  obtain as cs where ps: "ps = as @ p # cs" using p rr_queue_eq [OF ok] by (auto dest: split_list)
  have d: "distinct ps" using ok by (auto simp: rr_ok_def dl_rep_def distinct_map)
  obtain s' where "RR_dequeue s p = Ok s'" "rr_ok s' (as @ cs)" "class_frame s s'"
    using RR_dequeue_ok ok ps by blast
  then show "\<exists>s'. dequeue RR_sched_class s p = Ok s' \<and> rr_inv s' \<and> rr_queue s' = rr_queue s - {p}
      \<and> class_frame s s'"
    using rr_queue_eq [OF ok] rr_queue_eq [of s' "as @ cs"] ps d
    by (auto simp: rr_inv_def)
next
  fix s :: "'a sched_scheme" assume inv: "rr_inv s"
  obtain ps where ok: "rr_ok s ps" using inv by (auto simp: rr_inv_def)
  show "\<exists>r s'. pick_next RR_sched_class s = Ok (r, s') \<and> rr_inv s' \<and> rr_queue s' = rr_queue s
      \<and> class_frame s s' \<and> (case r of None \<Rightarrow> rr_queue s = {} | Some p \<Rightarrow> p \<in> rr_queue s)"
    using inv RR_pick_next_ok [OF ok] rr_queue_eq [OF ok]
    by (auto split: list.splits)
next
  fix s :: "'a sched_scheme" and p assume inv: "rr_inv s"
  obtain ps where ok: "rr_ok s ps" using inv by (auto simp: rr_inv_def)
  have "rr_ok (RR_proc_tick s p) ps" using ok by (simp add: RR_proc_tick_def Let_def rr_ok_def)
  moreover have "rr_queue (RR_proc_tick s p) = rr_queue s" by (simp add: RR_proc_tick_def Let_def rr_queue_def)
  moreover have "tick_frame s (RR_proc_tick s p)" by (simp add: RR_proc_tick_def Let_def tick_frame_def)
  ultimately show "rr_inv (proc_tick RR_sched_class s p) \<and> rr_queue (proc_tick RR_sched_class s p) = rr_queue s
      \<and> tick_frame s (proc_tick RR_sched_class s p)"
    unfolding RR_ops rr_inv_def by blast
next
  fix s s' :: "'a sched_scheme" assume "same_queue s s'"
  then show "rr_inv s' = rr_inv s \<and> rr_queue s' = rr_queue s"
    by (simp add: same_queue_def rr_inv_def rr_ok_def rr_queue_def)
qed

section \<open>One scheduling decision\<close>

lemma rr_ok_cong: "same_queue s s' \<Longrightarrow> rr_ok s' ps = rr_ok s ps"
  by (simp add: same_queue_def rr_ok_def)

text \<open>The current process, if it can go on, joins the end of the queue; the first of the queue runs.\<close>

definition rr_line :: "'a sched_scheme \<Rightarrow> nat list \<Rightarrow> nat list" where
  "rr_line s ps = ps @ (if state (procs s (current s)) = PROC_RUNNABLE \<and> current s \<noteq> idleproc s
                        then [current s] else [])"

lemma rr_schedule:
  assumes ok: "rr_ok s ps" and cur: "current s \<notin> set ps"
  shows "\<exists>s'. schedule RR_sched_class s = Ok s' \<and> rr_ok s' (tl (rr_line s ps))
      \<and> current s' = (case rr_line s ps of [] \<Rightarrow> idleproc s | p # _ \<Rightarrow> p)
      \<and> idleproc s' = idleproc s \<and> (\<forall>q. state (procs s' q) = state (procs s q))"
proof -
  let ?c = "current s" and ?L = "rr_line s ps"
  define s1 where "s1 = upd_proc s ?c (\<lambda>pr. pr\<lparr>need_resched := False\<rparr>)"
  have ok1: "rr_ok s1 ps" using rr_ok_cong [of s s1] ok by (simp add: same_queue_def s1_def)
  have st1: "\<And>q. state (procs s1 q) = state (procs s q)" "current s1 = ?c" "idleproc s1 = idleproc s"
    by (simp_all add: s1_def)
  obtain s2 where s2: "(if state (procs s1 (current s1)) = PROC_RUNNABLE
      then sched_class_enqueue RR_sched_class s1 (current s1) else Ok s1) = Ok s2"
    "rr_ok s2 ?L" "class_frame s1 s2"
  proof (cases "state (procs s ?c) = PROC_RUNNABLE \<and> ?c \<noteq> idleproc s")
    case True
    then show thesis using that RR_enqueue_ok [OF ok1 cur] st1
      by (auto simp: rr_line_def sched_class_enqueue_def)
  next
    case False
    then show thesis using that [of s1] ok1 st1
      by (auto simp: rr_line_def sched_class_enqueue_def)
  qed
  obtain s4 where s4: "(case RR_pick_next s2 of None \<Rightarrow> Ok s2 | Some p \<Rightarrow> RR_dequeue s2 p) = Ok s4"
    "rr_ok s4 (tl ?L)" "class_frame s2 s4"
  proof (cases ?L)
    case Nil
    then show thesis using that [of s2] s2(2) RR_pick_next_ok [OF s2(2)] by simp
  next
    case (Cons p L)
    then show thesis using that RR_dequeue_ok [of s2 "[]" p L] s2(2) RR_pick_next_ok [OF s2(2)] by auto
  qed
  have fr: "class_frame s1 s4" using class_frame_trans s2(3) s4(3) by blast
  define n where "n = (case ?L of [] \<Rightarrow> idleproc s | p # _ \<Rightarrow> p)"
  have n4: "(case RR_pick_next s2 of None \<Rightarrow> idleproc s4 | Some p \<Rightarrow> p) = n"
    using RR_pick_next_ok [OF s2(2)] class_frame_globals(2) [OF fr] st1(3)
    by (simp add: n_def split: list.split)
  define s5 where "s5 = upd_proc s4 n (\<lambda>pr. pr\<lparr>runs := runs pr + 1\<rparr>)"
  define s' where "s' = (if n \<noteq> current s5 then proc_run s5 n else s5)"
  have run: "schedule RR_sched_class s = Ok s'"
    unfolding schedule_def Let_def s1_def [symmetric] s2(1) sched_class_pick_next_def sched_class_dequeue_def RR_ops
    using s4(1) n4 by (simp add: s'_def s5_def)
  have "rr_ok s' (tl ?L)" using rr_ok_cong [of s4 s'] s4(2) by (simp add: same_queue_def s'_def s5_def proc_run_def)
  moreover have "current s' = n" "idleproc s' = idleproc s" "\<And>q. state (procs s' q) = state (procs s q)"
    using class_frame_state(1) [OF fr] class_frame_globals [OF fr] st1
    by (simp_all add: s'_def s5_def proc_run_def)
  ultimately show ?thesis using run n_def by blast
qed

section \<open>Fairness\<close>

definition rr_good :: "'a sched_scheme \<Rightarrow> nat list \<Rightarrow> bool" where
  "rr_good s ps \<longleftrightarrow> rr_ok s ps \<and> set ps = waiting s \<and> state (procs s (idleproc s)) = PROC_RUNNABLE"

lemma rr_good_current: "rr_good s ps \<Longrightarrow> current s \<notin> set ps"
  by (auto simp: rr_good_def waiting_def)

lemma rr_good_schedule:
  assumes "rr_good s ps"
  shows "\<exists>s'. schedule RR_sched_class s = Ok s' \<and> rr_good s' (tl (rr_line s ps))
      \<and> current s' = (case rr_line s ps of [] \<Rightarrow> idleproc s | p # _ \<Rightarrow> p) \<and> idleproc s' = idleproc s"
proof -
  have ok: "rr_ok s ps" and w: "set ps = waiting s" and idle: "state (procs s (idleproc s)) = PROC_RUNNABLE"
    using assms by (auto simp: rr_good_def)
  obtain s' where s': "schedule RR_sched_class s = Ok s'" "rr_ok s' (tl (rr_line s ps))"
    "current s' = (case rr_line s ps of [] \<Rightarrow> idleproc s | p # _ \<Rightarrow> p)" "idleproc s' = idleproc s"
    "\<forall>q. state (procs s' q) = state (procs s q)"
    using rr_schedule [OF ok rr_good_current [OF assms]] by blast
  have q: "rr_queue s = waiting s" using rr_queue_eq [OF ok] w by simp
  have "rr_queue s' = waiting s'"
    using rr.schedule_keeps_queue [OF _ q idle] ok s'(1) by (auto simp: rr_inv_def)
  then have "set (tl (rr_line s ps)) = waiting s'" using rr_queue_eq [OF s'(2)] by simp
  then show ?thesis using s' idle by (auto simp: rr_good_def)
qed

lemma rr_good_wakeup:
  assumes good: "rr_good s ps" and z: "state (procs s p) \<noteq> PROC_ZOMBIE"
  shows "\<exists>s' qs. wakeup_proc RR_sched_class s p = Ok s' \<and> rr_good s' (ps @ qs)
    \<and> current s' = current s \<and> idleproc s' = idleproc s"
proof -
  have ok: "rr_ok s ps" and w: "set ps = waiting s" and idle: "state (procs s (idleproc s)) = PROC_RUNNABLE"
    using good by (auto simp: rr_good_def)
  have q: "rr_queue s = waiting s" using rr_queue_eq [OF ok] w by simp
  obtain s' where s': "wakeup_proc RR_sched_class s p = Ok s'" "rr_queue s' = waiting s'"
    "\<forall>q. state (procs s' q) = (if q = p then PROC_RUNNABLE else state (procs s q))"
    "current s' = current s" "idleproc s' = idleproc s"
    using rr.wakeup_keeps_queue [OF _ q z idle] ok by (auto simp: rr_inv_def)
  have "\<exists>qs. rr_ok s' (ps @ qs)"
  proof (cases "state (procs s p) = PROC_RUNNABLE")
    case True
    then show ?thesis using s'(1) ok by (intro exI [of _ "[]"]) (auto simp: wakeup_proc_def)
  next
    case False
    let ?s = "upd_proc (upd_proc s p (\<lambda>pr. pr\<lparr>state := PROC_RUNNABLE\<rparr>)) p (\<lambda>pr. pr\<lparr>wait_state := 0\<rparr>)"
    have ok2: "rr_ok ?s ps" using rr_ok_cong [of s ?s] ok by (simp add: same_queue_def)
    have np: "p \<notin> set ps" using False w by (auto simp: waiting_def)
    show ?thesis
    proof (cases "p = current s \<or> p = idleproc s")
      case True
      then show ?thesis using s'(1) ok2 False z idle
        by (intro exI [of _ "[]"]) (auto simp: wakeup_proc_def sched_class_enqueue_def split: if_splits)
    next
      case False': False
      then show ?thesis using s'(1) RR_enqueue_ok [OF ok2 np] False z
        by (intro exI [of _ "[p]"]) (auto simp: wakeup_proc_def sched_class_enqueue_def)
    qed
  qed
  then obtain qs where qs: "rr_ok s' (ps @ qs)" by blast
  have "set (ps @ qs) = waiting s'" using rr_queue_eq [OF qs] s'(2) by simp
  then have "rr_good s' (ps @ qs)" using qs s'(3,5) idle by (auto simp: rr_good_def)
  then show ?thesis using s' by blast
qed

text \<open>Whatever happens, the queue moves on by one place per decision and new entries join its end.\<close>

lemma rr_step:
  assumes good: "rr_good s ps"
  shows "\<exists>s' qs. sched_step RR_sched_class e s = Ok s' \<and>
    (if decision e then rr_good s' (tl (ps @ qs)) \<and> (ps \<noteq> [] \<longrightarrow> current s' = hd ps) else rr_good s' (ps @ qs))"
proof -
  have sched: "\<exists>s' qs. schedule RR_sched_class t = Ok s' \<and> rr_good s' (tl (ps @ qs))
      \<and> (ps \<noteq> [] \<longrightarrow> current s' = hd ps)" if t: "rr_good t ps" for t :: "'a sched_scheme"
  proof -
    obtain s' where s': "schedule RR_sched_class t = Ok s'" "rr_good s' (tl (rr_line t ps))"
      "current s' = (case rr_line t ps of [] \<Rightarrow> idleproc t | p # _ \<Rightarrow> p)"
      using rr_good_schedule [OF t] by blast
    moreover obtain qs where "rr_line t ps = ps @ qs" by (auto simp: rr_line_def)
    ultimately show ?thesis by (cases ps) auto
  qed
  show ?thesis
  proof (cases e)
    case Resched
    then show ?thesis using sched [OF good] by simp
  next
    case (Wake p)
    show ?thesis
    proof (cases "state (procs s p) \<noteq> PROC_ZOMBIE")
      case True
      then show ?thesis using rr_good_wakeup [OF good, of p] Wake by auto
    next
      case False
      then show ?thesis using good Wake by (auto intro: exI [of _ "[]"])
    qed
  next
    case (Sleep ws)
    show ?thesis
    proof (cases "current s = idleproc s")
      case True
      then show ?thesis using sched [OF good] Sleep by simp
    next
      case False
      let ?s = "upd_proc s (current s) (\<lambda>pr. pr\<lparr>state := PROC_SLEEPING, wait_state := ws\<rparr>)"
      have "same_queue s ?s" by (simp add: same_queue_def)
      moreover have "waiting ?s = waiting s" by (auto simp: waiting_def)
      ultimately have "rr_good ?s ps" using good False rr_ok_cong [of s ?s] by (simp add: rr_good_def)
      then show ?thesis using sched [of ?s] False Sleep by (simp add: Let_def)
    qed
  qed
qed

lemma rr_fair:
  assumes "rr_good s ps" and "i < length ps" and "i < length (filter decision es)"
  shows "\<exists>pre post s'. es = pre @ post \<and> sched_run RR_sched_class pre s = Ok s' \<and> current s' = ps ! i
      \<and> length (filter decision pre) = Suc i"
  using assms
proof (induction es arbitrary: s ps i)
  case (Cons e es)
  obtain s1 qs where s1: "sched_step RR_sched_class e s = Ok s1"
    "if decision e then rr_good s1 (tl (ps @ qs)) \<and> (ps \<noteq> [] \<longrightarrow> current s1 = hd ps) else rr_good s1 (ps @ qs)"
    using rr_step [OF Cons.prems(1)] by blast
  have ne: "ps \<noteq> []" using Cons.prems(2) by auto
  show ?case
  proof (cases "decision e \<and> i = 0")
    case True
    then have "current s1 = ps ! i" using s1(2) ne by (simp add: hd_conv_nth)
    then show ?thesis using s1(1) True
      by (intro exI [of _ "[e]"] exI [of _ es] exI [of _ s1]) simp
  next
    case False
    let ?ps = "if decision e then tl (ps @ qs) else ps @ qs" and ?i = "if decision e then i - 1 else i"
    have "rr_good s1 ?ps" using s1(2) by simp
    moreover have "?i < length ?ps" and nth: "?ps ! ?i = ps ! i"
      using False Cons.prems(2) ne by (auto simp: nth_tl nth_append tl_append2)
    moreover have "?i < length (filter decision es)" using Cons.prems(3) False by auto
    ultimately obtain pre post s' where IH: "es = pre @ post" "sched_run RR_sched_class pre s1 = Ok s'"
      "current s' = ps ! i" "length (filter decision pre) = Suc ?i"
      using Cons.IH [of s1 ?ps ?i] by metis
    show ?thesis
      by (rule exI [of _ "e # pre"], rule exI [of _ post], rule exI [of _ s'])
        (use IH s1(1) False in auto)
  qed
qed simp

end
