(* ===== verification/Sched_Stride.thy ===== *)
theory Sched_Stride
  imports Sched_Timer
begin

text \<open>
  The stride class of \<open>kern/schedule/stride_sched.c\<close>, in its skew heap version (\<open>USE_SKEW_HEAP\<close>
  is 1). Strides are 32-bit words that wrap; the class compares their difference as a signed number.
  It interprets \<open>sched_class_laws\<close>; and while all strides lie in a window of width
  \<open>BIG_STRIDE\<close> it picks a process of least stride and keeps the window.
\<close>

definition BIG_STRIDE :: u32 where "BIG_STRIDE = 0x7FFFFFFF"

definition proc_stride_comp_f :: "'a sched_scheme \<Rightarrow> nat \<Rightarrow> nat \<Rightarrow> int" where
  "proc_stride_comp_f s p q =
     (let c = sint (lab6_stride (procs s p) - lab6_stride (procs s q))
      in if 0 < c then 1 else if c = 0 then 0 else -1)"

definition stride_init :: "'a sched_scheme \<Rightarrow> 'a sched_scheme" where
  "stride_init s = s\<lparr>run_list := list_init (run_list s) RunList, lab6_run_pool := None, proc_num := 0\<rparr>"

definition stride_enqueue :: "'a sched_scheme \<Rightarrow> nat \<Rightarrow> 'a sched_scheme res" where
  "stride_enqueue s p =
     (case skew_heap_insert (proc_stride_comp_f s) (pool s) (lab6_run_pool s) p of
        None \<Rightarrow> Diverge
      | Some (r, h) \<Rightarrow>
          let s1 = s\<lparr>pool := h, lab6_run_pool := r\<rparr>;
              s2 = refill s1 p;
              s3 = upd_proc s2 p (\<lambda>pr. pr\<lparr>rq := True\<rparr>)
          in Ok (s3\<lparr>proc_num := proc_num s3 + 1\<rparr>))"

definition stride_dequeue :: "'a sched_scheme \<Rightarrow> nat \<Rightarrow> 'a sched_scheme res" where
  "stride_dequeue s p =
     (case skew_heap_remove (proc_stride_comp_f s) (pool s) (lab6_run_pool s) p of
        None \<Rightarrow> Diverge
      | Some (r, h) \<Rightarrow>
          let s1 = s\<lparr>pool := h, lab6_run_pool := r\<rparr>
          in Ok (s1\<lparr>proc_num := proc_num s1 - 1\<rparr>))"

definition pass :: "proc \<Rightarrow> u32" where
  "pass p = (if lab6_priority p = 0 then BIG_STRIDE else BIG_STRIDE div lab6_priority p)"

definition stride_pick_next :: "'a sched_scheme \<Rightarrow> nat option \<times> 'a sched_scheme" where
  "stride_pick_next s =
     (case lab6_run_pool s of
        None \<Rightarrow> (None, s)
      | Some p \<Rightarrow> (Some p, upd_proc s p (\<lambda>pr. pr\<lparr>lab6_stride := lab6_stride pr + pass pr\<rparr>)))"

definition stride_proc_tick :: "'a sched_scheme \<Rightarrow> nat \<Rightarrow> 'a sched_scheme" where
  "stride_proc_tick s p =
     (let s1 = (if 0 < time_slice (procs s p)
                then upd_proc s p (\<lambda>pr. pr\<lparr>time_slice := time_slice pr - 1\<rparr>) else s)
      in if time_slice (procs s1 p) = 0 then upd_proc s1 p (\<lambda>pr. pr\<lparr>need_resched := True\<rparr>) else s1)"

definition stride_sched_class :: "'a sched_scheme sched_class" where
  "stride_sched_class = \<lparr>sc_init = stride_init, enqueue = stride_enqueue, dequeue = stride_dequeue,
     pick_next = (\<lambda>s. Ok (stride_pick_next s)), proc_tick = stride_proc_tick\<rparr>"

lemma stride_ops [simp]:
  "sc_init stride_sched_class = stride_init" "enqueue stride_sched_class = stride_enqueue"
  "dequeue stride_sched_class = stride_dequeue" "pick_next stride_sched_class = (\<lambda>s. Ok (stride_pick_next s))"
  "proc_tick stride_sched_class = stride_proc_tick"
  by (simp_all add: stride_sched_class_def)

section \<open>The queue as a tree\<close>

definition st_ok :: "'a sched_scheme \<Rightarrow> nat tree \<Rightarrow> bool" where
  "st_ok s t \<longleftrightarrow> heap_ok (pool s) (lab6_run_pool s) t \<and> proc_num s = of_nat (size t)"

definition st_inv :: "'a sched_scheme \<Rightarrow> bool" where
  "st_inv s \<longleftrightarrow> (\<exists>t. st_ok s t)"

definition st_queue :: "'a sched_scheme \<Rightarrow> nat set" where
  "st_queue s = {p. \<exists>t. st_ok s t \<and> p \<in> set_tree t}"

lemma st_ok_unique: "st_ok s t \<Longrightarrow> st_ok s u \<Longrightarrow> t = u"
  by (auto simp: st_ok_def heap_ok_def intro: sh_rep_unique)

lemma st_queue_eq: "st_ok s t \<Longrightarrow> st_queue s = set_tree t"
  using st_ok_unique by (auto simp: st_queue_def)

lemma st_ok_cong: "same_queue s s' \<Longrightarrow> st_ok s' t = st_ok s t"
  by (simp add: same_queue_def st_ok_def)

lemma size_tmerge: "size (tmerge cmp t1 t2) = size t1 + size t2"
  by (induction cmp t1 t2 rule: tmerge.induct) auto

lemma size_tremove: "dtree t \<Longrightarrow> b \<in> set_tree t \<Longrightarrow> size t = Suc (size (tremove cmp b t))"
proof (induction cmp b t rule: tremove.induct)
  case (2 cmp b l x r)
  have d: "dtree l" "dtree r" "set_tree l \<inter> set_tree r = {}" using "2.prems"(1) by auto
  show ?case
  proof (cases "x = b")
    case False
    then consider "b \<in> set_tree l" "b \<notin> set_tree r" | "b \<in> set_tree r" "b \<notin> set_tree l"
      using "2.prems"(2) d(3) by auto
    then show ?thesis
    proof cases
      case 1
      then show ?thesis using False "2.IH"(1) d(1) by (simp add: tremove_id)
    next
      case 2
      then show ?thesis using False "2.IH"(2) d(2) by (simp add: tremove_id)
    qed
  qed (simp add: size_tmerge)
qed simp

lemma stride_enqueue_ok:
  assumes ok: "st_ok s t" and p: "p \<notin> set_tree t"
  shows "\<exists>s'. stride_enqueue s p = Ok s' \<and> st_ok s' (tmerge (proc_stride_comp_f s) t (Node Leaf p Leaf))
      \<and> class_frame s s' \<and> (\<forall>q. lab6_stride (procs s' q) = lab6_stride (procs s q))"
proof -
  obtain r h where h: "skew_heap_insert (proc_stride_comp_f s) (pool s) (lab6_run_pool s) p = Some (r, h)"
    "heap_ok h r (tmerge (proc_stride_comp_f s) t (Node Leaf p Leaf))"
    using skew_heap_insert_ok [of "pool s" "lab6_run_pool s" t p "proc_stride_comp_f s"] ok p
    unfolding st_ok_def by blast
  define s1 where "s1 = s\<lparr>pool := h, lab6_run_pool := r\<rparr>"
  define s' where "s' = (upd_proc (refill s1 p) p (\<lambda>pr. pr\<lparr>rq := True\<rparr>))\<lparr>proc_num := proc_num s + 1\<rparr>"
  have "stride_enqueue s p = Ok s'" using h(1) by (simp add: stride_enqueue_def s'_def s1_def Let_def)
  moreover have "st_ok s' (tmerge (proc_stride_comp_f s) t (Node Leaf p Leaf))"
    using h(2) ok by (simp add: st_ok_def s'_def s1_def size_tmerge)
  moreover have "class_frame s s1" by (simp add: s1_def class_frame_def)
  then have "class_frame s (refill s1 p)" using class_frame_trans refill_simps(7) by blast
  then have "class_frame s s'" by (simp add: s'_def class_frame_def sched_view_def)
  moreover have "\<forall>q. lab6_stride (procs s' q) = lab6_stride (procs s q)" by (simp add: s'_def s1_def)
  ultimately show ?thesis by blast
qed

lemma stride_dequeue_ok:
  assumes ok: "st_ok s t" and p: "p \<in> set_tree t"
  shows "\<exists>s'. stride_dequeue s p = Ok s' \<and> st_ok s' (tremove (proc_stride_comp_f s) p t)
      \<and> class_frame s s' \<and> procs s' = procs s"
proof -
  obtain r h where h: "skew_heap_remove (proc_stride_comp_f s) (pool s) (lab6_run_pool s) p = Some (r, h)"
    "heap_ok h r (tremove (proc_stride_comp_f s) p t)"
    using skew_heap_remove_ok [of "pool s" "lab6_run_pool s" t p "proc_stride_comp_f s"] ok p
    unfolding st_ok_def by blast
  define s' where "s' = s\<lparr>pool := h, lab6_run_pool := r, proc_num := proc_num s - 1\<rparr>"
  have "stride_dequeue s p = Ok s'" using h(1) by (simp add: stride_dequeue_def s'_def Let_def)
  moreover have "dtree t" using ok by (simp add: st_ok_def heap_ok_def)
  then have "st_ok s' (tremove (proc_stride_comp_f s) p t)"
    using h(2) ok size_tremove [of t p "proc_stride_comp_f s"] p by (simp add: st_ok_def s'_def)
  moreover have "class_frame s s'" by (simp add: s'_def class_frame_def)
  ultimately show ?thesis by (auto simp: s'_def)
qed

lemma stride_pick_next_ok:
  assumes "st_ok s t"
  shows "fst (stride_pick_next s) = (case t of Leaf \<Rightarrow> None | Node l x r \<Rightarrow> Some x)"
    and "st_ok (snd (stride_pick_next s)) t" and "class_frame s (snd (stride_pick_next s))"
proof -
  have r: "lab6_run_pool s = (case t of Leaf \<Rightarrow> None | Node l x r \<Rightarrow> Some x)"
    using assms by (cases t) (auto simp: st_ok_def heap_ok_def)
  show "fst (stride_pick_next s) = (case t of Leaf \<Rightarrow> None | Node l x r \<Rightarrow> Some x)"
    using r by (simp add: stride_pick_next_def split: tree.split)
  show "st_ok (snd (stride_pick_next s)) t"
    using assms by (auto simp: stride_pick_next_def st_ok_def split: option.split)
  show "class_frame s (snd (stride_pick_next s))"
    by (simp add: stride_pick_next_def class_frame_def sched_view_def split: option.split)
qed

interpretation stride: sched_class_laws stride_sched_class st_inv st_queue
proof unfold_locales
  fix s :: "'a sched_scheme" and p assume inv: "st_inv s" and p: "p \<notin> st_queue s"
  obtain t where ok: "st_ok s t" using inv by (auto simp: st_inv_def)
  have "p \<notin> set_tree t" using p st_queue_eq [OF ok] by simp
  then obtain s' where s': "stride_enqueue s p = Ok s'"
    "st_ok s' (tmerge (proc_stride_comp_f s) t (Node Leaf p Leaf))" "class_frame s s'"
    using stride_enqueue_ok [OF ok] by blast
  have "st_queue s' = insert p (st_queue s)"
    using st_queue_eq [OF s'(2)] st_queue_eq [OF ok] by (simp add: set_tmerge)
  then show "\<exists>s'. enqueue stride_sched_class s p = Ok s' \<and> st_inv s' \<and> st_queue s' = insert p (st_queue s)
      \<and> class_frame s s'"
    using s' unfolding st_inv_def stride_ops by blast
next
  fix s :: "'a sched_scheme" and p assume inv: "st_inv s" and p: "p \<in> st_queue s"
  obtain t where ok: "st_ok s t" using inv by (auto simp: st_inv_def)
  have "p \<in> set_tree t" using p st_queue_eq [OF ok] by simp
  then obtain s' where s': "stride_dequeue s p = Ok s'"
    "st_ok s' (tremove (proc_stride_comp_f s) p t)" "class_frame s s'"
    using stride_dequeue_ok [OF ok] by blast
  have "dtree t" using ok by (simp add: st_ok_def heap_ok_def)
  then have "st_queue s' = st_queue s - {p}"
    using st_queue_eq [OF s'(2)] st_queue_eq [OF ok] by (simp add: set_tremove)
  then show "\<exists>s'. dequeue stride_sched_class s p = Ok s' \<and> st_inv s' \<and> st_queue s' = st_queue s - {p}
      \<and> class_frame s s'"
    using s' unfolding st_inv_def stride_ops by blast
next
  fix s :: "'a sched_scheme" assume inv: "st_inv s"
  obtain t where ok: "st_ok s t" using inv by (auto simp: st_inv_def)
  note pick = stride_pick_next_ok [OF ok]
  have "case fst (stride_pick_next s) of None \<Rightarrow> st_queue s = {} | Some p \<Rightarrow> p \<in> st_queue s"
    using pick(1) st_queue_eq [OF ok] by (simp split: tree.split)
  moreover have "st_queue (snd (stride_pick_next s)) = st_queue s"
    using st_queue_eq [OF ok] st_queue_eq [OF pick(2)] by simp
  moreover have "st_inv (snd (stride_pick_next s))" using pick(2) by (auto simp: st_inv_def)
  ultimately show "\<exists>r s'. pick_next stride_sched_class s = Ok (r, s') \<and> st_inv s' \<and> st_queue s' = st_queue s
      \<and> class_frame s s' \<and> (case r of None \<Rightarrow> st_queue s = {} | Some p \<Rightarrow> p \<in> st_queue s)"
    using pick(3) by (cases "stride_pick_next s") auto
next
  fix s :: "'a sched_scheme" and p assume "st_inv s"
  then show "st_inv (proc_tick stride_sched_class s p) \<and> st_queue (proc_tick stride_sched_class s p) = st_queue s
      \<and> tick_frame s (proc_tick stride_sched_class s p)"
    by (simp add: stride_proc_tick_def Let_def st_inv_def st_ok_def st_queue_def tick_frame_def)
next
  fix s s' :: "'a sched_scheme" assume "same_queue s s'"
  then show "st_inv s' = st_inv s \<and> st_queue s' = st_queue s"
    by (simp add: same_queue_def st_inv_def st_ok_def st_queue_def)
qed

section \<open>Virtual time\<close>

text \<open>A virtual time \<open>v\<close> is the stride without wrap-around. While the virtual times of a set of
  processes differ by at most \<open>BIG_STRIDE\<close>, the comparison of the wrapped strides orders the set
  by virtual time.\<close>

definition close_times :: "(nat \<Rightarrow> nat) \<Rightarrow> nat set \<Rightarrow> bool" where
  "close_times v A \<longleftrightarrow> (\<forall>p \<in> A. \<forall>q \<in> A. v p \<le> v q + unat BIG_STRIDE)"

definition tracks :: "'a sched_scheme \<Rightarrow> (nat \<Rightarrow> nat) \<Rightarrow> nat set \<Rightarrow> bool" where
  "tracks s v A \<longleftrightarrow> (\<forall>p \<in> A. lab6_stride (procs s p) = of_nat (v p))"

lemma BIG_STRIDE_val: "unat BIG_STRIDE = 2 ^ 31 - 1"
  by (simp add: BIG_STRIDE_def)

lemma sint_diff:
  fixes a b :: nat
  assumes "a \<le> b + unat BIG_STRIDE" and "b \<le> a + unat BIG_STRIDE"
  shows "sint (of_nat a - of_nat b :: u32) = int a - int b"
proof -
  have "(of_nat a - of_nat b :: u32) = word_of_int (int a - int b)" by simp
  then have "sint (of_nat a - of_nat b :: u32) = signed_take_bit 31 (int a - int b)"
    by (simp add: signed_of_int del: of_int_diff)
  also have "\<dots> = int a - int b"
    using assms by (intro signed_take_bit_int_eq_self) (auto simp: BIG_STRIDE_val)
  finally show ?thesis .
qed

lemma stride_comp_eq:
  assumes "close_times v A" and "tracks s v A" and "p \<in> A" and "q \<in> A"
  shows "proc_stride_comp_f s p q = (if v q < v p then 1 else if v p = v q then 0 else -1)"
proof -
  have "sint (lab6_stride (procs s p) - lab6_stride (procs s q)) = int (v p) - int (v q)"
    using assms sint_diff [of "v p" "v q"] by (simp add: close_times_def tracks_def)
  then show ?thesis by (simp add: proc_stride_comp_f_def)
qed

lemma stride_orders:
  assumes "close_times v A" and "tracks s v A"
  shows "orders (proc_stride_comp_f s) (\<lambda>p q. v p \<le> v q) A"
  using stride_comp_eq [OF assms] by (auto simp: orders_def)

text \<open>The processes that compete for the processor.\<close>

definition contenders :: "'a sched_scheme \<Rightarrow> nat set" where
  "contenders s = {p. state (procs s p) = PROC_RUNNABLE \<and> p \<noteq> idleproc s}"

definition stride_good :: "'a sched_scheme \<Rightarrow> (nat \<Rightarrow> nat) \<Rightarrow> nat tree \<Rightarrow> bool" where
  "stride_good s v t \<longleftrightarrow> st_ok s t \<and> set_tree t = waiting s \<and> state (procs s (idleproc s)) = PROC_RUNNABLE
     \<and> heap_by (\<lambda>p q. v p \<le> v q) t \<and> close_times v (contenders s) \<and> tracks s v (contenders s)"

lemma pass_le: "unat (pass p) \<le> unat BIG_STRIDE"
  by (simp add: pass_def unat_div)

lemma heap_by_cong:
  "heap_by le t \<Longrightarrow> (\<And>x y. x \<in> set_tree t \<Longrightarrow> y \<in> set_tree t \<Longrightarrow> le x y \<Longrightarrow> le' x y) \<Longrightarrow> heap_by le' t"
  by (induction t) auto

lemma class_frame_priority: "class_frame s s' \<Longrightarrow> lab6_priority (procs s' p) = lab6_priority (procs s p)"
  by (auto simp: class_frame_def dest!: spec [of _ p] dest: sched_view_fields)

lemma tracks_cong:
  "(\<And>p. p \<in> A \<Longrightarrow> lab6_stride (procs s' p) = lab6_stride (procs s p)) \<Longrightarrow> tracks s v A \<Longrightarrow> tracks s' v A"
  by (simp add: tracks_def)

text \<open>The queue once the current process has rejoined it.\<close>

lemma stride_rejoin:
  assumes good: "stride_good s v t"
  shows "\<exists>s' t'. (if state (procs s (current s)) = PROC_RUNNABLE
        then sched_class_enqueue stride_sched_class s (current s) else Ok s) = Ok s'
      \<and> st_ok s' t' \<and> set_tree t' = contenders s \<and> heap_by (\<lambda>p q. v p \<le> v q) t'
      \<and> class_frame s s' \<and> (\<forall>q. lab6_stride (procs s' q) = lab6_stride (procs s q))"
proof (cases "state (procs s (current s)) = PROC_RUNNABLE \<and> current s \<noteq> idleproc s")
  case True
  let ?t = "tmerge (proc_stride_comp_f s) t (Node Leaf (current s) Leaf)"
  have ok: "st_ok s t" and w: "set_tree t = waiting s" using good by (auto simp: stride_good_def)
  have "current s \<notin> set_tree t" using w by (simp add: waiting_def)
  then obtain s' where s': "stride_enqueue s (current s) = Ok s'" "st_ok s' ?t" "class_frame s s'"
    "\<forall>q. lab6_stride (procs s' q) = lab6_stride (procs s q)"
    using stride_enqueue_ok [OF ok] by blast
  have st: "set_tree ?t = contenders s" using w True by (auto simp: set_tmerge waiting_def contenders_def)
  have "set_tree t \<union> set_tree (Node Leaf (current s) Leaf) = contenders s" using st by (simp add: set_tmerge)
  then have "heap_by (\<lambda>p q. v p \<le> v q) ?t"
    using good stride_orders [of v "contenders s" s] by (intro heap_tmerge) (auto simp: stride_good_def)
  moreover have "sched_class_enqueue stride_sched_class s (current s) = Ok s'"
    using s'(1) True by (simp add: sched_class_enqueue_def)
  ultimately show ?thesis using True s' st by auto
next
  case False
  then have "(if state (procs s (current s)) = PROC_RUNNABLE
        then sched_class_enqueue stride_sched_class s (current s) else Ok s) = Ok s"
    by (simp add: sched_class_enqueue_def)
  moreover have "waiting s = contenders s" using False by (auto simp: waiting_def contenders_def)
  ultimately show ?thesis using good by (auto simp: stride_good_def)
qed

text \<open>Picking the root and taking it off the queue.\<close>

lemma stride_take_root:
  assumes ok: "st_ok s (Node l n r)" and hp: "heap_by (\<lambda>p q. v p \<le> v q) (Node l n r)"
    and cl: "close_times v (set_tree (Node l n r))" and tr: "tracks s v (set_tree (Node l n r))"
  shows "\<exists>s' t'. fst (stride_pick_next s) = Some n \<and> stride_dequeue (snd (stride_pick_next s)) n = Ok s'
    \<and> st_ok s' t' \<and> set_tree t' = set_tree l \<union> set_tree r
    \<and> heap_by (\<lambda>p q. v p \<le> v q) t' \<and> class_frame s s'
    \<and> (\<forall>q. lab6_stride (procs s' q) = lab6_stride (procs s q) + (if q = n then pass (procs s n) else 0))"
proof -
  let ?s = "snd (stride_pick_next s)"
  note pick = stride_pick_next_ok [OF ok]
  have fst: "fst (stride_pick_next s) = Some n" using pick(1) by simp
  then have str: "\<And>q. lab6_stride (procs ?s q) = lab6_stride (procs s q) + (if q = n then pass (procs s n) else 0)"
    by (simp add: stride_pick_next_def split: option.splits)
  obtain s' where s': "stride_dequeue ?s n = Ok s'" "st_ok s' (tremove (proc_stride_comp_f ?s) n (Node l n r))"
    "class_frame ?s s'" "procs s' = procs ?s"
    using stride_dequeue_ok [OF pick(2), of n] by auto
  let ?t = "tmerge (proc_stride_comp_f ?s) l r" and ?A = "set_tree l \<union> set_tree r"
  have n: "n \<notin> ?A" using ok by (simp add: st_ok_def heap_ok_def)
  have "close_times v ?A" using cl by (simp add: close_times_def)
  moreover have "tracks ?s v ?A" using tr n by (auto simp: tracks_def str)
  ultimately have "heap_by (\<lambda>p q. v p \<le> v q) ?t"
    using hp by (intro heap_tmerge) (auto intro: stride_orders)
  moreover have "class_frame s s'" using class_frame_trans [OF pick(3) s'(3)] .
  ultimately show ?thesis using fst s' str by (auto simp: set_tmerge)
qed

section \<open>One scheduling decision\<close>

definition charge :: "'a sched_scheme \<Rightarrow> nat option \<Rightarrow> nat \<Rightarrow> u32" where
  "charge s c q = (if c = Some q then pass (procs s q) else 0)"

lemma stride_choose:
  assumes good: "stride_good s v t"
  shows "\<exists>s2 c s3 s4 t4. (if state (procs s (current s)) = PROC_RUNNABLE
        then sched_class_enqueue stride_sched_class s (current s) else Ok s) = Ok s2
    \<and> stride_pick_next s2 = (c, s3)
    \<and> (case c of None \<Rightarrow> Ok s3 | Some p \<Rightarrow> stride_dequeue s3 p) = Ok s4
    \<and> st_ok s4 t4 \<and> heap_by (\<lambda>p q. v p \<le> v q) t4 \<and> class_frame s s4
    \<and> set_tree t4 = contenders s - set_option c
    \<and> (case c of None \<Rightarrow> contenders s = {} | Some n \<Rightarrow> n \<in> contenders s \<and> (\<forall>q \<in> contenders s. v n \<le> v q))
    \<and> (\<forall>q. lab6_stride (procs s4 q) = lab6_stride (procs s q) + charge s c q)"
proof -
  let ?C = "contenders s"
  have cl: "close_times v ?C" and tr: "tracks s v ?C" using good by (auto simp: stride_good_def)
  obtain s2 t2 where s2: "(if state (procs s (current s)) = PROC_RUNNABLE
      then sched_class_enqueue stride_sched_class s (current s) else Ok s) = Ok s2"
    "st_ok s2 t2" "set_tree t2 = ?C" "heap_by (\<lambda>p q. v p \<le> v q) t2" "class_frame s s2"
    "\<And>q. lab6_stride (procs s2 q) = lab6_stride (procs s q)"
    using stride_rejoin [OF good] by metis
  show ?thesis
  proof (cases t2)
    case Leaf
    have "fst (stride_pick_next s2) = None" "snd (stride_pick_next s2) = s2"
      using stride_pick_next_ok(1) [OF s2(2)] Leaf by (auto simp: stride_pick_next_def split: option.splits)
    then have "stride_pick_next s2 = (None, s2)" by (simp add: prod_eq_iff)
    then show ?thesis using s2 Leaf
      by (intro exI [of _ s2] exI [of _ None] exI [of _ t2]) (auto simp: charge_def)
  next
    case (Node l n r)
    have A: "set_tree (Node l n r) = ?C" using s2(3) Node by simp
    have nlr: "n \<notin> set_tree l \<union> set_tree r" using s2(2) Node by (simp add: st_ok_def heap_ok_def)
    have tr2: "tracks s2 v ?C" using tr s2(6) by (simp add: tracks_def)
    obtain s4 t4 where s4: "fst (stride_pick_next s2) = Some n" "stride_dequeue (snd (stride_pick_next s2)) n = Ok s4"
      "st_ok s4 t4" "set_tree t4 = set_tree l \<union> set_tree r" "heap_by (\<lambda>p q. v p \<le> v q) t4" "class_frame s2 s4"
      "\<And>q. lab6_stride (procs s4 q) = lab6_stride (procs s2 q) + (if q = n then pass (procs s2 n) else 0)"
      using stride_take_root [of s2 l n r v] s2(2,4) A cl tr2 Node by metis
    have sp: "stride_pick_next s2 = (Some n, snd (stride_pick_next s2))" using s4(1) by (simp add: prod_eq_iff)
    have "\<forall>q \<in> ?C. v n \<le> v q" using heap_root_least [of "\<lambda>p q. v p \<le> v q" l n r] s2(4) Node A by auto
    moreover have "pass (procs s2 n) = pass (procs s n)"
      using class_frame_priority [OF s2(5), of n] by (simp add: pass_def)
    moreover have "set_tree t4 = ?C - {n}" "n \<in> ?C" using s4(4) A nlr by auto
    ultimately show ?thesis using s2(1,6) sp s4 class_frame_trans [OF s2(5) s4(6)]
      by (intro exI [of _ s2] exI [of _ "Some n"] exI [of _ "snd (stride_pick_next s2)"] exI [of _ s4] exI [of _ t4])
        (auto simp: charge_def)
  qed
qed

definition next_times :: "'a sched_scheme \<Rightarrow> (nat \<Rightarrow> nat) \<Rightarrow> nat option \<Rightarrow> nat \<Rightarrow> nat" where
  "next_times s v c q = v q + unat (charge s c q)"

lemma next_times_close:
  assumes "close_times v C" and "case c of None \<Rightarrow> C = {} | Some n \<Rightarrow> n \<in> C \<and> (\<forall>q \<in> C. v n \<le> v q)"
  shows "close_times (next_times s v c) C"
proof (cases c)
  case (Some n)
  then show ?thesis using assms pass_le [of "procs s n"]
    by (fastforce simp: close_times_def next_times_def charge_def)
qed (use assms in \<open>simp add: close_times_def\<close>)

text \<open>A decision runs a contender of least virtual time and moves its virtual time on by its pass.\<close>

lemma stride_schedule:
  assumes good: "stride_good s v t"
  shows "\<exists>s' c t'. schedule stride_sched_class s = Ok s' \<and> stride_good s' (next_times s v c) t'
    \<and> contenders s' = contenders s \<and> (\<forall>p. lab6_priority (procs s' p) = lab6_priority (procs s p))
    \<and> (case c of None \<Rightarrow> contenders s = {} \<and> current s' = idleproc s
       | Some n \<Rightarrow> current s' = n \<and> n \<in> contenders s \<and> (\<forall>q \<in> contenders s. v n \<le> v q))"
proof -
  let ?C = "contenders s"
  have cl: "close_times v ?C" and tr: "tracks s v ?C" and idle: "state (procs s (idleproc s)) = PROC_RUNNABLE"
    and inv: "st_inv s" "st_queue s = waiting s"
    using good st_queue_eq [of s t] by (auto simp: stride_good_def st_inv_def)
  obtain s' where s': "schedule stride_sched_class s = Ok s'" "st_queue s' = waiting s'" "idleproc s' = idleproc s"
    "\<And>q. state (procs s' q) = state (procs s q)"
    using stride.schedule_keeps_queue [OF inv idle] by metis
  define s1 where "s1 = upd_proc s (current s) (\<lambda>pr. pr\<lparr>need_resched := False\<rparr>)"
  have one: "contenders s1 = ?C" "\<And>q. pass (procs s1 q) = pass (procs s q)" "idleproc s1 = idleproc s"
    "\<And>q. lab6_priority (procs s1 q) = lab6_priority (procs s q)"
    "\<And>q. lab6_stride (procs s1 q) = lab6_stride (procs s q)"
    by (auto simp: s1_def contenders_def pass_def)
  have good1: "stride_good s1 v t"
  proof -
    have "same_queue s s1" by (simp add: same_queue_def s1_def)
    then have "st_ok s1 t = st_ok s t" by (rule st_ok_cong)
    moreover have "waiting s1 = waiting s" by (auto simp: waiting_def s1_def)
    moreover have "state (procs s1 (idleproc s1)) = state (procs s (idleproc s))" by (simp add: s1_def)
    moreover have "tracks s1 v ?C" using tr one(5) by (simp add: tracks_def)
    ultimately show ?thesis using good unfolding stride_good_def one(1) by simp
  qed
  obtain s2 c s3 s4 t4 where d: "(if state (procs s1 (current s1)) = PROC_RUNNABLE
      then sched_class_enqueue stride_sched_class s1 (current s1) else Ok s1) = Ok s2"
    "stride_pick_next s2 = (c, s3)" "(case c of None \<Rightarrow> Ok s3 | Some p \<Rightarrow> stride_dequeue s3 p) = Ok s4"
    "st_ok s4 t4" "heap_by (\<lambda>p q. v p \<le> v q) t4" "class_frame s1 s4" "set_tree t4 = ?C - set_option c"
    "case c of None \<Rightarrow> ?C = {} | Some n \<Rightarrow> n \<in> ?C \<and> (\<forall>q \<in> ?C. v n \<le> v q)"
    "\<forall>q. lab6_stride (procs s4 q) = lab6_stride (procs s1 q) + charge s1 c q"
    using stride_choose [OF good1] unfolding one(1) by blast
  define n where "n = (case c of None \<Rightarrow> idleproc s | Some p \<Rightarrow> p)"
  have n4: "(case c of None \<Rightarrow> idleproc s4 | Some p \<Rightarrow> p) = n"
    using class_frame_globals(2) [OF d(6)] one(3) by (simp add: n_def split: option.split)
  define s5 where "s5 = upd_proc s4 n (\<lambda>pr. pr\<lparr>runs := runs pr + 1\<rparr>)"
  have "schedule stride_sched_class s = Ok (if n \<noteq> current s5 then proc_run s5 n else s5)"
    unfolding schedule_def Let_def s1_def [symmetric] d(1) sched_class_pick_next_def sched_class_dequeue_def stride_ops
    using d(2,3) n4 by (simp add: s5_def)
  then have "s' = (if n \<noteq> current s5 then proc_run s5 n else s5)" using s'(1) by simp
  then have same: "same_queue s4 s'" "current s' = n" "\<And>q. lab6_priority (procs s' q) = lab6_priority (procs s4 q)"
    "\<And>q. lab6_stride (procs s' q) = lab6_stride (procs s4 q)"
    by (simp_all add: same_queue_def s5_def proc_run_def)
  have ok': "st_ok s' t4" using st_ok_cong [OF same(1)] d(4) by simp
  have C': "contenders s' = ?C" using s'(3,4) by (simp add: contenders_def)
  have "heap_by (\<lambda>p q. next_times s v c p \<le> next_times s v c q) t4"
    by (rule heap_by_cong [OF d(5)]) (use d(7) in \<open>auto simp: next_times_def charge_def\<close>)
  moreover have "tracks s' (next_times s v c) ?C"
    using tr by (auto simp: tracks_def same(4) d(9) one(2,5) next_times_def charge_def)
  ultimately have "stride_good s' (next_times s v c) t4"
    using ok' st_queue_eq [OF ok'] s'(2-4) C' idle next_times_close [OF cl d(8)] by (simp add: stride_good_def)
  moreover have "lab6_priority (procs s' q) = lab6_priority (procs s q)" for q
    using same(3) class_frame_priority [OF d(6)] one(4) by simp
  ultimately show ?thesis using s'(1) C' same(2) d(8)
    by (intro exI [of _ s'] exI [of _ c] exI [of _ t4]) (auto simp: n_def split: option.splits)
qed

end
