(* ===== verification/Sched.thy ===== *)
theory Sched
  imports Sched_RR Sched_Stride
begin

text \<open>
  The scheduler of \<open>kern/schedule/\<close> as a whole: the table of scheduling classes, and the properties
  of the scheduler for the classes of the table.
\<close>

section \<open>The scheduling classes\<close>

definition SCHED_RR :: nat where "SCHED_RR = 0"
definition SCHED_STRIDE :: nat where "SCHED_STRIDE = 1"

definition sched_class_tb :: "nat \<Rightarrow> 'a sched_scheme sched_class" where
  "sched_class_tb n = [RR_sched_class, stride_sched_class] ! n"

definition class_inv :: "nat \<Rightarrow> 'a sched_scheme \<Rightarrow> bool" where
  "class_inv n s \<longleftrightarrow> (if n = SCHED_RR then rr_inv s else st_inv s)"

definition run_queue :: "nat \<Rightarrow> 'a sched_scheme \<Rightarrow> nat set" where
  "run_queue n s = (if n = SCHED_RR then rr_queue s else st_queue s)"

lemmas class_cases = class_inv_def run_queue_def sched_class_tb_def SCHED_RR_def SCHED_STRIDE_def

lemma policy_cases: "n \<in> {SCHED_RR, SCHED_STRIDE} \<Longrightarrow> n = 0 \<or> n = 1"
  by (simp add: SCHED_RR_def SCHED_STRIDE_def)

definition sched_good :: "nat \<Rightarrow> 'a sched_scheme \<Rightarrow> bool" where
  "sched_good n s \<longleftrightarrow> class_inv n s \<and> run_queue n s = waiting s \<and> state (procs s (idleproc s)) = PROC_RUNNABLE"

section \<open>Proportional share\<close>

text \<open>The processes that run, one after each of \<open>k\<close> scheduling decisions.\<close>

fun sched_trace :: "'a sched_scheme sched_class \<Rightarrow> nat \<Rightarrow> 'a sched_scheme \<Rightarrow> nat list res" where
  "sched_trace c 0 s = Ok []"
| "sched_trace c (Suc k) s =
     res_bind (schedule c s) (\<lambda>s1. res_bind (sched_trace c k s1) (\<lambda>ns. Ok (current s1 # ns)))"

lemma stride_trace:
  assumes "stride_good s v t"
  shows "\<exists>ns. sched_trace stride_sched_class k s = Ok ns \<and> length ns = k
    \<and> close_times (\<lambda>p. v p + count_list ns p * unat (pass (procs s p))) (contenders s)
    \<and> (contenders s \<noteq> {} \<longrightarrow> set ns \<subseteq> contenders s)"
  using assms
proof (induction k arbitrary: s v t)
  case 0
  then show ?case by (simp add: stride_good_def)
next
  case (Suc k)
  obtain s1 c t1 where s1: "schedule stride_sched_class s = Ok s1" "stride_good s1 (next_times s v c) t1"
    "contenders s1 = contenders s" "\<forall>p. lab6_priority (procs s1 p) = lab6_priority (procs s p)"
    "case c of None \<Rightarrow> contenders s = {} \<and> current s1 = idleproc s
     | Some n \<Rightarrow> current s1 = n \<and> n \<in> contenders s \<and> (\<forall>q \<in> contenders s. v n \<le> v q)"
    using stride_schedule [OF Suc.prems] by blast
  have ps: "pass (procs s1 p) = pass (procs s p)" for p using s1(4) by (simp add: pass_def)
  obtain ns where ns: "sched_trace stride_sched_class k s1 = Ok ns" "length ns = k"
    "close_times (\<lambda>p. next_times s v c p + count_list ns p * unat (pass (procs s p))) (contenders s)"
    "contenders s \<noteq> {} \<longrightarrow> set ns \<subseteq> contenders s"
    using Suc.IH [OF s1(2)] unfolding ps s1(3) by blast
  have step: "next_times s v c p + count_list ns p * unat (pass (procs s p))
      = v p + count_list (current s1 # ns) p * unat (pass (procs s p))" if "p \<in> contenders s" for p
    using that s1(5) by (auto simp: next_times_def charge_def split: option.splits)
  have "close_times (\<lambda>p. v p + count_list (current s1 # ns) p * unat (pass (procs s p))) (contenders s)"
    using ns(3) step unfolding close_times_def by simp
  moreover have "contenders s \<noteq> {} \<longrightarrow> set (current s1 # ns) \<subseteq> contenders s"
    using ns(4) s1(5) by (auto split: option.splits)
  ultimately show ?case using s1(1) ns(1,2) by (intro exI [of _ "current s1 # ns"]) simp
qed

section \<open>A small system\<close>

text \<open>The idle process 0 and the processes 1 and 2 are runnable, process 3 sleeps on timer 7 for two
  more ticks; process 1 runs.\<close>

definition demo_proc :: "proc_state \<Rightarrow> u32 \<Rightarrow> u32 \<Rightarrow> proc" where
  "demo_proc st ws prio = \<lparr>state = st, pid = 0, runs = 0, kstack = 0, need_resched = False, pparent = None,
     mm = None, pcontext = context0, tf = None, cr3 = 0, pflags = 0, pname = [], exit_code = 0,
     wait_state = ws, cptr = None, yptr = None, optr = None, rq = False, time_slice = 0,
     lab6_stride = 0, lab6_priority = prio, filesp = None\<rparr>"

definition demo_procs :: "nat \<Rightarrow> proc" where
  "demo_procs p = (if p < 3 then demo_proc PROC_RUNNABLE 0 (of_nat p)
     else if p = 3 then demo_proc PROC_SLEEPING WT_TIMER 0 else demo_proc PROC_UNINIT 0 0)"

definition demo_sched :: sched where
  "demo_sched = \<lparr>procs = demo_procs(2 := (demo_procs 2)\<lparr>rq := True\<rparr>), current = 1, idleproc = 0,
     run_list = list_add_before \<lparr>prev = id, nxt = id\<rparr> RunList (RunLink 2), proc_num = 1, max_time_slice = 5,
     lab6_run_pool = Some 2, pool = \<lparr>parent = (\<lambda>_. None), left = (\<lambda>_. None), right = (\<lambda>_. None)\<rparr>,
     timers = (\<lambda>t. \<lparr>expires = 2, tproc = Some 3\<rparr>),
     timer_list = list_add_before \<lparr>prev = id, nxt = id\<rparr> TimerList (TimerLink 7), esp0 = 0, cpu_cr3 = 0\<rparr>"

lemma demo_waiting: "waiting demo_sched = {2}"
  by (auto simp: waiting_def demo_sched_def demo_procs_def demo_proc_def split: if_splits)

lemma demo_contenders: "contenders demo_sched = {1, 2}"
  by (auto simp: contenders_def demo_sched_def demo_procs_def demo_proc_def split: if_splits)

lemma demo_idle: "state (procs demo_sched (idleproc demo_sched)) = PROC_RUNNABLE"
  by (simp add: demo_sched_def demo_procs_def demo_proc_def)

lemma demo_rr_ok: "rr_ok demo_sched [2]"
  by (auto simp: rr_ok_def demo_sched_def dl_rep_def dl_ops list_empty_def demo_procs_def demo_proc_def)

lemma demo_st_ok: "st_ok demo_sched (Node Leaf 2 Leaf)"
  by (simp add: st_ok_def heap_ok_def demo_sched_def)

lemma demo_rr_good: "rr_good demo_sched [2]"
  unfolding rr_good_def using demo_rr_ok demo_waiting demo_idle by simp

lemma demo_stride_good: "stride_good demo_sched (\<lambda>_. 0) (Node Leaf 2 Leaf)"
  using demo_st_ok demo_waiting demo_idle
  by (simp add: stride_good_def close_times_def tracks_def demo_contenders)
    (simp add: demo_sched_def demo_procs_def demo_proc_def)

lemma demo_sched_good: "sched_good n demo_sched"
  using demo_rr_ok demo_st_ok rr_queue_eq [OF demo_rr_ok] st_queue_eq [OF demo_st_ok] demo_idle
  by (auto simp: sched_good_def class_cases demo_waiting rr_inv_def st_inv_def)

lemma demo_timers_ok: "timers_ok demo_sched [7]" and demo_sleepers_ok: "sleepers_ok demo_sched [7]"
  by (auto simp: timers_ok_def timers_rep_def sleepers_ok_def demo_sched_def dl_rep_def dl_ops list_empty_def
      ran_def demo_procs_def demo_proc_def WT_TIMER_def WT_INTERRUPTED_def)

lemma demo_due: "due demo_sched [7] = [7 \<mapsto> 2]"
  by (rule ext) (simp add: demo_sched_def)

lemma demo_timer: "timers demo_sched t = \<lparr>expires = 2, tproc = Some 3\<rparr>"
  by (simp add: demo_sched_def)

text \<open>The same system when timer 7 has one tick left and process 4 sleeps for four ticks more on timer 9.\<close>

definition demo_tick :: sched where
  "demo_tick = demo_sched\<lparr>procs := (procs demo_sched)(4 := demo_proc PROC_SLEEPING WT_TIMER 0),
     timers := (\<lambda>t. if t = 7 then \<lparr>expires = 1, tproc = Some 3\<rparr> else \<lparr>expires = 4, tproc = Some 4\<rparr>),
     timer_list := list_add_before (timer_list demo_sched) TimerList (TimerLink 9)\<rparr>"

lemma demo_tick_good: "sched_good n demo_tick"
proof -
  have w: "waiting demo_tick = {2}"
    by (auto simp: waiting_def demo_tick_def demo_sched_def demo_procs_def demo_proc_def split: if_splits)
  have r: "rr_ok demo_tick [2]" "st_ok demo_tick (Node Leaf 2 Leaf)"
    by (auto simp: rr_ok_def st_ok_def heap_ok_def demo_tick_def demo_sched_def dl_rep_def dl_ops list_empty_def demo_procs_def demo_proc_def)
  have "state (procs demo_tick (idleproc demo_tick)) = PROC_RUNNABLE"
    by (simp add: demo_tick_def demo_sched_def demo_procs_def demo_proc_def)
  then show ?thesis using w r rr_queue_eq [OF r(1)] st_queue_eq [OF r(2)]
    by (auto simp: sched_good_def class_cases rr_inv_def st_inv_def)
qed

lemma demo_tick_timers: "timers_ok demo_tick [7, 9]" and demo_tick_sleepers: "sleepers_ok demo_tick [7, 9]"
  by (auto simp: timers_ok_def timers_rep_def sleepers_ok_def demo_tick_def demo_sched_def dl_rep_def dl_ops list_empty_def
      ran_def demo_procs_def demo_proc_def WT_TIMER_def WT_INTERRUPTED_def)

lemma demo_tick_due: "due demo_tick [7, 9] = [7 \<mapsto> 1, 9 \<mapsto> 5]"
  by (rule ext) (simp add: demo_tick_def)

lemma demo_tick_expired: "expired demo_tick [7, 9] 1 = {3}"
  unfolding expired_def demo_tick_due by (auto simp: demo_tick_def split: if_splits)

section \<open>Properties\<close>

text \<open>C8: No runnable process is ever lost, and no other one is queued. With either scheduling class, whatever
  sequence of reschedules, wakeups and sleeps happens, every step returns, and afterwards the run queue again holds
  exactly the runnable processes other than the current and the idle one; a sleeping process is in no run queue.
  \<open>wakeup_proc\<close> itself panics on a zombie, leaves everything as it is for a runnable process, and otherwise makes the
  process runnable and adds it, unless it is the current one, to the run queue.\<close>

theorem run_queue_complete:
  assumes n: "n \<in> {SCHED_RR, SCHED_STRIDE}" and good: "sched_good n s"
  shows "(\<exists>s'. sched_run (sched_class_tb n) es s = Ok s' \<and> sched_good n s' \<and>
      run_queue n s' = {p. state (procs s' p) = PROC_RUNNABLE \<and> p \<noteq> current s' \<and> p \<noteq> idleproc s'}) \<and>
    (case state (procs s p) of
       PROC_ZOMBIE \<Rightarrow> wakeup_proc (sched_class_tb n) s p = Panic
     | PROC_RUNNABLE \<Rightarrow> wakeup_proc (sched_class_tb n) s p = Ok s
     | _ \<Rightarrow> \<exists>s'. wakeup_proc (sched_class_tb n) s p = Ok s' \<and> sched_good n s' \<and>
         state (procs s' p) = PROC_RUNNABLE \<and> run_queue n s' = run_queue n s \<union> ({p} - {current s}))"
proof
  note g = good [unfolded sched_good_def]
  have "\<exists>s'. sched_run (sched_class_tb n) es s = Ok s' \<and> sched_good n s'" using policy_cases [OF n]
  proof
    assume n: "n = 0"
    show ?thesis using rr.run_keeps_queue [of s es] g unfolding n sched_good_def class_cases by simp
  next
    assume n: "n = 1"
    show ?thesis using stride.run_keeps_queue [of s es] g unfolding n sched_good_def class_cases by simp
  qed
  then show "\<exists>s'. sched_run (sched_class_tb n) es s = Ok s' \<and> sched_good n s' \<and>
      run_queue n s' = {p. state (procs s' p) = PROC_RUNNABLE \<and> p \<noteq> current s' \<and> p \<noteq> idleproc s'}"
    unfolding sched_good_def waiting_def by blast
  have "\<exists>s'. wakeup_proc (sched_class_tb n) s p = Ok s' \<and> sched_good n s' \<and> state (procs s' p) = PROC_RUNNABLE \<and>
      run_queue n s' = run_queue n s \<union> ({p} - {current s})"
    if z: "state (procs s p) \<noteq> PROC_ZOMBIE" "state (procs s p) \<noteq> PROC_RUNNABLE"
  proof -
    have pi: "p \<noteq> idleproc s" using g z(2) by auto
    have w: "waiting s' = waiting s \<union> ({p} - {current s})"
      if "current s' = current s" "idleproc s' = idleproc s"
        "\<forall>q. state (procs s' q) = (if q = p then PROC_RUNNABLE else state (procs s q))" for s' :: "'a sched_scheme"
      using that pi z(2) by (auto simp: waiting_def split: if_splits)
    from policy_cases [OF n] show ?thesis
    proof
      assume n: "n = 0"
      have a: "rr_inv s" "rr_queue s = waiting s" "state (procs s (idleproc s)) = PROC_RUNNABLE"
        using g unfolding n class_cases by simp_all
      obtain s' where s': "wakeup_proc RR_sched_class s p = Ok s'" "rr_inv s'" "rr_queue s' = waiting s'"
          "\<forall>q. state (procs s' q) = (if q = p then PROC_RUNNABLE else state (procs s q))"
          "current s' = current s" "idleproc s' = idleproc s"
        using rr.wakeup_keeps_queue [OF a(1,2) z(1) a(3)] by blast
      then show ?thesis using w [OF s'(5,6,4)] a unfolding n sched_good_def class_cases by simp
    next
      assume n: "n = 1"
      have a: "st_inv s" "st_queue s = waiting s" "state (procs s (idleproc s)) = PROC_RUNNABLE"
        using g unfolding n class_cases by simp_all
      obtain s' where s': "wakeup_proc stride_sched_class s p = Ok s'" "st_inv s'" "st_queue s' = waiting s'"
          "\<forall>q. state (procs s' q) = (if q = p then PROC_RUNNABLE else state (procs s q))"
          "current s' = current s" "idleproc s' = idleproc s"
        using stride.wakeup_keeps_queue [OF a(1,2) z(1) a(3)] by blast
      then show ?thesis using w [OF s'(5,6,4)] a unfolding n sched_good_def class_cases by simp
    qed
  qed
  then show "case state (procs s p) of
       PROC_ZOMBIE \<Rightarrow> wakeup_proc (sched_class_tb n) s p = Panic
     | PROC_RUNNABLE \<Rightarrow> wakeup_proc (sched_class_tb n) s p = Ok s
     | _ \<Rightarrow> \<exists>s'. wakeup_proc (sched_class_tb n) s p = Ok s' \<and> sched_good n s' \<and>
         state (procs s' p) = PROC_RUNNABLE \<and> run_queue n s' = run_queue n s \<union> ({p} - {current s})"
    by (simp add: wakeup_proc_def split: proc_state.split)
qed

theorem run_queue_complete_witness:
  "(\<exists>s'. sched_run (sched_class_tb SCHED_STRIDE) [Resched, Wake 3, Sleep WT_CHILD, Wake 4, Wake 2, Resched] demo_sched = Ok s'
     \<and> sched_good SCHED_STRIDE s') \<and>
   (\<exists>s'. wakeup_proc (sched_class_tb SCHED_RR) demo_sched 3 = Ok s' \<and> run_queue SCHED_RR s' = run_queue SCHED_RR demo_sched \<union> {3})"
proof
  show "\<exists>s'. sched_run (sched_class_tb SCHED_STRIDE) [Resched, Wake 3, Sleep WT_CHILD, Wake 4, Wake 2, Resched] demo_sched = Ok s'
      \<and> sched_good SCHED_STRIDE s'"
    using run_queue_complete [OF _ demo_sched_good, of SCHED_STRIDE] by blast
  have "state (procs demo_sched 3) = PROC_SLEEPING" "current demo_sched = 1"
    by (simp_all add: demo_sched_def demo_procs_def demo_proc_def)
  then show "\<exists>s'. wakeup_proc (sched_class_tb SCHED_RR) demo_sched 3 = Ok s' \<and> run_queue SCHED_RR s' = run_queue SCHED_RR demo_sched \<union> {3}"
    using run_queue_complete [OF _ demo_sched_good, of SCHED_RR "[]" 3, THEN conjunct2] by auto
qed

text \<open>C9: Round robin starves nobody. A process that waits at position \<open>i\<close> of the run queue is the
  current process right after the \<open>i + 1\<close>st decision of whatever events follow.\<close>

theorem rr_no_starvation:
  assumes "rr_good s ps" and "i < length ps" and "i < length (filter decision es)"
  shows "\<exists>pre post s'. es = pre @ post \<and> sched_run RR_sched_class pre s = Ok s' \<and> current s' = ps ! i
      \<and> length (filter decision pre) = Suc i"
  using rr_fair [OF assms] .

theorem rr_no_starvation_witness:
  "\<exists>pre post s'. [Wake 3, Resched] = pre @ post \<and> sched_run RR_sched_class pre demo_sched = Ok s'
     \<and> current s' = 2 \<and> length (filter decision pre) = 1"
  using rr_no_starvation [OF demo_rr_good, of 0 "[Wake 3, Resched]"] by simp

text \<open>C10: Stride scheduling shares the processor in proportion to the priorities. Take any virtual times \<open>v\<close>, at most
  one \<open>BIG_STRIDE\<close> apart, that the strides of the runnable processes represent modulo 2 to the 32, and any
  number of consecutive decisions among these processes, with no wakeup or sleep in between. The virtual
  time plus the number of turns weighted by the pass \<open>BIG_STRIDE / priority\<close> stays within one
  \<open>BIG_STRIDE\<close> of that of every other one, although the 32-bit strides wrap around. The weighted numbers of turns
  themselves therefore differ by at most two \<open>BIG_STRIDE\<close>, and by at most one when all start at the same virtual time.\<close>

theorem stride_proportional_share:
  assumes "stride_good s v t"
  shows "\<exists>ns. sched_trace stride_sched_class k s = Ok ns \<and> length ns = k
    \<and> (\<forall>p \<in> contenders s. \<forall>q \<in> contenders s.
         v p + count_list ns p * unat (pass (procs s p))
           \<le> v q + count_list ns q * unat (pass (procs s q)) + unat BIG_STRIDE \<and>
         count_list ns p * unat (pass (procs s p))
           \<le> count_list ns q * unat (pass (procs s q)) + 2 * unat BIG_STRIDE)"
proof -
  obtain ns where ns: "sched_trace stride_sched_class k s = Ok ns" "length ns = k"
    "close_times (\<lambda>p. v p + count_list ns p * unat (pass (procs s p))) (contenders s)"
    using stride_trace [OF assms, of k] by blast
  have "close_times v (contenders s)" using assms by (simp add: stride_good_def)
  then have "count_list ns p * unat (pass (procs s p)) \<le> count_list ns q * unat (pass (procs s q)) + 2 * unat BIG_STRIDE"
    if "p \<in> contenders s" "q \<in> contenders s" for p q
    using that ns(3) unfolding close_times_def by fastforce
  then show ?thesis using ns unfolding close_times_def by blast
qed

theorem stride_proportional_share_witness:
  "\<exists>ns. sched_trace stride_sched_class 1000 demo_sched = Ok ns \<and> length ns = 1000
     \<and> count_list ns 2 * unat (pass (procs demo_sched 2))
         \<le> count_list ns 1 * unat (pass (procs demo_sched 1)) + unat BIG_STRIDE"
  using stride_proportional_share [OF demo_stride_good, of 1000] unfolding demo_contenders by auto

text \<open>C11: The clock tick on the relative timer list does what it should: it returns, every pending timer
  has one tick less, exactly the timers that had one tick left are removed, exactly the processes
  of these timers become runnable, and they are in the run queue; the current process stays the same.\<close>

theorem timer_tick:
  assumes n: "n \<in> {SCHED_RR, SCHED_STRIDE}" and good: "sched_good n s"
    and ok: "timers_ok s ts" and sl: "sleepers_ok s ts"
  shows "\<exists>s' us. run_timer_list (sched_class_tb n) s = Ok s' \<and> sched_good n s' \<and> timers_ok s' us
    \<and> (\<forall>x. due s' us x = (case due s ts x of None \<Rightarrow> None | Some d \<Rightarrow> if d = 1 then None else Some (d - 1)))
    \<and> (\<forall>q. state (procs s' q) = (if q \<in> expired s ts 1 then PROC_RUNNABLE else state (procs s q)))
    \<and> current s' = current s \<and> idleproc s' = idleproc s"
proof -
  note g = good [unfolded sched_good_def]
  have live: "live (map_option (\<lambda>n. n - 1) (due s ts x))
      = (case due s ts x of None \<Rightarrow> None | Some d \<Rightarrow> if d = 1 then None else Some (d - 1))" for x
    using ok ranI [of "due s ts" x] by (fastforce simp: live_def timers_ok_def split: option.splits)
  from policy_cases [OF n] show ?thesis
  proof
    assume n: "n = 0"
    show ?thesis using rr.run_timer_list_ok [OF ok sl] g unfolding live n sched_good_def class_cases by fastforce
  next
    assume n: "n = 1"
    show ?thesis using stride.run_timer_list_ok [OF ok sl] g unfolding live n sched_good_def class_cases by fastforce
  qed
qed

theorem timer_tick_witness:
  "\<exists>s' us. run_timer_list (sched_class_tb SCHED_RR) demo_tick = Ok s' \<and> due s' us 7 = None \<and> due s' us 9 = Some 4 \<and>
     state (procs s' 3) = PROC_RUNNABLE \<and> 3 \<in> run_queue SCHED_RR s' \<and> state (procs s' 4) = PROC_SLEEPING"
proof -
  obtain s' us where s': "run_timer_list (sched_class_tb SCHED_RR) demo_tick = Ok s'" "sched_good SCHED_RR s'"
    "\<forall>x. due s' us x = (case [7 \<mapsto> 1, 9 \<mapsto> 5] x of None \<Rightarrow> None | Some d \<Rightarrow> if d = 1 then None else Some (d - 1))"
    "\<forall>q. state (procs s' q) = (if q \<in> {3} then PROC_RUNNABLE else state (procs demo_tick q))"
    "current s' = current demo_tick" "idleproc s' = idleproc demo_tick"
    using timer_tick [OF _ demo_tick_good demo_tick_timers demo_tick_sleepers, of SCHED_RR]
    unfolding demo_tick_due demo_tick_expired by blast
  have "state (procs demo_tick 4) = PROC_SLEEPING" "current demo_tick = 1" "idleproc demo_tick = 0"
    by (simp_all add: demo_tick_def demo_sched_def demo_procs_def demo_proc_def)
  moreover have "3 \<in> waiting s'" using s'(4-6) calculation(2,3) by (simp add: waiting_def)
  then have "3 \<in> run_queue SCHED_RR s'" using s'(2) by (simp add: sched_good_def)
  moreover have "due s' us 7 = None" "due s' us 9 = Some 4" using s'(3) by simp_all
  ultimately show ?thesis using s'(1,4) by (intro exI [of _ s'] exI [of _ us]) simp
qed

text \<open>C12: Adding a timer gives it its own number of ticks and leaves those of all others as they are;
  removing it again restores the pending timers, with no overflow of the relative ticks.\<close>

theorem timer_add_del:
  assumes ok: "timers_ok s ts" and t: "t \<notin> set ts" and e: "0 < expires (timers s t)"
    and p: "tproc (timers s t) \<noteq> None"
  shows "\<exists>s' us. add_timer s t = Ok s' \<and> timers_ok s' us
    \<and> due s' us = (due s ts)(t \<mapsto> unat (expires (timers s t)))
    \<and> timers_ok (del_timer s' t) ts \<and> due (del_timer s' t) ts = due s ts"
proof -
  obtain s' cs ds where s': "add_timer s t = Ok s'" "ts = cs @ ds" "timers_ok s' (cs @ t # ds)"
    "due s' (cs @ t # ds) = (due s ts)(t \<mapsto> unat (expires (timers s t)))"
    using add_timer_ok [OF assms] by blast
  have "timers_rep s' (cs @ t # ds)" using s'(3) unfolding timers_ok_def by blast
  note del = del_timer_ok(1,2) [OF this, folded s'(2)]
  have "due (del_timer s' t) ts = due s ts"
    unfolding del(2) s'(4) using due_from_none [OF t, of "timers s" 0] by auto
  moreover have "timers_ok (del_timer s' t) ts"
    using ok del(1) calculation by (simp add: timers_ok_def)
  ultimately show ?thesis using s' by blast
qed

theorem timer_add_del_witness:
  "\<exists>s' us. add_timer demo_sched 8 = Ok s' \<and> timers_ok s' us \<and> due s' us 8 = Some 2 \<and> due s' us 7 = Some 2"
  using timer_add_del [OF demo_timers_ok, of 8] unfolding demo_due demo_timer by fastforce

end
