(* ===== verification/Mmu.thy ===== *)
theory Mmu
  imports Prelude
begin

text \<open>
  The address arithmetic of \<open>kern/mm/mmu.h\<close>, \<open>kern/mm/memlayout.h\<close> and \<open>kern/mm/pmm.h\<close>: page
  directory and page table indexes, the fields of page table entries, the layout of the address
  space and the conversions between page descriptors, physical and kernel virtual addresses.
  A macro that panics is a function to \<open>res\<close>.
\<close>

unbundle bit_operations_syntax

section \<open>Linear addresses\<close>

definition PGSIZE :: u32 where "PGSIZE = 4096"
definition NPTEENTRY :: u32 where "NPTEENTRY = 1024"
definition PTSIZE :: u32 where "PTSIZE = PGSIZE * NPTEENTRY"
definition PTXSHIFT :: nat where "PTXSHIFT = 12"
definition PDXSHIFT :: nat where "PDXSHIFT = 22"
definition PGSHIFT :: nat where "PGSHIFT = 12"

definition PDX :: "u32 \<Rightarrow> u32" where "PDX la = drop_bit PDXSHIFT la AND 0x3FF"
definition PTX :: "u32 \<Rightarrow> u32" where "PTX la = drop_bit PTXSHIFT la AND 0x3FF"
definition PPN :: "u32 \<Rightarrow> u32" where "PPN la = drop_bit PTXSHIFT la"
definition PGOFF :: "u32 \<Rightarrow> u32" where "PGOFF la = la AND 0xFFF"

definition PGADDR :: "u32 \<Rightarrow> u32 \<Rightarrow> u32 \<Rightarrow> u32" where
  "PGADDR d t off = push_bit PDXSHIFT d OR push_bit PTXSHIFT t OR off"

section \<open>Page table entries\<close>

definition PTE_ADDR :: "u32 \<Rightarrow> u32" where "PTE_ADDR pte = pte AND NOT 0xFFF"
definition PDE_ADDR :: "u32 \<Rightarrow> u32" where "PDE_ADDR pde = PTE_ADDR pde"

definition PTE_P :: u32 where "PTE_P = 0x001"
definition PTE_W :: u32 where "PTE_W = 0x002"
definition PTE_U :: u32 where "PTE_U = 0x004"
definition PTE_USER :: u32 where "PTE_USER = PTE_U OR PTE_W OR PTE_P"

section \<open>Layout of the address space\<close>

definition KERNBASE :: u32 where "KERNBASE = 0xC0000000"
definition KMEMSIZE :: u32 where "KMEMSIZE = 0x38000000"
definition KERNTOP :: u32 where "KERNTOP = KERNBASE + KMEMSIZE"
definition VPT :: u32 where "VPT = 0xFAC00000"
definition USERTOP :: u32 where "USERTOP = 0xB0000000"
definition USTACKTOP :: u32 where "USTACKTOP = USERTOP"
definition USTACKSIZE :: u32 where "USTACKSIZE = 256 * PGSIZE"
definition USERBASE :: u32 where "USERBASE = 0x00200000"

definition USER_ACCESS :: "u32 \<Rightarrow> u32 \<Rightarrow> bool" where
  "USER_ACCESS s e \<longleftrightarrow> USERBASE \<le> s \<and> s < e \<and> e \<le> USERTOP"

definition KERN_ACCESS :: "u32 \<Rightarrow> u32 \<Rightarrow> bool" where
  "KERN_ACCESS s e \<longleftrightarrow> KERNBASE \<le> s \<and> s < e \<and> e \<le> KERNTOP"

lemmas [round_simps] = PGSIZE_def PTSIZE_def NPTEENTRY_def
lemmas shift_defs = PTXSHIFT_def PDXSHIFT_def PGSHIFT_def
lemmas la_defs = PDX_def PTX_def PPN_def PGOFF_def PGADDR_def shift_defs

section \<open>Pages and addresses\<close>

text \<open>A page descriptor is its index in \<open>pages\<close>, which is its physical page number; \<open>np\<close> is
  \<open>npage\<close>, the number of physical pages.\<close>

definition PADDR :: "u32 \<Rightarrow> u32 res" where
  "PADDR kva = assert_c (\<not> kva < KERNBASE) (Ok (kva - KERNBASE))"

definition KADDR :: "u32 \<Rightarrow> u32 \<Rightarrow> u32 res" where
  "KADDR np pa = assert_c (\<not> np \<le> PPN pa) (Ok (pa + KERNBASE))"

definition page2pa :: "nat \<Rightarrow> u32" where
  "page2pa p = push_bit PGSHIFT (of_nat p)"

definition pa2page :: "u32 \<Rightarrow> u32 \<Rightarrow> nat res" where
  "pa2page np pa = assert_c (\<not> np \<le> PPN pa) (Ok (unat (PPN pa)))"

definition page2kva :: "u32 \<Rightarrow> nat \<Rightarrow> u32 res" where
  "page2kva np p = KADDR np (page2pa p)"

definition kva2page :: "u32 \<Rightarrow> u32 \<Rightarrow> nat res" where
  "kva2page np kva = res_bind (PADDR kva) (pa2page np)"

definition pte2page :: "u32 \<Rightarrow> u32 \<Rightarrow> nat res" where
  "pte2page np pte = assert_c (pte AND PTE_P \<noteq> 0) (pa2page np (PTE_ADDR pte))"

definition pde2page :: "u32 \<Rightarrow> u32 \<Rightarrow> nat res" where
  "pde2page np pde = pa2page np (PDE_ADDR pde)"

section \<open>Lemmas\<close>

lemma and_mask_1023: "unat (w AND 0x3FF :: u32) = unat w mod 1024"
proof -
  have "w AND 0x3FF = take_bit 10 w" by (simp add: take_bit_eq_mask mask_eq_exp_minus_1)
  then have "unat (w AND 0x3FF) = take_bit 10 (unat w)" by (simp only: unsigned_take_bit_eq)
  then show ?thesis by (simp add: take_bit_eq_mod)
qed

lemma unat_drop_bit: "unat (drop_bit n w :: u32) = unat w div 2 ^ n"
  using unat_drop_bit_eq [of n w] by (simp only: drop_bit_eq_div [of n "unat w"])

lemma PDX_less: "unat (PDX la) < 1024" and PTX_less: "unat (PTX la) < 1024"
  by (simp_all add: PDX_def PTX_def and_mask_1023)

lemma unat_PDX: "unat (PDX la) = unat la div 2 ^ 22"
proof -
  have "unat la div 2 ^ 22 < 1024" using unat_u32_less [of la] by simp
  then show ?thesis by (simp add: PDX_def PDXSHIFT_def and_mask_1023 unat_drop_bit)
qed

lemma unat_PPN: "unat (PPN la) = unat la div 4096"
  by (simp add: PPN_def PTXSHIFT_def unat_drop_bit)

lemma unat_PTX: "unat (PTX la) = unat la div 4096 mod 1024"
  by (simp add: PTX_def PTXSHIFT_def and_mask_1023 unat_drop_bit)

lemma PPN_PDX_PTX: "unat (PPN la) = unat (PDX la) * 1024 + unat (PTX la)"
proof -
  have "unat la div 2 ^ 22 = unat la div 4096 div 1024" by (simp add: div_mult2_eq [symmetric])
  then show ?thesis unfolding unat_PPN unat_PDX unat_PTX by simp
qed

lemma PPN_PTE_ADDR [simp]: "PPN (PTE_ADDR e) = PPN e"
proof -
  have "PTE_ADDR e = e AND NOT (mask 12)" by (simp add: PTE_ADDR_def mask_eq_exp_minus_1)
  then show ?thesis
    by (intro bit_word_eqI) (auto simp: PPN_def PTXSHIFT_def bit_simps dest: bit_imp_le_length)
qed

lemma PPN_page2pa_or:
  assumes p: "p < 2 ^ 20" and low: "low < PGSIZE"
  shows "PPN (page2pa p OR low) = of_nat p"
proof -
  have "drop_bit 12 low = 0"
    by (rule word_unat_eq_iff [THEN iffD2])
      (use low in \<open>simp add: unat_drop_bit PGSIZE_def word_less_nat_alt\<close>)
  moreover have "drop_bit 12 (push_bit 12 (of_nat p :: u32)) = of_nat p"
  proof (rule bit_word_eqI)
    fix n assume "n < LENGTH(32)"
    have "p < 2 ^ n" if "20 \<le> n" using p power_increasing [OF that, of "2 :: nat"] by linarith
    then have "\<not> bit p n" if "20 \<le> n" using that by (simp add: bit_iff_odd)
    then show "bit (drop_bit 12 (push_bit 12 (of_nat p :: u32))) n = bit (of_nat p :: u32) n"
      using \<open>n < LENGTH(32)\<close> by (auto simp: bit_simps intro: ccontr)
  qed
  ultimately show ?thesis by (simp add: PPN_def page2pa_def shift_defs)
qed

text \<open>An address is put together again from its three parts.\<close>

lemma PGADDR_parts: "PGADDR (PDX la) (PTX la) (PGOFF la) = la"
proof (rule bit_word_eqI)
  fix n assume n: "n < LENGTH(32)"
  have m: "(0x3FF :: u32) = mask 10" "(0xFFF :: u32) = mask 12" by (simp_all add: mask_eq_exp_minus_1)
  show "bit (PGADDR (PDX la) (PTX la) (PGOFF la)) n = bit la n"
    using n by (cases "n < 12"; cases "n < 22") (auto simp: la_defs m bit_simps dest: bit_imp_le_length)
qed

end
