(* ===== verification/Vm_State.thy ===== *)
theory Vm_State
  imports Mmu Page_Manager
begin

text \<open>
  The state of the memory management: physical memory, page descriptors, page tables, the swap area,
  the memory descriptors and their areas, and the code of \<open>kern/mm/pmm.c\<close>, \<open>kern/mm/swap.c\<close>,
  \<open>kern/mm/swap_fifo.c\<close> and \<open>kern/fs/swap/swapfs.c\<close> on it.

  A page table is a page frame read as 1024 words; the kernel's pointer to it is the frame number, and
  a \<open>pte_t *\<close> is a frame and an index. The C code reaches frames through the kernel's mapping
  of physical memory, so \<open>KADDR\<close> of a frame address is the frame; its panics are kept. The
  translation cache of the processor is part of the state, since the code has to invalidate it.
\<close>

section \<open>State\<close>

datatype pranode = PraHead | PraLink nat
datatype vnode = MmapList nat | VmaLink nat
datatype wnode = SemQueue nat | WaitLink nat

record vma_struct =
  vm_mm :: "nat option"
  vm_start :: u32
  vm_end :: u32
  vm_flags :: u32

record mm_struct =
  mmap_cache :: "nat option"
  pgdir :: "nat option"
  map_count :: int
  sm_priv :: bool
  mm_count :: int
  mm_sem :: int
  locked_by :: int

text \<open>\<open>pmem f i\<close> is word \<open>i\<close> of page frame \<open>f\<close>; \<open>ide_ok off\<close> tells whether a transfer of the swap
  slot \<open>off\<close> succeeds; \<open>sm_priv\<close> is NULL or the one list \<open>pra_list_head\<close>. Of the semaphore \<open>mm_sem\<close>
  the descriptor holds the value; the head of its wait queue is \<open>SemQueue\<close> in the store \<open>wait_links\<close>.\<close>

record vm =
  phys :: pmm
  pmem :: "nat \<Rightarrow> nat \<Rightarrow> u32"
  cr3_reg :: u32
  tlb :: "u32 \<Rightarrow> u32 option"
  swap_init_ok :: bool
  max_swap_offset :: u32
  swap_disk :: "nat \<Rightarrow> nat \<Rightarrow> u32"
  ide_ok :: "nat \<Rightarrow> bool"
  pra_list :: "pranode links"
  check_mm_struct :: "nat option"
  mms :: "nat \<Rightarrow> mm_struct"
  vmas :: "nat \<Rightarrow> vma_struct"
  mmap_links :: "vnode links"
  wait_links :: "wnode links"
  pgfault_num :: u32

definition upd_phys :: "vm \<Rightarrow> nat \<Rightarrow> (page \<Rightarrow> page) \<Rightarrow> vm" where
  "upd_phys s p f = s\<lparr>phys := upd_page (phys s) p f\<rparr>"

definition rd :: "vm \<Rightarrow> nat \<times> nat \<Rightarrow> u32" where
  "rd s a = pmem s (fst a) (snd a)"

definition wr :: "vm \<Rightarrow> nat \<times> nat \<Rightarrow> u32 \<Rightarrow> vm" where
  "wr s a w = s\<lparr>pmem := (pmem s)(fst a := (pmem s (fst a))(snd a := w))\<rparr>"

section \<open>Reference counts and the translation cache\<close>

definition page_ref_inc :: "vm \<Rightarrow> nat \<Rightarrow> vm" where
  "page_ref_inc s p = upd_phys s p (\<lambda>pg. pg\<lparr>ref := ref pg + 1\<rparr>)"

definition page_ref_dec :: "vm \<Rightarrow> nat \<Rightarrow> int \<times> vm" where
  "page_ref_dec s p = (let s1 = upd_phys s p (\<lambda>pg. pg\<lparr>ref := ref pg - 1\<rparr>) in (ref (pages (phys s1) p), s1))"

definition set_page_ref :: "vm \<Rightarrow> nat \<Rightarrow> int \<Rightarrow> vm" where
  "set_page_ref s p v = upd_phys s p (\<lambda>pg. pg\<lparr>ref := v\<rparr>)"

definition tlb_invalidate :: "vm \<Rightarrow> nat \<Rightarrow> u32 \<Rightarrow> vm" where
  "tlb_invalidate s pd la = (if cr3_reg s = page2pa pd then s\<lparr>tlb := (tlb s)(PPN la := None)\<rparr> else s)"

definition free_pages :: "vm \<Rightarrow> nat \<Rightarrow> u32 \<Rightarrow> vm res" where
  "free_pages s p n = res_bind (default_free_pages (phys s) p n) (\<lambda>ph. Ok (s\<lparr>phys := ph\<rparr>))"

definition nr_free_pages :: "vm \<Rightarrow> u32" where
  "nr_free_pages s = default_nr_free_pages (phys s)"

section \<open>Swapping\<close>

text \<open>\<open>get_pte\<close> with \<open>create = 0\<close>; \<open>None\<close> is NULL.\<close>

definition get_pte0 :: "vm \<Rightarrow> nat \<Rightarrow> u32 \<Rightarrow> (nat \<times> nat) option res" where
  "get_pte0 s pd la =
     (let pde = rd s (pd, unat (PDX la)) in
      if pde AND PTE_P = 0 then Ok None
      else res_bind (pa2page (npage (phys s)) (PDE_ADDR pde)) (\<lambda>f. Ok (Some (f, unat (PTX la)))))"

definition swap_offset :: "vm \<Rightarrow> u32 \<Rightarrow> nat res" where
  "swap_offset s e =
     (let off = drop_bit 8 e in assert_c (0 < off \<and> off < max_swap_offset s) (Ok (unat off)))"

definition swapfs_read :: "vm \<Rightarrow> u32 \<Rightarrow> nat \<Rightarrow> (bool \<times> vm) res" where
  "swapfs_read s e p = res_bind (swap_offset s e) (\<lambda>off. res_bind (page2kva (npage (phys s)) p) (\<lambda>_.
     Ok (if ide_ok s off then (True, s\<lparr>pmem := (pmem s)(p := swap_disk s off)\<rparr>) else (False, s))))"

definition swapfs_write :: "vm \<Rightarrow> u32 \<Rightarrow> nat \<Rightarrow> (bool \<times> vm) res" where
  "swapfs_write s e p = res_bind (swap_offset s e) (\<lambda>off. res_bind (page2kva (npage (phys s)) p) (\<lambda>_.
     Ok (if ide_ok s off then (True, s\<lparr>swap_disk := (swap_disk s)(off := pmem s p)\<rparr>) else (False, s))))"

definition fifo_init_mm :: "vm \<Rightarrow> nat \<Rightarrow> vm" where
  "fifo_init_mm s m =
     (let s1 = s\<lparr>pra_list := list_init (pra_list s) PraHead\<rparr>
      in s1\<lparr>mms := (mms s1)(m := (mms s1 m)\<lparr>sm_priv := True\<rparr>)\<rparr>)"

definition fifo_map_swappable :: "vm \<Rightarrow> nat \<Rightarrow> nat \<Rightarrow> vm res" where
  "fifo_map_swappable s m p =
     assert_c (sm_priv (mms s m)) (Ok (s\<lparr>pra_list := list_add (pra_list s) PraHead (PraLink p)\<rparr>))"

fun le2pra :: "pranode \<Rightarrow> nat" where
  "le2pra (PraLink p) = p"

definition fifo_swap_out_victim :: "vm \<Rightarrow> nat \<Rightarrow> bool \<Rightarrow> (nat \<times> vm) res" where
  "fifo_swap_out_victim s m in_tick =
     assert_c (sm_priv (mms s m)) (assert_c (\<not> in_tick)
       (let le = prev (pra_list s) PraHead
        in assert_c (PraHead \<noteq> le) (Ok (le2pra le, s\<lparr>pra_list := list_del (pra_list s) le\<rparr>))))"

text \<open>One round of the loop of \<open>swap_out\<close>. A NULL page table entry or directory is a fault.\<close>

definition swap_out_round :: "vm \<Rightarrow> nat \<Rightarrow> bool \<Rightarrow> vm res" where
  "swap_out_round s m in_tick =
     res_bind (fifo_swap_out_victim s m in_tick) (\<lambda>(page, s1).
     let v = pra_vaddr (pages (phys s1) page) in
     case pgdir (mms s1 m) of None \<Rightarrow> Panic | Some pd \<Rightarrow>
     res_bind (get_pte0 s1 pd v) (\<lambda>ptep.
     case ptep of None \<Rightarrow> Panic | Some a \<Rightarrow>
     assert_c (rd s1 a AND PTE_P \<noteq> 0)
       (let e = push_bit 8 (v div PGSIZE + 1) in
        res_bind (swapfs_write s1 e page) (\<lambda>(ok, s2).
        if \<not> ok then fifo_map_swappable s2 m page
        else res_bind (free_pages (wr s2 a e) page 1) (\<lambda>s3. Ok (tlb_invalidate s3 pd v))))))"

fun swap_out :: "vm \<Rightarrow> nat \<Rightarrow> nat \<Rightarrow> bool \<Rightarrow> vm res" where
  "swap_out s m 0 in_tick = Ok s"
| "swap_out s m (Suc n) in_tick = res_bind (swap_out_round s m in_tick) (\<lambda>s1. swap_out s1 m n in_tick)"

section \<open>Pages\<close>

partial_function (option) alloc_pages_loop :: "vm \<Rightarrow> u32 \<Rightarrow> (nat option \<times> vm) res option" where
  "alloc_pages_loop s n =
     step_res (default_alloc_pages (phys s) n) (\<lambda>(page, ph).
       if page \<noteq> None \<or> 1 < n \<or> \<not> swap_init_ok s then Some (Ok (page, s\<lparr>phys := ph\<rparr>))
       else (case check_mm_struct s of
           None \<Rightarrow> Some Panic
         | Some m \<Rightarrow> step_res (swap_out (s\<lparr>phys := ph\<rparr>) m (unat n) False) (\<lambda>s1. alloc_pages_loop s1 n)))"

definition alloc_pages :: "vm \<Rightarrow> u32 \<Rightarrow> (nat option \<times> vm) res" where
  "alloc_pages s n = run_loop (alloc_pages_loop s n)"

text \<open>\<open>swap_in\<close> asserts an allocated page; a failed read is asserted to have failed, and then 0 is
  returned all the same.\<close>

definition swap_in :: "vm \<Rightarrow> nat \<Rightarrow> u32 \<Rightarrow> (nat \<times> vm) res" where
  "swap_in s m la =
     res_bind (alloc_pages s 1) (\<lambda>(result, s1).
     case result of None \<Rightarrow> Panic | Some p \<Rightarrow>
     case pgdir (mms s1 m) of None \<Rightarrow> Panic | Some pd \<Rightarrow>
     res_bind (get_pte0 s1 pd la) (\<lambda>ptep.
     case ptep of None \<Rightarrow> Panic | Some a \<Rightarrow>
     res_bind (swapfs_read s1 (rd s1 a) p) (\<lambda>(ok, s2). Ok (p, s2))))"

section \<open>Page tables\<close>

definition get_pte :: "vm \<Rightarrow> nat \<Rightarrow> u32 \<Rightarrow> bool \<Rightarrow> ((nat \<times> nat) option \<times> vm) res" where
  "get_pte s pd la create =
     (let pdep = (pd, unat (PDX la)) in
      res_bind
        (if rd s pdep AND PTE_P = 0 then
           (if \<not> create then Ok (False, s)
            else res_bind (alloc_pages s 1) (\<lambda>(page, s1).
              case page of None \<Rightarrow> Ok (False, s1) | Some p \<Rightarrow>
              let s2 = set_page_ref s1 p 1 in
              res_bind (page2kva (npage (phys s2)) p) (\<lambda>_.
              let s3 = s2\<lparr>pmem := (pmem s2)(p := (\<lambda>_. 0))\<rparr>
              in Ok (True, wr s3 pdep (page2pa p OR PTE_U OR PTE_W OR PTE_P)))))
         else Ok (True, s))
        (\<lambda>(found, s4).
           if \<not> found then Ok (None, s4)
           else res_bind (pa2page (npage (phys s4)) (PDE_ADDR (rd s4 pdep))) (\<lambda>f.
                  Ok (Some (f, unat (PTX la)), s4))))"

definition get_page :: "vm \<Rightarrow> nat \<Rightarrow> u32 \<Rightarrow> (nat option \<times> (nat \<times> nat) option) res" where
  "get_page s pd la =
     res_bind (get_pte s pd la False) (\<lambda>(ptep, s1).
     case ptep of None \<Rightarrow> Ok (None, ptep)
     | Some a \<Rightarrow> if rd s a AND PTE_P \<noteq> 0
         then res_bind (pte2page (npage (phys s)) (rd s a)) (\<lambda>p. Ok (Some p, ptep)) else Ok (None, ptep))"

definition page_remove_pte :: "vm \<Rightarrow> nat \<Rightarrow> u32 \<Rightarrow> nat \<times> nat \<Rightarrow> vm res" where
  "page_remove_pte s pd la a =
     (if rd s a AND PTE_P \<noteq> 0 then
        res_bind (pte2page (npage (phys s)) (rd s a)) (\<lambda>p.
        let (r, s1) = page_ref_dec s p in
        res_bind (if r = 0 then free_pages s1 p 1 else Ok s1) (\<lambda>s2.
        Ok (tlb_invalidate (wr s2 a 0) pd la)))
      else Ok s)"

definition page_remove :: "vm \<Rightarrow> nat \<Rightarrow> u32 \<Rightarrow> vm res" where
  "page_remove s pd la =
     res_bind (get_pte s pd la False) (\<lambda>(ptep, s1).
     case ptep of None \<Rightarrow> Ok s1 | Some a \<Rightarrow> page_remove_pte s1 pd la a)"

definition page_insert :: "vm \<Rightarrow> nat \<Rightarrow> nat \<Rightarrow> u32 \<Rightarrow> u32 \<Rightarrow> ((errno + unit) \<times> vm) res" where
  "page_insert s pd page la perm =
     res_bind (get_pte s pd la True) (\<lambda>(ptep, s1).
     case ptep of None \<Rightarrow> Ok (Inl E_NO_MEM, s1) | Some a \<Rightarrow>
     let s2 = page_ref_inc s1 page in
     res_bind
       (if rd s2 a AND PTE_P \<noteq> 0 then
          res_bind (pte2page (npage (phys s2)) (rd s2 a)) (\<lambda>p.
          if p = page then Ok (snd (page_ref_dec s2 page)) else page_remove_pte s2 pd la a)
        else Ok s2)
       (\<lambda>s3. Ok (Inr (), tlb_invalidate (wr s3 a (page2pa page OR PTE_P OR perm)) pd la)))"

definition pgdir_alloc_page :: "vm \<Rightarrow> nat \<Rightarrow> u32 \<Rightarrow> u32 \<Rightarrow> (nat option \<times> vm) res" where
  "pgdir_alloc_page s pd la perm =
     res_bind (alloc_pages s 1) (\<lambda>(page, s1).
     case page of None \<Rightarrow> Ok (None, s1) | Some p \<Rightarrow>
     res_bind (page_insert s1 pd p la perm) (\<lambda>(r, s2).
     case r of
       Inl _ \<Rightarrow> res_bind (free_pages s2 p 1) (\<lambda>s3. Ok (None, s3))
     | Inr _ \<Rightarrow>
         if swap_init_ok s2 then
           (case check_mm_struct s2 of
              None \<Rightarrow> Ok (Some p, s2)
            | Some m \<Rightarrow> res_bind (fifo_map_swappable s2 m p) (\<lambda>s3.
                let s4 = upd_phys s3 p (\<lambda>pg. pg\<lparr>pra_vaddr := la\<rparr>)
                in assert_c (ref (pages (phys s4) p) = 1) (Ok (Some p, s4))))
         else Ok (Some p, s2)))"

section \<open>Address ranges\<close>

text \<open>\<open>NULL\<close> from \<open>get_pte\<close> means that a whole page table is missing: the loop goes on behind it.\<close>

partial_function (option) unmap_loop :: "vm \<Rightarrow> nat \<Rightarrow> u32 \<Rightarrow> u32 \<Rightarrow> vm res option" where
  "unmap_loop s pd start e =
     step_res (get_pte s pd start False) (\<lambda>(ptep, s1).
       case ptep of
         None \<Rightarrow>
           (let st = ROUNDDOWN (start + PTSIZE) PTSIZE
            in if st \<noteq> 0 \<and> st < e then unmap_loop s1 pd st e else Some (Ok s1))
       | Some a \<Rightarrow>
           step_res (if rd s1 a \<noteq> 0 then page_remove_pte s1 pd start a else Ok s1) (\<lambda>s2.
             let st = start + PGSIZE
             in if st \<noteq> 0 \<and> st < e then unmap_loop s2 pd st e else Some (Ok s2)))"

definition unmap_range :: "vm \<Rightarrow> nat \<Rightarrow> u32 \<Rightarrow> u32 \<Rightarrow> vm res" where
  "unmap_range s pd start e =
     assert_c (start mod PGSIZE = 0 \<and> e mod PGSIZE = 0)
       (assert_c (USER_ACCESS start e) (run_loop (unmap_loop s pd start e)))"

partial_function (option) exit_loop :: "vm \<Rightarrow> nat \<Rightarrow> u32 \<Rightarrow> u32 \<Rightarrow> vm res option" where
  "exit_loop s pd start e =
     step_res
       (let pdep = (pd, unat (PDX start))
        in if rd s pdep AND PTE_P \<noteq> 0
           then res_bind (pde2page (npage (phys s)) (rd s pdep)) (\<lambda>p.
                res_bind (free_pages s p 1) (\<lambda>s1. Ok (wr s1 pdep 0)))
           else Ok s)
       (\<lambda>s2. let st = start + PTSIZE
             in if st \<noteq> 0 \<and> st < e then exit_loop s2 pd st e else Some (Ok s2))"

definition exit_range :: "vm \<Rightarrow> nat \<Rightarrow> u32 \<Rightarrow> u32 \<Rightarrow> vm res" where
  "exit_range s pd start e =
     assert_c (start mod PGSIZE = 0 \<and> e mod PGSIZE = 0)
       (assert_c (USER_ACCESS start e) (run_loop (exit_loop s pd (ROUNDDOWN start PTSIZE) e)))"

text \<open>The copy of one page: a page table for the child, a new page, its contents, its mapping. Only a
  missing page table is an error; a missing page fails an assertion.\<close>

definition copy_page :: "vm \<Rightarrow> nat \<Rightarrow> u32 \<Rightarrow> nat \<times> nat \<Rightarrow> ((errno + unit) \<times> vm) res" where
  "copy_page s pd2 start a =
     res_bind (get_pte s pd2 start True) (\<lambda>(nptep, s1).
     case nptep of None \<Rightarrow> Ok (Inl E_NO_MEM, s1) | Some _ \<Rightarrow>
     let perm = rd s1 a AND PTE_USER in
     res_bind (pte2page (npage (phys s1)) (rd s1 a)) (\<lambda>page.
     res_bind (alloc_pages s1 1) (\<lambda>(np, s2).
     case np of None \<Rightarrow> Panic | Some n \<Rightarrow>
     res_bind (page2kva (npage (phys s2)) page) (\<lambda>_.
     res_bind (page2kva (npage (phys s2)) n) (\<lambda>_.
     let s3 = s2\<lparr>pmem := (pmem s2)(n := pmem s2 page)\<rparr> in
     res_bind (page_insert s3 pd2 n start perm) (\<lambda>(r, s4).
     assert_c (r = Inr ()) (Ok (Inr (), s4))))))))"

partial_function (option) copy_loop ::
  "vm \<Rightarrow> nat \<Rightarrow> nat \<Rightarrow> u32 \<Rightarrow> u32 \<Rightarrow> ((errno + unit) \<times> vm) res option" where
  "copy_loop s pd2 pd start e =
     step_res (get_pte s pd start False) (\<lambda>(ptep, s1).
       case ptep of
         None \<Rightarrow>
           (let st = ROUNDDOWN (start + PTSIZE) PTSIZE
            in if st \<noteq> 0 \<and> st < e then copy_loop s1 pd2 pd st e else Some (Ok (Inr (), s1)))
       | Some a \<Rightarrow>
           step_res (if rd s1 a AND PTE_P \<noteq> 0 then copy_page s1 pd2 start a else Ok (Inr (), s1)) (\<lambda>(r, s2).
             case r of
               Inl err \<Rightarrow> Some (Ok (Inl err, s2))
             | Inr _ \<Rightarrow>
                 (let st = start + PGSIZE
                  in if st \<noteq> 0 \<and> st < e then copy_loop s2 pd2 pd st e else Some (Ok (Inr (), s2)))))"

definition copy_range :: "vm \<Rightarrow> nat \<Rightarrow> nat \<Rightarrow> u32 \<Rightarrow> u32 \<Rightarrow> ((errno + unit) \<times> vm) res" where
  "copy_range s pd2 pd start e =
     assert_c (start mod PGSIZE = 0 \<and> e mod PGSIZE = 0)
       (assert_c (USER_ACCESS start e) (run_loop (copy_loop s pd2 pd start e)))"

text \<open>The kernel's own mapping of physical memory.\<close>

fun boot_map_loop :: "nat \<Rightarrow> vm \<Rightarrow> nat \<Rightarrow> u32 \<Rightarrow> u32 \<Rightarrow> u32 \<Rightarrow> vm res" where
  "boot_map_loop 0 s pd la pa perm = Ok s"
| "boot_map_loop (Suc n) s pd la pa perm =
     res_bind (get_pte s pd la True) (\<lambda>(ptep, s1).
     case ptep of None \<Rightarrow> Panic
     | Some a \<Rightarrow> boot_map_loop n (wr s1 a (pa OR PTE_P OR perm)) pd (la + PGSIZE) (pa + PGSIZE) perm)"

definition boot_map_segment :: "vm \<Rightarrow> nat \<Rightarrow> u32 \<Rightarrow> u32 \<Rightarrow> u32 \<Rightarrow> u32 \<Rightarrow> vm res" where
  "boot_map_segment s pd la sz pa perm =
     assert_c (PGOFF la = PGOFF pa)
       (let n = ROUNDUP (sz + PGOFF la) PGSIZE div PGSIZE
        in boot_map_loop (unat n) s pd (ROUNDDOWN la PGSIZE) (ROUNDDOWN pa PGSIZE) perm)"

end
