(* ===== verification/Paging.thy ===== *)
theory Paging
  imports Vm_State
begin

text \<open>
  The page tables of \<open>kern/mm/pmm.c\<close> as address spaces. The two-level table below a page directory is
  read as one map from user page numbers to entries (\<open>pte\<close>); the operations are shown to
  update this map at one place, to keep the reference counts, the allocator and the translation cache
  consistent with it, and to leave every other frame alone.
\<close>

section \<open>Single pages\<close>

abbreviation free :: "vm \<Rightarrow> nat set" where "free s \<equiv> free_pages_of (phys s)"
abbreviation refs :: "vm \<Rightarrow> nat \<Rightarrow> int" where "refs s p \<equiv> ref (pages (phys s) p)"

definition held :: "vm \<Rightarrow> nat set" where
  "held s = usable_pages (phys s) - free s"

text \<open>The pages are the same, and the rest of the memory management is untouched.\<close>

definition same_pages :: "vm \<Rightarrow> vm \<Rightarrow> bool" where
  "same_pages s s' \<longleftrightarrow> s' = s\<lparr>phys := phys s', pmem := pmem s'\<rparr> \<and> npage (phys s') = npage (phys s)
     \<and> usable_pages (phys s') = usable_pages (phys s)"

lemma same_pages_refl [simp]: "same_pages s s"
  by (simp add: same_pages_def)

lemma same_pages_trans:
  assumes "same_pages s t" and "same_pages t u"
  shows "same_pages s u"
proof -
  have st: "t = s\<lparr>phys := phys t, pmem := pmem t\<rparr>" and tu: "u = t\<lparr>phys := phys u, pmem := pmem u\<rparr>"
    using assms by (simp_all add: same_pages_def)
  have "t\<lparr>phys := phys u, pmem := pmem u\<rparr> = s\<lparr>phys := phys u, pmem := pmem u\<rparr>" by (subst st) simp
  then have "u = s\<lparr>phys := phys u, pmem := pmem u\<rparr>" using tu by simp
  then show ?thesis using assms by (simp add: same_pages_def)
qed

lemma same_pages_pmem [simp]: "same_pages s (s\<lparr>pmem := m\<rparr>)" "same_pages s (wr s a w)"
  by (simp_all add: same_pages_def wr_def)

lemma same_pages_fields:
  assumes "same_pages s s'"
  shows "npage (phys s') = npage (phys s)" and "usable_pages (phys s') = usable_pages (phys s)"
    and "cr3_reg s' = cr3_reg s" and "tlb s' = tlb s" and "swap_init_ok s' = swap_init_ok s"
    and "check_mm_struct s' = check_mm_struct s" and "mms s' = mms s" and "vmas s' = vmas s"
    and "mmap_links s' = mmap_links s"
proof -
  have e: "s' = s\<lparr>phys := phys s', pmem := pmem s'\<rparr>" using assms by (simp add: same_pages_def)
  show "npage (phys s') = npage (phys s)" "usable_pages (phys s') = usable_pages (phys s)"
    using assms by (simp_all add: same_pages_def)
  show "cr3_reg s' = cr3_reg s" "tlb s' = tlb s" "swap_init_ok s' = swap_init_ok s"
    "check_mm_struct s' = check_mm_struct s" "mms s' = mms s" "vmas s' = vmas s" "mmap_links s' = mmap_links s"
    by (subst e, simp)+
qed

lemma first_fit_one:
  assumes "spaced bs"
  shows "first_fit 1 bs = None \<longleftrightarrow> cover bs = {}"
proof
  assume "first_fit 1 bs = None"
  then have "\<forall>b \<in> set bs. snd b < 1" by (simp add: first_fit_None)
  then have "bs = []" using assms by (cases bs) (auto simp: spaced_def)
  then show "cover bs = {}" by simp
next
  assume "cover bs = {}"
  then have "bs = []" using assms by (cases bs) (auto simp: spaced_Cons)
  then show "first_fit 1 bs = None" by simp
qed

lemma alloc_page_ok:
  assumes inv: "ff_inv (phys s)" and spare: "swap_init_ok s \<Longrightarrow> free s \<noteq> {}"
  shows "\<exists>r s'. alloc_pages s 1 = Ok (r, s') \<and> same_pages s s' \<and> pmem s' = pmem s \<and> ff_inv (phys s')
      \<and> (\<forall>p. refs s' p = refs s p)
      \<and> (case r of None \<Rightarrow> free s = {} \<and> free s' = {} | Some p \<Rightarrow> p \<in> free s \<and> free s' = free s - {p})"
proof -
  let ?r = "map_option fst (first_fit 1 (free_blocks (phys s)))"
  obtain ph where a: "default_alloc_pages (phys s) 1 = Ok (?r, ph)" "ff_inv ph" "npage ph = npage (phys s)"
    "\<forall>p. ref (pages ph p) = refs s p" "\<forall>p. PageReserved (pages ph p) = PageReserved (pages (phys s) p)"
    "free_blocks ph = (case first_fit 1 (free_blocks (phys s)) of None \<Rightarrow> free_blocks (phys s) | Some (_, bs) \<Rightarrow> bs)"
    using alloc_refines [OF inv, of 1] by auto
  note sp = ff_inv_blocks(1) [OF inv]
  have none: "?r = None \<longleftrightarrow> free s = {}" using first_fit_one [OF sp] by (simp add: free_pages_of_def)
  have "alloc_pages s 1 = Ok (?r, s\<lparr>phys := ph\<rparr>)"
    using a(1) none spare by (auto simp: alloc_pages_def run_loop_def alloc_pages_loop.simps)
  moreover have "same_pages s (s\<lparr>phys := ph\<rparr>)" using a(3,5) by (simp add: same_pages_def usable_pages_def)
  moreover have "case ?r of None \<Rightarrow> free s = {} \<and> free_pages_of ph = {}
      | Some p \<Rightarrow> p \<in> free s \<and> free_pages_of ph = free s - {p}"
  proof (cases "first_fit 1 (free_blocks (phys s))")
    case None
    then show ?thesis using none a(6) by (simp add: free_pages_of_def)
  next
    case (Some y)
    obtain p bs where y: "y = (p, bs)" by (cases y)
    have "{p..<p + 1} = {p}" by auto
    then show ?thesis using first_fit_props(2,3) [OF Some [unfolded y] _ sp] a(6) Some y
      by (simp add: free_pages_of_def)
  qed
  ultimately show ?thesis using a(2,4)
    by (intro exI [of _ ?r] exI [of _ "s\<lparr>phys := ph\<rparr>"]) (cases "first_fit 1 (free_blocks (phys s))"; simp)
qed

lemma free_page_ok:
  assumes inv: "ff_inv (phys s)" and p: "p \<in> held s"
  shows "\<exists>s'. free_pages s p 1 = Ok s' \<and> same_pages s s' \<and> pmem s' = pmem s \<and> ff_inv (phys s')
      \<and> free s' = insert p (free s) \<and> (\<forall>q. refs s' q = (if q = p then 0 else refs s q))"
proof -
  have iv: "{p..<p + unat (1 :: u32)} = {p}" by auto
  have "p + unat (1 :: u32) \<le> unat (npage (phys s))" "{p} \<inter> free s = {}"
    "\<forall>q \<in> {p}. \<not> PageReserved (pages (phys s) q)"
    using p by (auto simp: held_def usable_pages_def)
  then obtain ph where f: "default_free_pages (phys s) p 1 = Ok ph" "ff_inv ph" "npage ph = npage (phys s)"
    "\<forall>q. ref (pages ph q) = (if q \<in> {p} then 0 else refs s q)"
    "\<forall>q. PageReserved (pages ph q) = PageReserved (pages (phys s) q)"
    using free_refines [OF inv, of 1 p] unfolding iv by auto
  have "free_pages_of ph = free s \<union> {p}"
    using free_pages_set [OF inv, of 1 p] f(1) p unfolding iv held_def by auto
  moreover have "same_pages s (s\<lparr>phys := ph\<rparr>)" using f(3,5) by (simp add: same_pages_def usable_pages_def)
  ultimately show ?thesis using f by (intro exI [of _ "s\<lparr>phys := ph\<rparr>"]) (simp add: free_pages_def)
qed

lemma upd_desc_ok:
  assumes inv: "ff_inv (phys s)" and s'_def: "s' = upd_phys s p f"
    and f: "\<And>pg. flags (f pg) = flags pg" "\<And>pg. property (f pg) = property pg"
  shows "same_pages s s'" and "pmem s' = pmem s" and "ff_inv (phys s')" and "free s' = free s"
    and "refs s' q = (if q = p then ref (f (pages (phys s) p)) else refs s q)"
proof -
  let ?ph = "upd_page (phys s) p f"
  have fl: "PageProperty (pages ?ph q) = PageProperty (pages (phys s) q)"
    "PageReserved (pages ?ph q) = PageReserved (pages (phys s) q)" "blk ?ph q = blk (phys s) q" for q
    by (simp_all add: upd_page_def PageProperty_def PageReserved_def blk_def f)
  have bl: "blk ?ph = blk (phys s)" using fl(3) by blast
  obtain ps where ok: "ff_ok (phys s) ps" using inv by (auto simp: ff_inv_def)
  have ok': "ff_ok ?ph ps" using ok fl(1,2) unfolding ff_ok_def bl by (simp add: upd_page_def)
  have "free_blocks ?ph = free_blocks (phys s)" using free_blocks_eq [OF ok] free_blocks_eq [OF ok'] bl by simp
  then show "free s' = free s" by (simp add: s'_def upd_phys_def free_pages_of_def)
  show "ff_inv (phys s')" using ok' by (auto simp: s'_def upd_phys_def ff_inv_def)
  have "usable_pages ?ph = usable_pages (phys s)" unfolding usable_pages_def fl(2) by (simp add: upd_page_def)
  then show "same_pages s s'" by (simp add: same_pages_def s'_def upd_phys_def upd_page_def)
  show "pmem s' = pmem s" "refs s' q = (if q = p then ref (f (pages (phys s) p)) else refs s q)"
    by (simp_all add: s'_def upd_phys_def upd_page_def)
qed

lemma upd_ref_ok:
  assumes "ff_inv (phys s)" and "s' = upd_phys s p (\<lambda>pg. pg\<lparr>ref := g (ref pg)\<rparr>)"
  shows "same_pages s s'" and "pmem s' = pmem s" and "ff_inv (phys s')" and "free s' = free s"
    and "refs s' q = (if q = p then g (refs s p) else refs s q)"
  using upd_desc_ok [OF assms] by simp_all

section \<open>An address space\<close>

definition UDIR :: nat where "UDIR = 704"
definition UPAGES :: nat where "UPAGES = UDIR * 1024"

text \<open>Below \<open>USERTOP\<close> the directory has \<open>UDIR\<close> entries. Entry \<open>d\<close> may have a table, in frame \<open>tab\<close>.\<close>

definition has_tab :: "vm \<Rightarrow> nat \<Rightarrow> nat \<Rightarrow> bool" where
  "has_tab s pd d \<longleftrightarrow> pmem s pd d AND PTE_P \<noteq> 0"

definition frame :: "u32 \<Rightarrow> nat" where
  "frame e = unat (PPN e)"

definition tab :: "vm \<Rightarrow> nat \<Rightarrow> nat \<Rightarrow> nat" where
  "tab s pd d = frame (pmem s pd d)"

definition tables :: "vm \<Rightarrow> nat \<Rightarrow> nat set" where
  "tables s pd = tab s pd ` {d. d < UDIR \<and> has_tab s pd d}"

text \<open>The entry of user page \<open>v\<close>.\<close>

definition pte :: "vm \<Rightarrow> nat \<Rightarrow> nat \<Rightarrow> u32" where
  "pte s pd v = (if has_tab s pd (v div 1024) then pmem s (tab s pd (v div 1024)) (v mod 1024) else 0)"

definition mapped :: "u32 \<Rightarrow> bool" where
  "mapped e \<longleftrightarrow> e AND PTE_P \<noteq> 0"

definition mappings :: "(nat \<Rightarrow> u32) \<Rightarrow> nat \<Rightarrow> nat set" where
  "mappings m p = {v. v < UPAGES \<and> mapped (m v) \<and> frame (m v) = p}"

definition tables_ok :: "vm \<Rightarrow> nat \<Rightarrow> bool" where
  "tables_ok s pd \<longleftrightarrow> ff_inv (phys s) \<and> unat (npage (phys s)) \<le> 2 ^ 20 \<and> pd \<notin> free s \<and> pd \<notin> tables s pd
     \<and> inj_on (tab s pd) {d. d < UDIR \<and> has_tab s pd d} \<and> tables s pd \<subseteq> held s"

definition space_ok :: "vm \<Rightarrow> nat \<Rightarrow> bool" where
  "space_ok s pd \<longleftrightarrow> tables_ok s pd
     \<and> (\<forall>v < UPAGES. mapped (pte s pd v) \<longrightarrow> frame (pte s pd v) \<in> held s - tables s pd - {pd})
     \<and> (\<forall>p. int (card (mappings (pte s pd) p)) \<le> refs s p)"

text \<open>Nothing refers to a free page.\<close>

definition unref :: "vm \<Rightarrow> bool" where
  "unref s \<longleftrightarrow> (\<forall>p \<in> free s. refs s p = 0)"

text \<open>The processor caches only what the tables say.\<close>

definition tlb_ok :: "vm \<Rightarrow> nat \<Rightarrow> bool" where
  "tlb_ok s pd \<longleftrightarrow> (cr3_reg s = page2pa pd \<longrightarrow>
     (\<forall>v < UPAGES. \<forall>e. tlb s (of_nat v) = Some e \<longrightarrow> mapped e \<and> e = pte s pd v))"

abbreviation upage :: "u32 \<Rightarrow> nat" where "upage la \<equiv> unat (PPN la)"

lemma user_address:
  assumes "la < USERTOP"
  shows "unat (PDX la) < UDIR" and "upage la < UPAGES" and "upage la div 1024 = unat (PDX la)"
    and "upage la mod 1024 = unat (PTX la)"
proof -
  have "unat la < 704 * 2 ^ 22" using assms by (simp add: USERTOP_def word_less_nat_alt)
  then show d: "unat (PDX la) < UDIR" by (simp add: unat_PDX UDIR_def less_mult_imp_div_less)
  show "upage la div 1024 = unat (PDX la)" "upage la mod 1024 = unat (PTX la)"
    using PTX_less [of la] by (simp_all add: PPN_PDX_PTX)
  show "upage la < UPAGES" using d PTX_less [of la] by (simp add: PPN_PDX_PTX UPAGES_def)
qed

lemma mapped_frame_less:
  assumes "frame e \<in> held s"
  shows "frame e < unat (npage (phys s))"
  using assms by (simp add: held_def usable_pages_def)

lemma pa2page_frame: "frame e < unat np \<Longrightarrow> pa2page np (PTE_ADDR e) = Ok (frame e)"
  by (simp add: pa2page_def frame_def word_le_nat_alt)

lemma finite_mappings [simp]: "finite (mappings m p)"
  by (simp add: mappings_def)

lemma mappings_upd:
  "v < UPAGES \<Longrightarrow> mappings (m(v := e)) p =
     (if mapped e \<and> frame e = p then insert v (mappings m p) else mappings m p - {v})"
  by (auto simp: mappings_def)

lemma mappings_cong: "(\<And>v. v < UPAGES \<Longrightarrow> m v = m' v) \<Longrightarrow> mappings m p = mappings m' p"
  by (auto simp: mappings_def)

lemma or_less_PGSIZE: "a < PGSIZE \<Longrightarrow> b < PGSIZE \<Longrightarrow> a OR b < PGSIZE"
proof -
  assume "a < PGSIZE" "b < PGSIZE"
  then have "take_bit 12 (unat a) = unat a" "take_bit 12 (unat b) = unat b"
    by (simp_all add: PGSIZE_def word_less_nat_alt take_bit_nat_eq_self_iff)
  then have "take_bit 12 (unat (a OR b)) = unat (a OR b)" by (simp add: unsigned_or_eq)
  then show "a OR b < PGSIZE" by (simp add: PGSIZE_def word_less_nat_alt take_bit_nat_eq_self_iff)
qed

lemma new_entry:
  assumes "p < 2 ^ 20" and "perm < PGSIZE"
  shows "mapped (page2pa p OR PTE_P OR perm)" and "frame (page2pa p OR PTE_P OR perm) = p"
proof -
  have "(page2pa p OR PTE_P OR perm) AND PTE_P = PTE_P"
    by (rule bit_word_eqI) (auto simp: PTE_P_def bit_simps)
  then show "mapped (page2pa p OR PTE_P OR perm)" by (simp add: mapped_def PTE_P_def)
  have "PTE_P OR perm < PGSIZE" by (rule or_less_PGSIZE) (use assms(2) in \<open>simp_all add: PTE_P_def PGSIZE_def\<close>)
  then show "frame (page2pa p OR PTE_P OR perm) = p"
    using PPN_page2pa_or [OF assms(1), of "PTE_P OR perm"] assms(1)
    by (simp add: frame_def or.assoc unat_of_nat_u32)
qed

section \<open>Finding and making page tables\<close>

lemma tables_okD:
  assumes "tables_ok s pd"
  shows "ff_inv (phys s)" and "unat (npage (phys s)) \<le> 2 ^ 20" and "pd \<notin> free s" and "pd \<notin> tables s pd"
    and "inj_on (tab s pd) {d. d < UDIR \<and> has_tab s pd d}" and "tables s pd \<subseteq> held s"
  using assms by (simp_all add: tables_ok_def)

lemma tab_in: "d < UDIR \<Longrightarrow> has_tab s pd d \<Longrightarrow> tab s pd d \<in> tables s pd"
  by (auto simp: tables_def)

lemma held_less: "f \<in> held s \<Longrightarrow> f < unat (npage (phys s))"
  by (simp add: held_def usable_pages_def)

lemma get_pte_found:
  assumes ok: "tables_ok s pd" and la: "la < USERTOP" and tb: "has_tab s pd (unat (PDX la))"
  shows "get_pte s pd la c = Ok (Some (tab s pd (unat (PDX la)), unat (PTX la)), s)"
proof -
  have "tab s pd (unat (PDX la)) \<in> held s" using tab_in [OF user_address(1) [OF la] tb] tables_okD(6) [OF ok] by blast
  then have "frame (pmem s pd (unat (PDX la))) < unat (npage (phys s))" using held_less by (simp add: tab_def)
  then show ?thesis using tb
    by (simp add: get_pte_def rd_def has_tab_def pa2page_frame PDE_ADDR_def tab_def Let_def)
qed

lemma get_pte_absent: "\<not> has_tab s pd (unat (PDX la)) \<Longrightarrow> get_pte s pd la False = Ok (None, s)"
  by (simp add: get_pte_def rd_def has_tab_def Let_def)

lemma get_pte_create:
  assumes ok: "space_ok s pd" and la: "la < USERTOP" and nt: "\<not> has_tab s pd (unat (PDX la))"
    and spare: "swap_init_ok s \<Longrightarrow> free s \<noteq> {}"
  shows "\<exists>r s'. get_pte s pd la True = Ok (r, s') \<and> same_pages s s'
    \<and> (case r of None \<Rightarrow> free s = {} \<and> free s' = {} \<and> pmem s' = pmem s \<and> (\<forall>p. refs s' p = refs s p) \<and> ff_inv (phys s')
       | Some a \<Rightarrow> a = (tab s' pd (unat (PDX la)), unat (PTX la)) \<and> tab s' pd (unat (PDX la)) \<in> free s
           \<and> free s' = free s - {tab s' pd (unat (PDX la))} \<and> ff_inv (phys s')
           \<and> pmem s' = (pmem s)(tab s' pd (unat (PDX la)) := \<lambda>_. 0, pd := (pmem s pd)(unat (PDX la) := pmem s' pd (unat (PDX la))))
           \<and> has_tab s' pd (unat (PDX la))
           \<and> (\<forall>p. refs s' p = (if p = tab s' pd (unat (PDX la)) then 1 else refs s p)))"
proof -
  let ?d = "unat (PDX la)" and ?np = "npage (phys s)"
  have to: "tables_ok s pd" using ok by (simp add: space_ok_def)
  note inv = tables_okD(1) [OF to]
  obtain r s1 where a: "alloc_pages s 1 = Ok (r, s1)" "same_pages s s1" "pmem s1 = pmem s" "ff_inv (phys s1)"
    "\<forall>p. refs s1 p = refs s p"
    "case r of None \<Rightarrow> free s = {} \<and> free s1 = {} | Some p \<Rightarrow> p \<in> free s \<and> free s1 = free s - {p}"
    using alloc_page_ok [OF inv spare] by blast
  show ?thesis
  proof (cases r)
    case None
    then show ?thesis using a nt by (simp add: get_pte_def rd_def has_tab_def Let_def)
  next
    case (Some p)
    then have p: "p \<in> free s" "free s1 = free s - {p}" using a(6) by auto
    have "p \<in> usable_pages (phys s)" using p(1) free_pages_usable [OF inv] by blast
    then have pn: "p < unat ?np" by (simp add: usable_pages_def)
    have p20: "p < 2 ^ 20" using pn tables_okD(2) [OF to] by linarith
    define e where "e = page2pa p OR PTE_U OR PTE_W OR PTE_P"
    have "e = page2pa p OR PTE_P OR (PTE_U OR PTE_W)" by (simp add: e_def or.assoc or.left_commute or.commute)
    moreover have "PTE_U OR PTE_W < PGSIZE" by (simp add: PTE_U_def PTE_W_def PGSIZE_def)
    ultimately have e: "mapped e" "frame e = p" using new_entry [OF p20] by auto
    define s2 where "s2 = set_page_ref s1 p 1"
    note u = upd_ref_ok [OF a(4), of s2 p "\<lambda>_. 1", unfolded s2_def set_page_ref_def, OF refl, folded set_page_ref_def, folded s2_def]
    have np2: "npage (phys s2) = ?np"
      using same_pages_fields(1) [OF u(1)] same_pages_fields(1) [OF a(2)] by simp
    define s' where "s' = wr (s2\<lparr>pmem := (pmem s2)(p := (\<lambda>_. 0))\<rparr>) (pd, ?d) e"
    have "PPN (page2pa p) = of_nat p" using PPN_page2pa_or [OF p20, of 0] by (simp add: PGSIZE_def)
    then have kv: "\<exists>k. page2kva (npage (phys s2)) p = Ok k"
      using pn p20 by (simp add: page2kva_def KADDR_def np2 word_le_nat_alt unat_of_nat_u32)
    have f': "frame e < unat (npage (phys s'))" using e(2) pn np2 by (simp add: s'_def wr_def)
    have pd': "pmem s' pd ?d = e" by (simp add: s'_def wr_def)
    have run: "get_pte s pd la True = Ok (Some (p, unat (PTX la)), s')"
      using nt a(1) Some kv f' e(2) pd'
      by (auto simp: get_pte_def rd_def has_tab_def Let_def s2_def [symmetric] e_def [symmetric] s'_def [symmetric]
          PDE_ADDR_def pa2page_frame)
    have tb: "tab s' pd ?d = p" "has_tab s' pd ?d" using e pd' by (simp_all add: tab_def has_tab_def mapped_def)
    have sp: "same_pages s s'"
      unfolding s'_def
      by (rule same_pages_trans [OF same_pages_trans [OF same_pages_trans [OF a(2) u(1)] same_pages_pmem(1)] same_pages_pmem(2)])
    have ph: "phys s' = phys s2" by (simp add: s'_def wr_def)
    have ppd: "p \<noteq> pd" using p(1) tables_okD(3) [OF to] by blast
    have pm: "pmem s' = (pmem s)(p := \<lambda>_. 0, pd := (pmem s pd)(?d := pmem s' pd ?d))"
      using ppd u(2) a(3) by (auto simp: s'_def wr_def fun_eq_iff)
    show ?thesis using run sp tb pm p u(3-5) a(5) ph
      by (intro exI [of _ "Some (p, unat (PTX la))"] exI [of _ s']) simp
  qed
qed

lemma table_cong:
  assumes "pmem s' pd = pmem s pd"
  shows "has_tab s' pd d = has_tab s pd d" and "tab s' pd d = tab s pd d" and "tables s' pd = tables s pd"
  using assms by (simp_all add: has_tab_def tab_def tables_def)

lemma pte_cong:
  assumes "pmem s' pd = pmem s pd" and "\<And>f. f \<in> tables s pd \<Longrightarrow> pmem s' f = pmem s f" and "v < UPAGES"
  shows "pte s' pd v = pte s pd v"
proof -
  have d: "v div 1024 < UDIR" using assms(3) by (simp add: UPAGES_def less_mult_imp_div_less)
  show ?thesis using assms(1,2) tab_in [OF d, of s pd] table_cong(1,2) [OF assms(1)] by (simp add: pte_def)
qed

text \<open>The new table changes nothing that is mapped.\<close>

lemma new_table:
  assumes ok: "space_ok s pd" and d: "d < UDIR" and nt: "\<not> has_tab s pd d" and f: "f \<in> free s"
    and pm: "pmem s' = (pmem s)(f := \<lambda>_. 0, pd := (pmem s pd)(d := e))"
    and e: "has_tab s' pd d" "tab s' pd d = f"
    and ph: "same_pages s s'" "ff_inv (phys s')" "free s' = free s - {f}"
    and rf: "\<And>p. refs s' p = (if p = f then 1 else refs s p)"
  shows "space_ok s' pd" and "\<And>v. v < UPAGES \<Longrightarrow> pte s' pd v = pte s pd v" and "tables s' pd = insert f (tables s pd)"
proof -
  have to: "tables_ok s pd" using ok by (simp add: space_ok_def)
  note tb = tables_okD [OF to]
  have fpd: "f \<noteq> pd" and ft: "f \<notin> tables s pd" using f tb(3,6) by (auto simp: held_def)
  have old: "pmem s' pd x = pmem s pd x" if "x \<noteq> d" for x using that fpd by (simp add: pm)
  have hs: "has_tab s' pd x \<longleftrightarrow> x = d \<or> has_tab s pd x" for x using e(1) nt old [of x] by (cases "x = d") (auto simp: has_tab_def)
  have ts: "tab s' pd x = tab s pd x" if "has_tab s pd x" for x using that nt old [of x] by (cases "x = d") (auto simp: tab_def)
  show tbl: "tables s' pd = insert f (tables s pd)" using d e(2) hs ts nt by (force simp: tables_def)
  show pt: "pte s' pd v = pte s pd v" if v: "v < UPAGES" for v
  proof -
    have vd: "v div 1024 < UDIR" using v by (simp add: UPAGES_def less_mult_imp_div_less)
    show ?thesis
    proof (cases "has_tab s pd (v div 1024)")
      case True
      then have "tab s pd (v div 1024) \<in> tables s pd" using tab_in [OF vd] by blast
      then have "tab s pd (v div 1024) \<noteq> f" "tab s pd (v div 1024) \<noteq> pd" using ft tb(4) by auto
      then show ?thesis using True hs ts by (simp add: pte_def pm)
    next
      case False
      then show ?thesis using hs e(2) fpd by (auto simp: pte_def pm)
    qed
  qed
  have hl: "held s' = insert f (held s)"
    using ph(3) same_pages_fields(2) [OF ph(1)] f free_pages_usable [OF tb(1)] by (auto simp: held_def)
  have "inj_on (tab s' pd) {x. x < UDIR \<and> has_tab s' pd x}"
  proof -
    have "{x. x < UDIR \<and> has_tab s' pd x} = insert d {x. x < UDIR \<and> has_tab s pd x}" using hs d by auto
    moreover have "inj_on (tab s' pd) {x. x < UDIR \<and> has_tab s pd x}" using tb(5) ts by (simp add: inj_on_def)
    moreover have "tab s' pd d \<notin> tab s' pd ` ({x. x < UDIR \<and> has_tab s pd x} - {d})"
      using e(2) ft ts by (auto simp: tables_def)
    ultimately show ?thesis by simp
  qed
  then have to': "tables_ok s' pd"
    using tb ph same_pages_fields(1) [OF ph(1)] tbl hl fpd by (auto simp: tables_ok_def)
  have "frame (pte s' pd v) \<in> held s' - tables s' pd - {pd}" if "v < UPAGES" "mapped (pte s' pd v)" for v
    using ok that pt f unfolding space_ok_def hl tbl by (auto simp: held_def)
  moreover have "int (card (mappings (pte s' pd) p)) \<le> refs s' p" for p
  proof -
    have m: "mappings (pte s' pd) p = mappings (pte s pd) p" using pt by (rule mappings_cong)
    have "mappings (pte s pd) f = {}" using ok f unfolding space_ok_def mappings_def held_def by auto
    then show ?thesis using ok rf [of p] m by (auto simp: space_ok_def)
  qed
  ultimately show "space_ok s' pd" using to' by (simp add: space_ok_def)
qed

lemma space_ok_same:
  assumes ok: "space_ok s pd" and pm: "pmem s' = pmem s" and fr: "free s' = free s" and iv: "ff_inv (phys s')"
    and sp: "same_pages s s'" and rf: "\<And>p. refs s' p = refs s p"
  shows "space_ok s' pd" and "pte s' pd = pte s pd" and "tables s' pd = tables s pd"
proof -
  have t: "has_tab s' pd = has_tab s pd" "tab s' pd = tab s pd"
    by (simp_all add: fun_eq_iff has_tab_def tab_def pm)
  show pt: "pte s' pd = pte s pd" by (simp add: fun_eq_iff pte_def t pm)
  show tb: "tables s' pd = tables s pd" by (simp add: tables_def t)
  have hl: "held s' = held s" using fr same_pages_fields(2) [OF sp] by (simp add: held_def)
  have np: "npage (phys s') = npage (phys s)" by (rule same_pages_fields(1) [OF sp])
  have "tables_ok s' pd"
    using ok iv unfolding space_ok_def tables_ok_def t tb hl fr np by blast
  then show "space_ok s' pd" using ok unfolding space_ok_def pt tb hl rf by blast
qed

lemma get_pte_ok:
  assumes ok: "space_ok s pd" and la: "la < USERTOP" and spare: "swap_init_ok s \<Longrightarrow> free s \<noteq> {}"
  shows "\<exists>r s'. get_pte s pd la True = Ok (r, s') \<and> same_pages s s' \<and> space_ok s' pd
    \<and> (\<forall>v < UPAGES. pte s' pd v = pte s pd v) \<and> tables s pd \<subseteq> tables s' pd \<and> tables s' pd \<subseteq> tables s pd \<union> free s
    \<and> free s' \<subseteq> free s \<and> (\<forall>q \<in> free s'. refs s' q = refs s q)
    \<and> (\<exists>t. free s \<subseteq> insert t (free s')) \<and> (has_tab s pd (unat (PDX la)) \<longrightarrow> s' = s)
    \<and> (\<forall>f. f \<notin> free s \<longrightarrow> refs s' f = refs s f \<and> (f \<noteq> pd \<longrightarrow> pmem s' f = pmem s f))
    \<and> (case r of None \<Rightarrow> free s = {}
       | Some a \<Rightarrow> a = (tab s' pd (unat (PDX la)), unat (PTX la)) \<and> has_tab s' pd (unat (PDX la)))"
proof (cases "has_tab s pd (unat (PDX la))")
  case True
  then show ?thesis using get_pte_found [OF _ la True] ok by (auto simp: space_ok_def)
next
  case False
  obtain r s' where g: "get_pte s pd la True = Ok (r, s')" "same_pages s s'"
    "case r of None \<Rightarrow> free s = {} \<and> free s' = {} \<and> pmem s' = pmem s \<and> (\<forall>p. refs s' p = refs s p) \<and> ff_inv (phys s')
     | Some a \<Rightarrow> a = (tab s' pd (unat (PDX la)), unat (PTX la)) \<and> tab s' pd (unat (PDX la)) \<in> free s
         \<and> free s' = free s - {tab s' pd (unat (PDX la))} \<and> ff_inv (phys s')
         \<and> pmem s' = (pmem s)(tab s' pd (unat (PDX la)) := \<lambda>_. 0, pd := (pmem s pd)(unat (PDX la) := pmem s' pd (unat (PDX la))))
         \<and> has_tab s' pd (unat (PDX la))
         \<and> (\<forall>p. refs s' p = (if p = tab s' pd (unat (PDX la)) then 1 else refs s p))"
    using get_pte_create [OF ok la False spare] by blast
  show ?thesis
  proof (cases r)
    case None
    then have e: "free s = {}" "free s' = {}" "pmem s' = pmem s" "\<forall>p. refs s' p = refs s p" "ff_inv (phys s')"
      using g(3) by auto
    have "free s' = free s" using e(1,2) by simp
    note same = space_ok_same [OF ok e(3) this e(5) g(2) e(4) [rule_format]]
    show ?thesis using g(1,2) None e same False by (intro exI [of _ r] exI [of _ s']) simp
  next
    case (Some a)
    let ?d = "unat (PDX la)"
    have e: "a = (tab s' pd ?d, unat (PTX la))" "tab s' pd ?d \<in> free s" "free s' = free s - {tab s' pd ?d}" "ff_inv (phys s')"
      "pmem s' = (pmem s)(tab s' pd ?d := \<lambda>_. 0, pd := (pmem s pd)(?d := pmem s' pd ?d))"
      "has_tab s' pd ?d" "\<forall>p. refs s' p = (if p = tab s' pd ?d then 1 else refs s p)"
      using g(3) Some by auto
    note n = new_table [OF ok user_address(1) [OF la] False e(2,5,6) refl g(2) e(4,3) e(7) [rule_format]]
    have "pmem s' f = pmem s f" if "f \<notin> free s" "f \<noteq> pd" for f
    proof -
      have "f \<noteq> tab s' pd ?d" using that e(2) by blast
      then show ?thesis using that(2) by (subst e(5)) simp
    qed
    moreover have "refs s' f = refs s f" if "f \<notin> free s" for f using that e(2,7) by auto
    moreover have "\<exists>t. free s \<subseteq> insert t (free s')" using e(3) by auto
    ultimately show ?thesis using g(1,2) Some e(1-3,6,7) n False by (intro exI [of _ r] exI [of _ s']) auto
  qed
qed

section \<open>Changing one entry\<close>

definition same_vm :: "vm \<Rightarrow> vm \<Rightarrow> bool" where
  "same_vm s s' \<longleftrightarrow> same_pages (s\<lparr>tlb := tlb s'\<rparr>) s'"

lemma same_vm_fields:
  assumes "same_vm s s'"
  shows "npage (phys s') = npage (phys s)" and "usable_pages (phys s') = usable_pages (phys s)"
    and "cr3_reg s' = cr3_reg s" and "swap_init_ok s' = swap_init_ok s"
    and "check_mm_struct s' = check_mm_struct s" and "mms s' = mms s" and "vmas s' = vmas s"
    and "mmap_links s' = mmap_links s"
  using same_pages_fields [OF assms [unfolded same_vm_def]] by simp_all

lemma same_pages_vm: "same_pages s s' \<Longrightarrow> same_vm s s'"
  using same_pages_fields(4) [of s s'] by (simp add: same_vm_def)

lemma same_vm_refl [simp]: "same_vm s s"
  by (simp add: same_vm_def)

lemma same_vm_trans:
  assumes "same_vm s t" and "same_vm t u"
  shows "same_vm s u"
proof -
  have t: "t = s\<lparr>tlb := tlb t, phys := phys t, pmem := pmem t\<rparr>" and u: "u = t\<lparr>tlb := tlb u, phys := phys u, pmem := pmem u\<rparr>"
    using assms by (simp_all add: same_vm_def same_pages_def)
  have "t\<lparr>tlb := tlb u, phys := phys u, pmem := pmem u\<rparr> = s\<lparr>tlb := tlb u, phys := phys u, pmem := pmem u\<rparr>"
    by (subst t) simp
  then have "u = s\<lparr>tlb := tlb u, phys := phys u, pmem := pmem u\<rparr>" using u by simp
  then show ?thesis using assms by (simp add: same_vm_def same_pages_def)
qed

lemma same_vm_tlb [simp]: "same_vm s (tlb_invalidate s pd la)"
  by (simp add: same_vm_def same_pages_def tlb_invalidate_def)

lemma tlb_invalidate_fields [simp]:
  "phys (tlb_invalidate s pd la) = phys s" "pmem (tlb_invalidate s pd la) = pmem s"
  "tlb (tlb_invalidate s pd la) = (if cr3_reg s = page2pa pd then (tlb s)(PPN la := None) else tlb s)"
  by (simp_all add: tlb_invalidate_def)

lemma tlb_invalidate_tables [simp]:
  "has_tab (tlb_invalidate s pd la) = has_tab s" "tab (tlb_invalidate s pd la) = tab s"
  "tables (tlb_invalidate s pd la) = tables s" "pte (tlb_invalidate s pd la) = pte s"
  "held (tlb_invalidate s pd la) = held s"
  by (simp_all add: fun_eq_iff has_tab_def tab_def tables_def pte_def held_def)

lemma tlb_invalidate_space [simp]:
  "tables_ok (tlb_invalidate s pd la) p = tables_ok s p" "space_ok (tlb_invalidate s pd la) p = space_ok s p"
  by (simp_all add: space_ok_def tables_ok_def)

lemma set_entry:
  assumes ok: "tables_ok s pd" and v: "v < UPAGES" and tb: "has_tab s pd (v div 1024)"
    and s': "s' = wr s (tab s pd (v div 1024), v mod 1024) e"
  shows "w < UPAGES \<Longrightarrow> pte s' pd w = (if w = v then e else pte s pd w)" and "tables s' pd = tables s pd"
    and "tables_ok s' pd" and "f \<notin> tables s pd \<Longrightarrow> pmem s' f = pmem s f" and "phys s' = phys s"
    and "has_tab s' pd d = has_tab s pd d" and "tab s' pd d = tab s pd d"
proof -
  let ?d = "v div 1024"
  have d: "?d < UDIR" using v by (simp add: UPAGES_def less_mult_imp_div_less)
  note tk = tables_okD [OF ok] and inT = tab_in [OF d tb]
  have ne: "tab s pd ?d \<noteq> pd" using inT tk(4) by metis
  have pd': "pmem s' pd = pmem s pd" using ne by (simp add: s' wr_def)
  note tc = table_cong [OF pd']
  show "has_tab s' pd d = has_tab s pd d" "tab s' pd d = tab s pd d" "tables s' pd = tables s pd" by (fact tc)+
  show ph: "phys s' = phys s" by (simp add: s' wr_def)
  show "pmem s' f = pmem s f" if "f \<notin> tables s pd" using that inT by (auto simp: s' wr_def)
  have "tab s' pd = tab s pd" "has_tab s' pd = has_tab s pd" using tc(1,2) by blast+
  then show "tables_ok s' pd" using ok ph tc(3) by (simp add: tables_ok_def held_def)
  show "pte s' pd w = (if w = v then e else pte s pd w)" if w: "w < UPAGES"
  proof (cases "w div 1024 = ?d")
    case True
    then have "w = v \<longleftrightarrow> w mod 1024 = v mod 1024" by (metis div_mult_mod_eq)
    then show ?thesis using True tb tc(1,2) by (simp add: pte_def s' wr_def)
  next
    case False
    then have wv: "w \<noteq> v" by auto
    have wd: "w div 1024 < UDIR" using w by (simp add: UPAGES_def less_mult_imp_div_less)
    have "tab s pd (w div 1024) \<noteq> tab s pd ?d" if "has_tab s pd (w div 1024)"
      using that tk(5) d wd tb False by (auto dest: inj_onD)
    then show ?thesis using wv tc(1,2) by (simp add: pte_def s' wr_def)
  qed
qed

lemma card_mappings_upd:
  assumes v: "v < UPAGES" and m: "\<And>w. w < UPAGES \<Longrightarrow> m' w = (if w = v then e else m w)"
  shows "card (mappings m' p) =
     (if mapped e \<and> frame e = p then Suc (card (mappings m p - {v})) else card (mappings m p - {v}))"
proof -
  have "mappings m' p = mappings (m(v := e)) p" using m by (intro mappings_cong) simp
  also have "\<dots> = (if mapped e \<and> frame e = p then insert v (mappings m p - {v}) else mappings m p - {v})"
    unfolding mappings_upd [OF v] by auto
  finally show ?thesis by (auto simp: card_insert_disjoint simp del: insert_Diff_single)
qed

text \<open>Dropping one reference to a page, and the page itself with the last one.\<close>

lemma drop_ref:
  assumes inv: "ff_inv (phys s)" and p: "p \<in> held s"
  shows "\<exists>s'. (let (r, s1) = page_ref_dec s p in if r = 0 then free_pages s1 p 1 else Ok s1) = Ok s'
    \<and> same_pages s s' \<and> pmem s' = pmem s \<and> ff_inv (phys s')
    \<and> free s' = (if refs s p = 1 then insert p (free s) else free s)
    \<and> (\<forall>q. refs s' q = (if q = p then refs s p - 1 else refs s q))"
proof -
  define s1 where "s1 = upd_phys s p (\<lambda>pg. pg\<lparr>ref := ref pg - 1\<rparr>)"
  note u = upd_ref_ok [where g = "\<lambda>r. r - 1", OF inv s1_def]
  have dec: "page_ref_dec s p = (refs s p - 1, s1)"
    using u(5) [of p] by (simp add: page_ref_dec_def s1_def [symmetric] Let_def)
  show ?thesis
  proof (cases "refs s p = 1")
    case True
    have "p \<in> held s1" using p u(4) same_pages_fields(2) [OF u(1)] by (simp add: held_def)
    then obtain s' where f: "free_pages s1 p 1 = Ok s'" "same_pages s1 s'" "pmem s' = pmem s1" "ff_inv (phys s')"
      "free s' = insert p (free s1)" "\<forall>q. refs s' q = (if q = p then 0 else refs s1 q)"
      using free_page_ok [OF u(3)] by blast
    show ?thesis using dec f u True same_pages_trans [OF u(1) f(2)] by (intro exI [of _ s']) simp
  next
    case False
    then show ?thesis using dec u by (intro exI [of _ s1]) simp
  qed
qed

lemma page_remove_pte_ok:
  assumes ok: "space_ok s pd" and la: "la < USERTOP" and tb: "has_tab s pd (unat (PDX la))"
    and mp: "mapped (pte s pd (upage la))"
  defines "p \<equiv> frame (pte s pd (upage la))"
  shows "\<exists>s'. page_remove_pte s pd la (tab s pd (unat (PDX la)), unat (PTX la)) = Ok s' \<and> space_ok s' pd \<and> same_vm s s'
    \<and> (\<forall>w < UPAGES. pte s' pd w = (if w = upage la then 0 else pte s pd w)) \<and> tables s' pd = tables s pd
    \<and> (\<forall>d. has_tab s' pd d = has_tab s pd d \<and> tab s' pd d = tab s pd d)
    \<and> free s' = (if refs s p = 1 then insert p (free s) else free s)
    \<and> (\<forall>q. refs s' q = (if q = p then refs s p - 1 else refs s q))
    \<and> (\<forall>f. f \<notin> tables s pd \<longrightarrow> pmem s' f = pmem s f)
    \<and> tlb s' = (if cr3_reg s = page2pa pd then (tlb s)(PPN la := None) else tlb s)"
proof -
  let ?v = "upage la" and ?a = "(tab s pd (unat (PDX la)), unat (PTX la))"
  note ua = user_address [OF la]
  have to: "tables_ok s pd" using ok by (simp add: space_ok_def)
  have e: "rd s ?a = pte s pd ?v" using tb ua by (simp add: rd_def pte_def)
  have p: "p \<in> held s" "p \<notin> tables s pd" "p \<noteq> pd" using ok mp ua(2) by (auto simp: space_ok_def p_def)
  have pg: "pte2page (npage (phys s)) (rd s ?a) = Ok p"
    using mp p(1) unfolding e p_def by (simp add: pte2page_def mapped_def pa2page_frame held_less)
  obtain s1 where s1: "(let (r, s1) = page_ref_dec s p in if r = 0 then free_pages s1 p 1 else Ok s1) = Ok s1"
    "same_pages s s1" "pmem s1 = pmem s" "ff_inv (phys s1)"
    "free s1 = (if refs s p = 1 then insert p (free s) else free s)"
    "\<forall>q. refs s1 q = (if q = p then refs s p - 1 else refs s q)"
    using drop_ref [OF tables_okD(1) [OF to] p(1)] by blast
  have t1: "has_tab s1 pd d = has_tab s pd d" "tab s1 pd d = tab s pd d" "tables s1 pd = tables s pd" "pte s1 pd = pte s pd" for d
    using s1(3) by (simp_all add: fun_eq_iff has_tab_def tab_def tables_def pte_def)
  have hl: "held s1 = (if refs s p = 1 then held s - {p} else held s)"
    using s1(5) same_pages_fields(2) [OF s1(2)] by (auto simp: held_def)
  have "tab s1 pd = tab s pd" "has_tab s1 pd = has_tab s pd" using t1(1,2) by blast+
  then have to1: "tables_ok s1 pd"
    using tables_okD [OF to] s1(4,5) same_pages_fields(1) [OF s1(2)] hl p(2,3) t1(3) by (auto simp: tables_ok_def)
  define s2 where "s2 = wr s1 (tab s1 pd (?v div 1024), ?v mod 1024) 0"
  have tb1: "has_tab s1 pd (?v div 1024)" using tb t1(1) ua(3) by simp
  note se = set_entry [OF to1 ua(2) tb1 s2_def]
  define s' where "s' = tlb_invalidate s2 pd la"
  have a2: "wr s1 ?a 0 = s2" by (simp add: s2_def t1(2) ua)
  have run: "page_remove_pte s pd la ?a = Ok s'"
    using mp pg s1(1) a2
    by (auto simp: page_remove_pte_def e [unfolded mapped_def] mapped_def s'_def Let_def split: prod.splits)
  have cards: "card (mappings (pte s2 pd) q) = (if q = p then card (mappings (pte s pd) q) - 1 else card (mappings (pte s pd) q))" for q
  proof -
    have "card (mappings (pte s2 pd) q) = card (mappings (pte s pd) q - {?v})"
      using card_mappings_upd [OF ua(2), of "pte s2 pd" 0 "pte s pd" q] se(1) t1(4) by (simp add: mapped_def)
    moreover have "?v \<in> mappings (pte s pd) q \<longleftrightarrow> q = p" using mp ua(2) by (auto simp: mappings_def p_def)
    ultimately show ?thesis by (auto simp: card_Diff_singleton_if)
  qed
  have vp: "?v \<in> mappings (pte s pd) p" using mp ua(2) by (simp add: mappings_def p_def)
  then have pos: "0 < card (mappings (pte s pd) p)" by (auto simp: card_gt_0_iff)
  have refs2: "int (card (mappings (pte s2 pd) q)) \<le> refs s2 q" for q
  proof -
    have "int (card (mappings (pte s pd) q)) \<le> refs s q" using ok unfolding space_ok_def by blast
    moreover have "refs s2 q = (if q = p then refs s p - 1 else refs s q)" using s1(6) se(5) by simp
    ultimately show ?thesis using cards [of q] pos by (simp add: of_nat_diff split: if_splits)
  qed
  have "frame (pte s2 pd w) \<in> held s2 - tables s2 pd - {pd}" if w: "w < UPAGES" "mapped (pte s2 pd w)" for w
  proof -
    have wv: "w \<noteq> ?v" "mapped (pte s pd w)" "pte s2 pd w = pte s pd w"
      using w se(1) [OF w(1)] t1(4) by (auto simp: mapped_def split: if_splits)
    then have h: "frame (pte s pd w) \<in> held s - tables s pd - {pd}" using ok w(1) by (simp add: space_ok_def)
    have "frame (pte s pd w) \<noteq> p" if "refs s p = 1"
    proof
      assume "frame (pte s pd w) = p"
      then have "{?v, w} \<subseteq> mappings (pte s pd) p" using vp w(1) wv(2) by (auto simp: mappings_def)
      then have "card {?v, w} \<le> card (mappings (pte s pd) p)" by (intro card_mono) auto
      then have "2 \<le> refs s p" using ok wv(1) by (auto simp: space_ok_def dest!: spec [of _ p])
      then show False using that by simp
    qed
    then show ?thesis using h wv(3) hl se(2,5) t1(3) by (auto simp: held_def)
  qed
  then have "space_ok s2 pd" using refs2 se(3) by (simp add: space_ok_def)
  then have "space_ok s' pd" by (simp add: s'_def)
  moreover have "same_vm s s'"
    unfolding s'_def s2_def
    by (rule same_vm_trans [OF same_pages_vm [OF same_pages_trans [OF s1(2) same_pages_pmem(2)]] same_vm_tlb])
  moreover have "\<forall>w < UPAGES. pte s' pd w = (if w = ?v then 0 else pte s pd w)" using se(1) t1(4) by (simp add: s'_def)
  moreover have "\<forall>f. f \<notin> tables s pd \<longrightarrow> pmem s' f = pmem s f" using se(4) s1(3) t1(3) by (simp add: s'_def)
  moreover have "tlb s' = (if cr3_reg s = page2pa pd then (tlb s)(PPN la := None) else tlb s)"
    using same_pages_fields(3,4) [OF s1(2)] by (simp add: s'_def s2_def wr_def)
  ultimately show ?thesis using run s1(5,6) se(2,5,6,7) t1(1-3) by (intro exI [of _ s']) (simp add: s'_def)
qed

text \<open>The references that a page gains and loses when the entry \<open>old\<close> makes room for \<open>page\<close>.\<close>

definition ref_change :: "u32 \<Rightarrow> nat \<Rightarrow> nat \<Rightarrow> int" where
  "ref_change old page q = (if q = page then 1 else 0) - (if mapped old \<and> frame old = q then 1 else 0)"

lemma inc_ref_ok:
  assumes ok: "space_ok s pd"
  shows "space_ok (page_ref_inc s page) pd" and "same_pages s (page_ref_inc s page)"
    and "pmem (page_ref_inc s page) = pmem s" and "free (page_ref_inc s page) = free s"
    and "refs (page_ref_inc s page) q = refs s q + (if q = page then 1 else 0)"
    and "pte (page_ref_inc s page) pd = pte s pd" and "tables (page_ref_inc s page) pd = tables s pd"
    and "has_tab (page_ref_inc s page) pd = has_tab s pd" and "tab (page_ref_inc s page) pd = tab s pd"
    and "held (page_ref_inc s page) = held s"
proof -
  let ?s = "page_ref_inc s page"
  have to: "tables_ok s pd" using ok by (simp add: space_ok_def)
  note u = upd_ref_ok [where g = "\<lambda>r. r + 1", OF tables_okD(1) [OF to] page_ref_inc_def [of s page]]
  show "same_pages s ?s" "pmem ?s = pmem s" "free ?s = free s" by (fact u(1,2,4))+
  show r: "refs ?s q = refs s q + (if q = page then 1 else 0)" for q using u(5) by simp
  show t: "has_tab ?s pd = has_tab s pd" "tab ?s pd = tab s pd" using u(2) by (simp_all add: fun_eq_iff has_tab_def tab_def)
  show pt: "pte ?s pd = pte s pd" and tb: "tables ?s pd = tables s pd" by (simp_all add: fun_eq_iff pte_def tables_def t u(2))
  show hl: "held ?s = held s" using u(4) same_pages_fields(2) [OF u(1)] by (simp add: held_def)
  have "tables_ok ?s pd"
    using to u(3) same_pages_fields(1) [OF u(1)] unfolding tables_ok_def t tb hl u(4) by simp
  moreover have "int (card (mappings (pte s pd) p)) \<le> refs ?s p" for p
  proof -
    have "int (card (mappings (pte s pd) p)) \<le> refs s p" using ok unfolding space_ok_def by blast
    then show ?thesis using r [of p] by (cases "p = page") simp_all
  qed
  ultimately show "space_ok ?s pd" using ok unfolding space_ok_def pt tb hl by blast
qed

lemma clear_entry:
  assumes ok: "space_ok s pd" and la: "la < USERTOP" and tb: "has_tab s pd (unat (PDX la))"
    and page: "page \<in> held s"
  defines "a \<equiv> (tab s pd (unat (PDX la)), unat (PTX la))"
  shows "\<exists>s'. (let s2 = page_ref_inc s page in
        if rd s2 a AND PTE_P \<noteq> 0 then
          res_bind (pte2page (npage (phys s2)) (rd s2 a)) (\<lambda>p.
          if p = page then Ok (snd (page_ref_dec s2 page)) else page_remove_pte s2 pd la a)
        else Ok s2) = Ok s'
    \<and> space_ok s' pd \<and> same_vm s s' \<and> page \<in> held s'
    \<and> int (Suc (card (mappings (pte s' pd) page - {upage la}))) \<le> refs s' page
    \<and> (\<forall>w < UPAGES. w \<noteq> upage la \<longrightarrow> pte s' pd w = pte s pd w) \<and> tables s' pd = tables s pd
    \<and> has_tab s' pd (unat (PDX la)) \<and> tab s' pd (unat (PDX la)) = tab s pd (unat (PDX la))
    \<and> (\<forall>q. refs s' q = refs s q + ref_change (pte s pd (upage la)) page q)
    \<and> (\<forall>f. f \<notin> tables s pd \<longrightarrow> pmem s' f = pmem s f) \<and> (\<forall>x. x \<noteq> PPN la \<longrightarrow> tlb s' x = tlb s x)
    \<and> (\<forall>q. q \<in> free s' \<longrightarrow> q \<in> free s \<or> mapped (pte s pd (upage la)) \<and> q = frame (pte s pd (upage la)) \<and> refs s' q = 0)
    \<and> free s \<subseteq> free s'"
proof -
  let ?v = "upage la" and ?old = "pte s pd (upage la)"
  define s2 where "s2 = page_ref_inc s page"
  note ua = user_address [OF la]
  note i = inc_ref_ok [OF ok, of page, folded s2_def]
  have le: "int (card (mappings (pte s pd) page)) \<le> refs s page" using ok unfolding space_ok_def by blast
  have e2: "rd s2 a = ?old" using tb ua by (simp add: rd_def pte_def a_def i(3))
  have del: "card (mappings (pte s pd) page - {?v}) \<le> card (mappings (pte s pd) page)" by (simp add: card_Diff1_le)
  consider (none) "\<not> mapped ?old" | (same) "mapped ?old" "frame ?old = page" | (other) "mapped ?old" "frame ?old \<noteq> page" by blast
  then show ?thesis
  proof cases
    case none
    have "int (Suc (card (mappings (pte s pd) page - {?v}))) \<le> refs s2 page" using le del i(5) [of page] by simp
    then show ?thesis
      using none i tb page same_pages_vm [OF i(2)] same_pages_fields(4) [OF i(2)]
      by (intro exI [of _ s2]) (simp add: s2_def [symmetric] Let_def e2 [unfolded mapped_def] mapped_def ref_change_def)
  next
    case same
    have pg: "pte2page (npage (phys s2)) (rd s2 a) = Ok page"
      using same page held_less [of page s] same_pages_fields(1) [OF i(2)] unfolding e2
      by (simp add: pte2page_def mapped_def pa2page_frame)
    define s3 where "s3 = upd_phys s2 page (\<lambda>pg. pg\<lparr>ref := ref pg - 1\<rparr>)"
    have "ff_inv (phys s2)" using i(1) by (simp add: space_ok_def tables_ok_def)
    note u = upd_ref_ok [where g = "\<lambda>r. r - 1", OF this s3_def]
    have sp: "same_pages s s3" using same_pages_trans [OF i(2) u(1)] .
    have rf: "refs s3 q = refs s q" for q using u(5) [of q] i(5) by simp
    have pm: "pmem s3 = pmem s" "free s3 = free s" using u(2,4) i(3,4) by auto
    note sm = space_ok_same [OF ok pm u(3) sp rf]
    have t: "has_tab s3 pd = has_tab s pd" "tab s3 pd = tab s pd" using pm(1) by (simp_all add: fun_eq_iff has_tab_def tab_def)
    have hl: "held s3 = held s" using pm(2) same_pages_fields(2) [OF sp] by (simp add: held_def)
    have "?v \<in> mappings (pte s pd) page" using same ua(2) by (simp add: mappings_def)
    then have "Suc (card (mappings (pte s pd) page - {?v})) = card (mappings (pte s pd) page)"
      by (rule card_Suc_Diff1 [OF finite_mappings])
    then have "int (Suc (card (mappings (pte s3 pd) page - {?v}))) \<le> refs s3 page" using le rf sm(2) by simp
    moreover have "snd (page_ref_dec s2 page) = s3" by (simp add: page_ref_dec_def s3_def Let_def)
    ultimately show ?thesis
      using same pg sm tb page t hl rf pm same_pages_vm [OF sp] same_pages_fields(4) [OF sp]
      by (intro exI [of _ s3]) (simp add: s2_def [symmetric] Let_def e2 mapped_def ref_change_def)
  next
    case other
    have h: "frame ?old \<in> held s" using ok other(1) ua(2) by (simp add: space_ok_def)
    have pg: "pte2page (npage (phys s2)) (rd s2 a) = Ok (frame ?old)"
      using other held_less [OF h] same_pages_fields(1) [OF i(2)] unfolding e2
      by (simp add: pte2page_def mapped_def pa2page_frame)
    have tb2: "has_tab s2 pd (unat (PDX la))" and mp2: "mapped (pte s2 pd ?v)" using tb other(1) i(6,8) by auto
    obtain s' where r: "page_remove_pte s2 pd la a = Ok s'" "space_ok s' pd" "same_vm s2 s'"
      "\<forall>w < UPAGES. pte s' pd w = (if w = ?v then 0 else pte s pd w)" "tables s' pd = tables s pd"
      "\<forall>d. has_tab s' pd d = has_tab s pd d \<and> tab s' pd d = tab s pd d"
      "free s' = (if refs s2 (frame ?old) = 1 then insert (frame ?old) (free s) else free s)"
      "\<forall>q. refs s' q = (if q = frame ?old then refs s2 (frame ?old) - 1 else refs s2 q)"
      "\<forall>f. f \<notin> tables s pd \<longrightarrow> pmem s' f = pmem s f"
      "tlb s' = (if cr3_reg s2 = page2pa pd then (tlb s2)(PPN la := None) else tlb s2)"
      using page_remove_pte_ok [OF i(1) la tb2 mp2] unfolding a_def i(3,4,6,7,8,9) by blast
    have rf: "refs s' q = refs s q + ref_change ?old page q" for q
      using r(8) i(5) other by (simp add: ref_change_def)
    have hp: "page \<in> held s'"
      using page r(7) other(2) same_vm_fields(2) [OF r(3)] same_pages_fields(2) [OF i(2)] by (auto simp: held_def split: if_splits)
    have "mappings (pte s' pd) page = mappings (pte s pd) page"
      using r(4) other by (auto simp: mappings_def mapped_def split: if_splits)
    then have "int (Suc (card (mappings (pte s' pd) page - {?v}))) \<le> refs s' page"
      using le del rf [of page] other(2) by (simp add: ref_change_def)
    moreover have "\<forall>x. x \<noteq> PPN la \<longrightarrow> tlb s' x = tlb s x" using r(10) same_pages_fields(4) [OF i(2)] by simp
    moreover have "free s \<subseteq> free s'" using r(7) by auto
    moreover have "\<forall>q. q \<in> free s' \<longrightarrow> q \<in> free s \<or> mapped ?old \<and> q = frame ?old \<and> refs s' q = 0"
      using r(7,8) other(1) by (auto split: if_splits)
    moreover have "same_vm s s'" using same_vm_trans [OF same_pages_vm [OF i(2)] r(3)] .
    ultimately show ?thesis
      using other pg r(1,2,4-6,9) tb hp rf
      by (intro exI [of _ s']) (simp add: s2_def [symmetric] Let_def e2 mapped_def)
  qed
qed

end
