(* ===== verification/Address_Space.thy ===== *)
theory Address_Space
  imports Paging
begin

text \<open>
  The operations of \<open>kern/mm/pmm.c\<close> on an address space: mapping and unmapping a page, allocating a
  page for an address, unmapping a range.
\<close>

section \<open>Mapping a page\<close>

lemma tlb_ok_update:
  assumes ok: "tlb_ok s pd" and c: "cr3_reg s' = cr3_reg s"
    and pt: "\<And>w. w < UPAGES \<Longrightarrow> w \<noteq> upage la \<Longrightarrow> pte s' pd w = pte s pd w"
    and t: "\<And>x. x \<noteq> PPN la \<Longrightarrow> tlb s' x = tlb s x" and n: "cr3_reg s = page2pa pd \<Longrightarrow> tlb s' (PPN la) = None"
  shows "tlb_ok s' pd"
  unfolding tlb_ok_def
proof (intro impI allI)
  fix v e assume a: "cr3_reg s' = page2pa pd" "v < UPAGES" "tlb s' (of_nat v) = Some e"
  have v32: "v < 2 ^ 32" using a(2) by (simp add: UPAGES_def UDIR_def)
  show "mapped e \<and> e = pte s' pd v"
  proof (cases "(of_nat v :: u32) = PPN la")
    case True
    then show ?thesis using a n c by simp
  next
    case False
    then have ne: "v \<noteq> upage la" by auto
    then have "tlb s (of_nat v) = Some e" using a(3) t [OF False] by simp
    then show ?thesis using ok a(1,2) c pt [OF a(2) ne] by (simp add: tlb_ok_def)
  qed
qed

lemma tlb_ok_same:
  assumes "tlb_ok s pd" and "same_pages s s'" and "\<And>w. w < UPAGES \<Longrightarrow> pte s' pd w = pte s pd w"
  shows "tlb_ok s' pd"
  using assms same_pages_fields(3,4) [OF assms(2)] by (simp add: tlb_ok_def)

lemma page_insert_ok:
  assumes ok: "space_ok s pd" and la: "la < USERTOP" and page: "page \<in> held s - tables s pd - {pd}"
    and perm: "perm < PGSIZE" and spare: "swap_init_ok s \<Longrightarrow> free s \<noteq> {}"
  shows "\<exists>r s'. page_insert s pd page la perm = Ok (r, s') \<and> space_ok s' pd \<and> same_vm s s' \<and> (tlb_ok s pd \<longrightarrow> tlb_ok s' pd)
    \<and> (unref s \<longrightarrow> unref s')
    \<and> (case r of
         Inl e \<Rightarrow> e = E_NO_MEM \<and> free s = {} \<and> (\<forall>w < UPAGES. pte s' pd w = pte s pd w)
           \<and> page \<in> held s' \<and> (\<forall>q. q \<notin> free s \<longrightarrow> refs s' q = refs s q) \<and> tables s' pd = tables s pd
       | Inr _ \<Rightarrow> (\<forall>w < UPAGES. pte s' pd w = (if w = upage la then page2pa page OR PTE_P OR perm else pte s pd w))
           \<and> (\<forall>q. q \<notin> free s \<longrightarrow> refs s' q = refs s q + ref_change (pte s pd (upage la)) page q)
           \<and> page \<in> held s')
    \<and> (\<forall>f. f \<notin> free s \<union> tables s pd \<union> {pd} \<longrightarrow> pmem s' f = pmem s f)
    \<and> (\<forall>q. q \<in> free s' \<longrightarrow> q \<in> free s \<or> mapped (pte s pd (upage la)) \<and> q = frame (pte s pd (upage la)))
    \<and> tables s pd \<subseteq> tables s' pd \<and> tables s' pd \<subseteq> tables s pd \<union> free s
    \<and> (has_tab s pd (unat (PDX la)) \<longrightarrow> free s \<subseteq> free s' \<and> tables s' pd = tables s pd)"
proof -
  let ?d = "unat (PDX la)" and ?v = "upage la" and ?e = "page2pa page OR PTE_P OR perm"
  note ua = user_address [OF la]
  obtain r s1 where g: "get_pte s pd la True = Ok (r, s1)" "same_pages s s1" "space_ok s1 pd"
    "\<forall>v < UPAGES. pte s1 pd v = pte s pd v" "tables s pd \<subseteq> tables s1 pd" "tables s1 pd \<subseteq> tables s pd \<union> free s"
    "free s1 \<subseteq> free s" "\<forall>q \<in> free s1. refs s1 q = refs s q"
    "\<exists>t. free s \<subseteq> insert t (free s1)" "has_tab s pd ?d \<longrightarrow> s1 = s" "\<forall>f. f \<notin> free s \<longrightarrow> refs s1 f = refs s f \<and> (f \<noteq> pd \<longrightarrow> pmem s1 f = pmem s f)"
    "case r of None \<Rightarrow> free s = {} | Some a \<Rightarrow> a = (tab s1 pd ?d, unat (PTX la)) \<and> has_tab s1 pd ?d"
    using get_pte_ok [OF ok la spare] by blast
  have nf: "page \<notin> free s" using page by (simp add: held_def)
  have hp: "page \<in> held s1" using page g(7) nf same_pages_fields(2) [OF g(2)] by (auto simp: held_def)
  show ?thesis
  proof (cases r)
    case None
    then have "page_insert s pd page la perm = Ok (Inl E_NO_MEM, s1)" using g(1) by (simp add: page_insert_def)
    moreover have "tables s1 pd = tables s pd" using g(5,6,12) None by auto
    ultimately show ?thesis
      using g None hp same_pages_vm [OF g(2)] tlb_ok_same [OF _ g(2)] by (auto simp: unref_def)
  next
    case (Some a)
    then have a: "a = (tab s1 pd ?d, unat (PTX la))" "has_tab s1 pd ?d" using g(12) by auto
    obtain s3 where c: "(let s2 = page_ref_inc s1 page in
        if rd s2 a AND PTE_P \<noteq> 0 then
          res_bind (pte2page (npage (phys s2)) (rd s2 a)) (\<lambda>p.
          if p = page then Ok (snd (page_ref_dec s2 page)) else page_remove_pte s2 pd la a)
        else Ok s2) = Ok s3"
      "space_ok s3 pd" "same_vm s1 s3" "page \<in> held s3"
      "int (Suc (card (mappings (pte s3 pd) page - {?v}))) \<le> refs s3 page"
      "\<forall>w < UPAGES. w \<noteq> ?v \<longrightarrow> pte s3 pd w = pte s1 pd w" "tables s3 pd = tables s1 pd"
      "has_tab s3 pd ?d" "tab s3 pd ?d = tab s1 pd ?d"
      "\<forall>q. refs s3 q = refs s1 q + ref_change (pte s1 pd ?v) page q"
      "\<forall>f. f \<notin> tables s1 pd \<longrightarrow> pmem s3 f = pmem s1 f" "\<forall>x. x \<noteq> PPN la \<longrightarrow> tlb s3 x = tlb s1 x"
      "\<forall>q. q \<in> free s3 \<longrightarrow> q \<in> free s1 \<or> mapped (pte s1 pd ?v) \<and> q = frame (pte s1 pd ?v) \<and> refs s3 q = 0"
      "free s1 \<subseteq> free s3"
      using clear_entry [OF g(3) la a(2) hp] unfolding a(1) by blast
    define s4 where "s4 = wr s3 (tab s3 pd (?v div 1024), ?v mod 1024) ?e"
    define s' where "s' = tlb_invalidate s4 pd la"
    have to3: "tables_ok s3 pd" using c(2) by (simp add: space_ok_def)
    have tb3: "has_tab s3 pd (?v div 1024)" using c(8) ua(3) by simp
    note se = set_entry [OF to3 ua(2) tb3 s4_def]
    have "wr s3 a ?e = s4" using a(1) c(9) ua by (simp add: s4_def)
    then have run: "page_insert s pd page la perm = Ok (Inr (), s')"
      using g(1) c(1) Some by (simp add: page_insert_def s'_def Let_def)
    have p20: "page < 2 ^ 20" using held_less [OF c(4)] tables_okD(2) [OF to3] by linarith
    note ne = new_entry [OF p20 perm]
    have pg3: "page \<notin> tables s3 pd" "page \<noteq> pd" using page nf g(6) c(7) by auto
    have pt: "pte s' pd w = (if w = ?v then ?e else pte s pd w)" if "w < UPAGES" for w
      using se(1) [OF that] c(6) g(4) that by (simp add: s'_def)
    have "frame (pte s4 pd w) \<in> held s4 - tables s4 pd - {pd}" if w: "w < UPAGES" "mapped (pte s4 pd w)" for w
      using w se(1) [OF w(1)] c(2,4) pg3 ne(2) se(2,5) by (auto simp: space_ok_def held_def split: if_splits)
    moreover have "int (card (mappings (pte s4 pd) q)) \<le> refs s4 q" for q
    proof -
      have "card (mappings (pte s4 pd) q) =
          (if page = q then Suc (card (mappings (pte s3 pd) q - {?v})) else card (mappings (pte s3 pd) q - {?v}))"
        using card_mappings_upd [OF ua(2), of "pte s4 pd" ?e "pte s3 pd" q] se(1) ne by simp
      moreover have "card (mappings (pte s3 pd) q - {?v}) \<le> card (mappings (pte s3 pd) q)" by (simp add: card_Diff1_le)
      moreover have "int (card (mappings (pte s3 pd) q)) \<le> refs s3 q" using c(2) unfolding space_ok_def by blast
      ultimately show ?thesis using c(5) se(5) by (cases "page = q") simp_all
    qed
    ultimately have "space_ok s' pd" using se(3) by (simp add: space_ok_def s'_def)
    moreover have vm: "same_vm s s'"
      unfolding s'_def s4_def
      by (rule same_vm_trans [OF same_vm_trans [OF same_vm_trans [OF same_pages_vm [OF g(2)] c(3)]
              same_pages_vm [OF same_pages_pmem(2)]] same_vm_tlb])
    moreover have "tlb_ok s' pd" if "tlb_ok s pd"
    proof (rule tlb_ok_update [OF that, of s' la])
      show "cr3_reg s' = cr3_reg s" by (rule same_vm_fields(3) [OF vm])
      have t4: "tlb s4 = tlb s3" "cr3_reg s4 = cr3_reg s3" by (simp_all add: s4_def wr_def)
      show "tlb s' x = tlb s x" if "x \<noteq> PPN la" for x
        using that c(12) t4 same_pages_fields(4) [OF g(2)] by (simp add: s'_def)
      show "tlb s' (PPN la) = None" if "cr3_reg s = page2pa pd"
        using that t4 same_vm_fields(3) [OF c(3)] same_pages_fields(3) [OF g(2)] by (simp add: s'_def)
    qed (simp add: pt)
    moreover have "pmem s' f = pmem s f" if "f \<notin> free s \<union> tables s pd \<union> {pd}" for f
      using that se(4) [of f] c(11) g(6,11) c(7) by (auto simp: s'_def)
    moreover have "refs s' q = refs s q + ref_change (pte s pd ?v) page q" if "q \<notin> free s" for q
      using that se(5) c(10) g(4,11) ua(2) by (simp add: s'_def)
    moreover have "q \<in> free s \<or> mapped (pte s pd ?v) \<and> q = frame (pte s pd ?v)" if "q \<in> free s'" for q
      using that se(5) c(13) g(4,7) ua(2) by (auto simp: s'_def)
    moreover have "unref s'" if "unref s"
    proof -
      have "refs s3 q = 0" if q: "q \<in> free s3" for q
      proof (cases "q \<in> free s1")
        case True
        then have "q \<noteq> page" "\<not> (mapped (pte s1 pd ?v) \<and> frame (pte s1 pd ?v) = q)"
          using hp g(3) ua(2) by (auto simp: space_ok_def held_def)
        then show ?thesis using True c(10) g(7,8) \<open>unref s\<close> by (auto simp: ref_change_def unref_def)
      qed (use c(13) q in blast)
      then show ?thesis using se(5) by (simp add: unref_def s'_def)
    qed
    moreover have "page \<in> held s'" using c(4) se(5) by (simp add: s'_def held_def)
    moreover have "tables s' pd = tables s1 pd" using se(2) c(7) by (simp add: s'_def)
    moreover have "free s \<subseteq> free s' \<and> tables s' pd = tables s pd" if "has_tab s pd ?d"
      using that g(10) c(7,14) se(2,5) by (simp add: s'_def)
    ultimately show ?thesis using run pt g(5,6) by (intro exI [of _ "Inr ()"] exI [of _ s']) simp
  qed
qed

section \<open>Walking a range\<close>

definition aligned :: "u32 \<Rightarrow> bool" where
  "aligned a \<longleftrightarrow> a mod PGSIZE = 0"

lemma aligned_unat: "aligned a \<longleftrightarrow> unat a mod 4096 = 0"
proof -
  have "aligned a \<longleftrightarrow> unat (a mod PGSIZE) = 0" by (simp add: aligned_def unat_eq_0)
  then show ?thesis by (simp add: unat_mod PGSIZE_def)
qed

lemma upage_unat: "upage a = unat a div 4096"
  by (simp add: unat_PPN)

lemma aligned_less_iff:
  assumes "aligned a" and "aligned b"
  shows "a < b \<longleftrightarrow> upage a < upage b"
proof -
  have "unat a = 4096 * upage a" "unat b = 4096 * upage b"
    using assms mult_div_mod_eq [of 4096 "unat a"] mult_div_mod_eq [of 4096 "unat b"]
    by (simp_all add: aligned_unat upage_unat)
  then show ?thesis by (simp add: word_less_nat_alt)
qed

lemma next_page:
  assumes "aligned a" and "a < USERTOP"
  shows "aligned (a + PGSIZE)" and "upage (a + PGSIZE) = Suc (upage a)" and "a + PGSIZE \<noteq> 0"
proof -
  have "unat a < 0xB0000000" using assms(2) by (simp add: USERTOP_def word_less_nat_alt)
  then have u: "unat (a + PGSIZE) = unat a + 4096" by (subst unat_add_u32) (simp_all add: PGSIZE_def)
  then show "aligned (a + PGSIZE)" "upage (a + PGSIZE) = Suc (upage a)"
    using assms(1) by (simp_all add: aligned_unat upage_unat)
  show "a + PGSIZE \<noteq> 0" using u by (auto simp: unat_eq_0 [symmetric])
qed

lemma next_table:
  assumes "a < USERTOP"
  defines "b \<equiv> ROUNDDOWN (a + PTSIZE) PTSIZE"
  shows "aligned b" and "upage b = (upage a div 1024 + 1) * 1024" and "b \<noteq> 0"
proof -
  have "unat a < 0xB0000000" using assms(1) by (simp add: USERTOP_def word_less_nat_alt)
  then have u: "unat (a + PTSIZE) = unat a + 2 ^ 22" by (subst unat_add_u32) (simp_all add: PTSIZE_def PGSIZE_def NPTEENTRY_def)
  have p: "unat PTSIZE = 2 ^ 22" by (simp add: PTSIZE_def PGSIZE_def NPTEENTRY_def)
  have "unat b = (unat a + 2 ^ 22) - (unat a + 2 ^ 22) mod 2 ^ 22"
    unfolding b_def unat_ROUNDDOWN u p ..
  then have "unat b = 2 ^ 22 * ((unat a + 2 ^ 22) div 2 ^ 22)" by (simp only: minus_mod_eq_mult_div)
  moreover have "(unat a + 2 ^ 22) div 2 ^ 22 = unat a div 2 ^ 22 + 1" by (rule div_add_self2) simp
  ultimately have b: "unat b = 2 ^ 22 * (unat a div 2 ^ 22 + 1)" by (simp only:)
  then show "aligned b" by (simp add: aligned_unat mod_mult_right_eq)
  show "b \<noteq> 0" using b by (auto simp: unat_eq_0 [symmetric])
  have "unat a div 2 ^ 22 = unat a div 4096 div 1024" by (simp add: div_mult2_eq [symmetric])
  then show "upage b = (upage a div 1024 + 1) * 1024" unfolding upage_unat b by simp
qed

lemma unmap_step:
  assumes ok: "space_ok s pd" and la: "la < USERTOP" and tb: "has_tab s pd (unat (PDX la))"
  defines "a \<equiv> (tab s pd (unat (PDX la)), unat (PTX la))" and "e \<equiv> pte s pd (upage la)"
  shows "\<exists>s'. (if rd s a \<noteq> 0 then page_remove_pte s pd la a else Ok s) = Ok s' \<and> space_ok s' pd \<and> same_vm s s'
    \<and> (tlb_ok s pd \<longrightarrow> tlb_ok s' pd)
    \<and> (\<forall>w < UPAGES. pte s' pd w = (if w = upage la \<and> mapped e then 0 else pte s pd w)) \<and> tables s' pd = tables s pd
    \<and> (\<forall>q. refs s' q = refs s q - (if mapped e \<and> frame e = q then 1 else 0))
    \<and> (\<forall>f. f \<notin> tables s pd \<longrightarrow> pmem s' f = pmem s f)
    \<and> free s' = free s \<union> {q. mapped e \<and> frame e = q \<and> refs s q = 1}"
proof (cases "mapped e")
  case True
  have ra: "rd s a = e" using tb user_address [OF la] by (simp add: rd_def pte_def a_def e_def)
  obtain s' where p: "page_remove_pte s pd la a = Ok s'" "space_ok s' pd" "same_vm s s'"
    "\<forall>w < UPAGES. pte s' pd w = (if w = upage la then 0 else pte s pd w)" "tables s' pd = tables s pd"
    "free s' = (if refs s (frame e) = 1 then insert (frame e) (free s) else free s)"
    "\<forall>q. refs s' q = (if q = frame e then refs s (frame e) - 1 else refs s q)"
    "\<forall>f. f \<notin> tables s pd \<longrightarrow> pmem s' f = pmem s f"
    "tlb s' = (if cr3_reg s = page2pa pd then (tlb s)(PPN la := None) else tlb s)"
    using page_remove_pte_ok [OF ok la tb True [unfolded e_def]] unfolding a_def e_def by blast
  have "tlb_ok s' pd" if "tlb_ok s pd"
    by (rule tlb_ok_update [OF that, of s' la]) (use p(4,9) same_vm_fields(3) [OF p(3)] in simp_all)
  moreover have "e \<noteq> 0" using True by (auto simp: mapped_def)
  ultimately show ?thesis using p True ra by (intro exI [of _ s']) auto
next
  case False
  have ra: "rd s a = e" using tb user_address [OF la] by (simp add: rd_def pte_def a_def e_def)
  have "page_remove_pte s pd la a = Ok s" using False ra by (simp add: page_remove_pte_def mapped_def)
  then show ?thesis using False ok by auto
qed

text \<open>How many of the pages from \<open>i\<close> to before \<open>j\<close> show frame \<open>q\<close>.\<close>

definition hits :: "(nat \<Rightarrow> u32) \<Rightarrow> nat \<Rightarrow> nat \<Rightarrow> nat \<Rightarrow> nat" where
  "hits m i j q = card {w \<in> mappings m q. i \<le> w \<and> w < j}"

lemma hits_cong: "(\<And>w. i \<le> w \<Longrightarrow> w < j \<Longrightarrow> w < UPAGES \<Longrightarrow> m w = m' w) \<Longrightarrow> hits m i j q = hits m' i j q"
  unfolding hits_def mappings_def by (intro arg_cong [where f = card]) auto

lemma hits_Suc:
  assumes "i < j" and "i < UPAGES"
  shows "hits m i j q = (if mapped (m i) \<and> frame (m i) = q then 1 else 0) + hits m (Suc i) j q"
proof -
  let ?R = "{w \<in> mappings m q. Suc i \<le> w \<and> w < j}"
  have "{w \<in> mappings m q. i \<le> w \<and> w < j} = (if mapped (m i) \<and> frame (m i) = q then insert i ?R else ?R)"
    using assms by (auto simp: mappings_def Suc_le_eq order.order_iff_strict)
  moreover have "finite ?R" "i \<notin> ?R" by (auto intro: finite_subset [OF _ finite_mappings])
  ultimately show ?thesis by (simp add: hits_def)
qed

lemma hits_skip:
  assumes "i \<le> k" and "\<And>w. i \<le> w \<Longrightarrow> w < k \<Longrightarrow> \<not> mapped (m w)"
  shows "hits m i j q = hits m k j q"
proof -
  have "{w \<in> mappings m q. i \<le> w \<and> w < j} = {w \<in> mappings m q. k \<le> w \<and> w < j}"
    using assms by (auto simp: mappings_def) (meson not_le)
  then show ?thesis by (simp add: hits_def)
qed

lemma hits_empty: "j \<le> i \<Longrightarrow> hits m i j q = 0"
  by (simp add: hits_def)

text \<open>The mappings of the pages from \<open>i\<close> to before \<open>j\<close> are gone, and with them the references they held.\<close>

definition unmapped_between :: "vm \<Rightarrow> vm \<Rightarrow> nat \<Rightarrow> nat \<Rightarrow> nat \<Rightarrow> bool" where
  "unmapped_between s s' pd i j \<longleftrightarrow> space_ok s' pd \<and> same_vm s s' \<and> (tlb_ok s pd \<longrightarrow> tlb_ok s' pd)
     \<and> (\<forall>w < UPAGES. pte s' pd w = (if i \<le> w \<and> w < j \<and> mapped (pte s pd w) then 0 else pte s pd w))
     \<and> tables s' pd = tables s pd \<and> (\<forall>q. refs s' q = refs s q - int (hits (pte s pd) i j q))
     \<and> (\<forall>f. f \<notin> tables s pd \<longrightarrow> pmem s' f = pmem s f)
     \<and> free s' = free s \<union> {q. 0 < hits (pte s pd) i j q \<and> refs s q = int (hits (pte s pd) i j q)}"

lemma unmapped_between_none:
  assumes ok: "space_ok s pd" and no: "\<And>w. i \<le> w \<Longrightarrow> w < j \<Longrightarrow> w < UPAGES \<Longrightarrow> \<not> mapped (pte s pd w)"
  shows "unmapped_between s s pd i j"
proof -
  have "{w \<in> mappings (pte s pd) q. i \<le> w \<and> w < j} = {}" for q using no by (auto simp: mappings_def)
  then have "hits (pte s pd) i j q = 0" for q by (simp add: hits_def)
  then show ?thesis using ok no by (auto simp: unmapped_between_def)
qed

lemma hits_le_refs:
  assumes "space_ok s pd"
  shows "int (hits (pte s pd) i j q) \<le> refs s q"
proof -
  have "hits (pte s pd) i j q \<le> card (mappings (pte s pd) q)" unfolding hits_def by (rule card_mono) auto
  then show ?thesis using assms unfolding space_ok_def by (meson of_nat_mono order_trans)
qed

lemma unmapped_between_trans:
  assumes 1: "unmapped_between s t pd i j" and 2: "unmapped_between t u pd j k" and le: "i \<le> j" "j \<le> k"
  shows "unmapped_between s u pd i k"
proof -
  note a = 1 [unfolded unmapped_between_def] and b = 2 [unfolded unmapped_between_def]
  have h2: "hits (pte t pd) j k q = hits (pte s pd) j k q" for q using a by (intro hits_cong) simp
  have h: "hits (pte s pd) i k q = hits (pte s pd) i j q + hits (pte s pd) j k q" for q
  proof -
    have "{w \<in> mappings (pte s pd) q. i \<le> w \<and> w < k} =
        {w \<in> mappings (pte s pd) q. i \<le> w \<and> w < j} \<union> {w \<in> mappings (pte s pd) q. j \<le> w \<and> w < k}"
      using le by auto
    then show ?thesis unfolding hits_def by (simp add: card_Un_disjoint disjoint_iff)
  qed
  have r: "refs t q = refs s q - int (hits (pte s pd) i j q)" for q using a by simp
  have le2: "int (hits (pte s pd) j k q) \<le> refs s q - int (hits (pte s pd) i j q)" for q
    using hits_le_refs [of t pd j k q] a h2 r by simp
  have "q \<in> free u \<longleftrightarrow> q \<in> free s \<or> 0 < hits (pte s pd) i k q \<and> refs s q = int (hits (pte s pd) i k q)" for q
    using a b le2 [of q] h [of q] h2 [of q] r [of q] by auto
  then have "free u = free s \<union> {q. 0 < hits (pte s pd) i k q \<and> refs s q = int (hits (pte s pd) i k q)}" by blast
  moreover have "pte u pd w = (if i \<le> w \<and> w < k \<and> mapped (pte s pd w) then 0 else pte s pd w)" if "w < UPAGES" for w
    using a b that le by auto
  moreover have "refs u q = refs s q - int (hits (pte s pd) i k q)" for q using b r h h2 by simp
  ultimately show ?thesis using a b same_vm_trans [of s t u] unfolding unmapped_between_def by simp
qed

lemma unmapped_one:
  assumes ok: "space_ok s pd" and la: "la < USERTOP" and tb: "has_tab s pd (unat (PDX la))"
  defines "a \<equiv> (tab s pd (unat (PDX la)), unat (PTX la))"
  shows "\<exists>s'. (if rd s a \<noteq> 0 then page_remove_pte s pd la a else Ok s) = Ok s'
    \<and> unmapped_between s s' pd (upage la) (Suc (upage la))"
proof -
  have h: "hits (pte s pd) (upage la) (Suc (upage la)) q =
      (if mapped (pte s pd (upage la)) \<and> frame (pte s pd (upage la)) = q then 1 else 0)" for q
    using hits_Suc [of "upage la" "Suc (upage la)"] user_address(2) [OF la] by (simp add: hits_empty)
  show ?thesis
    using unmap_step [OF ok la tb] unfolding a_def unmapped_between_def h
    by (elim exE) (intro exI, auto simp: le_less_Suc_eq)
qed

lemma no_table:
  assumes "\<not> has_tab s pd (unat (PDX la))" and "la < USERTOP" and "upage la \<le> w" and "w < (upage la div 1024 + 1) * 1024"
  shows "\<not> mapped (pte s pd w)"
proof -
  have "w div 1024 = upage la div 1024"
  proof (rule antisym)
    show "upage la div 1024 \<le> w div 1024" using assms(3) by (rule div_le_mono)
    have "w div 1024 < upage la div 1024 + 1" using assms(4) by (rule less_mult_imp_div_less)
    then show "w div 1024 \<le> upage la div 1024" by simp
  qed
  then show ?thesis using assms(1) user_address(3) [OF assms(2)] by (simp add: pte_def mapped_def)
qed

lemma unmap_loop_ok:
  assumes "space_ok s pd" and "aligned start" and "aligned e" and "start < e" and "e \<le> USERTOP"
  shows "\<exists>s'. unmap_loop s pd start e = Some (Ok s') \<and> unmapped_between s s' pd (upage start) (upage e)"
  using assms
proof (induction "upage e - upage start" arbitrary: s start rule: less_induct)
  case less
  note ok = less.prems(1) and al = less.prems(2,3)
  have la: "start < USERTOP" using less.prems(4,5) by simp
  have lt: "upage start < upage e" using less.prems(4) aligned_less_iff [OF al] by simp
  show ?case
  proof (cases "has_tab s pd (unat (PDX start))")
    case True
    let ?a = "(tab s pd (unat (PDX start)), unat (PTX start))" and ?st = "start + PGSIZE"
    note np = next_page [OF al(1) la]
    obtain s1 where s1: "(if rd s ?a \<noteq> 0 then page_remove_pte s pd start ?a else Ok s) = Ok s1"
      "unmapped_between s s1 pd (upage start) (Suc (upage start))"
      using unmapped_one [OF ok la True] by blast
    have run: "unmap_loop s pd start e = (if ?st < e then unmap_loop s1 pd ?st e else Some (Ok s1))"
      using get_pte_found [OF _ la True, of False] ok s1(1) np(3)
      by (subst unmap_loop.simps) (simp add: space_ok_def)
    have lt': "?st < e \<longleftrightarrow> Suc (upage start) < upage e" using aligned_less_iff [OF np(1) al(2)] np(2) by simp
    show ?thesis
    proof (cases "?st < e")
      case True
      have dec: "upage e - Suc (upage start) < upage e - upage start" using lt by simp
      have "space_ok s1 pd" using s1(2) by (simp add: unmapped_between_def)
      then obtain s' where "unmap_loop s1 pd ?st e = Some (Ok s')" "unmapped_between s1 s' pd (Suc (upage start)) (upage e)"
        using less.hyps [of ?st s1] True np(1) al(2) less.prems(5) dec unfolding np(2) by blast
      then show ?thesis using unmapped_between_trans [OF s1(2)] run True lt by auto
    next
      case False
      then have "upage e = Suc (upage start)" using lt lt' by simp
      then show ?thesis using run False s1(2) by simp
    qed
  next
    case False
    let ?st = "ROUNDDOWN (start + PTSIZE) PTSIZE"
    note nt = next_table [OF la]
    have run: "unmap_loop s pd start e = (if ?st < e then unmap_loop s pd ?st e else Some (Ok s))"
      using get_pte_absent [OF False] nt(3) by (subst unmap_loop.simps) simp
    have up: "upage start < upage ?st" unfolding nt(2) using div_mod_decomp [of "upage start" 1024] by simp
    have no: "\<not> mapped (pte s pd w)" if "upage start \<le> w" "w < upage ?st" for w
      using no_table [OF False la that(1)] that(2) unfolding nt(2) by blast
    show ?thesis
    proof (cases "?st < e")
      case True
      have lt': "upage ?st < upage e" using True aligned_less_iff [OF nt(1) al(2)] by simp
      then obtain s' where s': "unmap_loop s pd ?st e = Some (Ok s')" "unmapped_between s s' pd (upage ?st) (upage e)"
        using less.hyps [of ?st s] diff_less_mono2 [OF up lt] True nt(1) al(2) less.prems(5) ok by blast
      have "unmapped_between s s pd (upage start) (upage ?st)" by (rule unmapped_between_none [OF ok no])
      then show ?thesis using unmapped_between_trans [OF _ s'(2)] up lt' run True s'(1) by auto
    next
      case False
      then have "upage e \<le> upage ?st" using aligned_less_iff [OF nt(1) al(2)] by simp
      then have "unmapped_between s s pd (upage start) (upage e)"
        by (intro unmapped_between_none [OF ok] no) auto
      then show ?thesis using run False by simp
    qed
  qed
qed

section \<open>Allocating a page for an address\<close>

text \<open>What a fresh page costs: frames outside the free ones keep their reference count, and what other
  address spaces use is not touched.\<close>

lemma space_ok_frame:
  assumes ok: "space_ok s pd" and vm: "same_vm s s'" and iv: "ff_inv (phys s')" and fr: "free s' \<subseteq> free s"
    and rf: "\<And>q. q \<notin> free s \<Longrightarrow> refs s q \<le> refs s' q"
    and nn: "\<And>q. 0 \<le> refs s' q" and pm: "\<And>f. f \<in> insert pd (tables s pd) \<Longrightarrow> pmem s' f = pmem s f"
  shows "space_ok s' pd" and "w < UPAGES \<Longrightarrow> pte s' pd w = pte s pd w" and "tables s' pd = tables s pd"
proof -
  have pt: "pte s' pd w = pte s pd w" if "w < UPAGES" for w
    using pte_cong [OF _ _ that, of s' pd s] pm by simp
  then show "w < UPAGES \<Longrightarrow> pte s' pd w = pte s pd w" .
  note tc = table_cong [of s' pd s, OF pm [OF insertI1]]
  show tb: "tables s' pd = tables s pd" by (rule tc)
  have hl: "held s \<subseteq> held s'" using fr same_vm_fields(2) [OF vm] by (auto simp: held_def)
  have to: "tables_ok s pd" using ok by (simp add: space_ok_def)
  have "{d. d < UDIR \<and> has_tab s' pd d} = {d. d < UDIR \<and> has_tab s pd d}" "tab s' pd = tab s pd"
    using tc(1,2) by auto
  then have "tables_ok s' pd"
    using tables_okD [OF to] iv fr hl same_vm_fields(1) [OF vm] unfolding tables_ok_def tb by auto
  moreover have mp: "mappings (pte s' pd) p = mappings (pte s pd) p" for p by (rule mappings_cong) (rule pt)
  moreover have "int (card (mappings (pte s pd) p)) \<le> refs s' p" for p
  proof (cases "p \<in> free s")
    case True
    then have "mappings (pte s pd) p = {}" using ok by (auto simp: space_ok_def mappings_def held_def)
    then show ?thesis using nn by simp
  next
    case False
    then show ?thesis using rf ok unfolding space_ok_def by (meson order_trans)
  qed
  moreover have "frame (pte s' pd v) \<in> held s' - tables s' pd - {pd}" if "v < UPAGES" "mapped (pte s' pd v)" for v
    using that pt [OF that(1)] ok hl tb unfolding space_ok_def by auto
  ultimately show "space_ok s' pd" unfolding space_ok_def by auto
qed

lemma space_ok_alloc:
  assumes ok: "space_ok s pd" and sp: "same_pages s s'" and pm: "pmem s' = pmem s" and iv: "ff_inv (phys s')"
    and rf: "\<And>q. refs s' q = refs s q" and fr: "free s' = free s - {p}"
  shows "space_ok s' pd" and "w < UPAGES \<Longrightarrow> pte s' pd w = pte s pd w" and "tables s' pd = tables s pd"
proof -
  have "0 \<le> refs s' q" for q using ok rf unfolding space_ok_def by (metis of_nat_0_le_iff order_trans)
  then show "space_ok s' pd" and "w < UPAGES \<Longrightarrow> pte s' pd w = pte s pd w" and "tables s' pd = tables s pd"
    using space_ok_frame [OF ok same_pages_vm [OF sp] iv] fr rf pm by auto
qed

lemma space_ok_free_page:
  assumes ok: "space_ok s pd" and p: "p \<in> held s - tables s pd - {pd}" "mappings (pte s pd) p = {}"
  shows "\<exists>s'. free_pages s p 1 = Ok s' \<and> same_pages s s' \<and> pmem s' = pmem s \<and> space_ok s' pd
    \<and> free s' = insert p (free s) \<and> (\<forall>q. refs s' q = (if q = p then 0 else refs s q))
    \<and> pte s' pd = pte s pd \<and> tables s' pd = tables s pd"
proof -
  have to: "tables_ok s pd" using ok by (simp add: space_ok_def)
  obtain s' where f: "free_pages s p 1 = Ok s'" "same_pages s s'" "pmem s' = pmem s" "ff_inv (phys s')"
    "free s' = insert p (free s)" "\<forall>q. refs s' q = (if q = p then 0 else refs s q)"
    using free_page_ok [OF tables_okD(1) [OF to]] p(1) by blast
  have t: "has_tab s' pd = has_tab s pd" "tab s' pd = tab s pd" by (simp_all add: fun_eq_iff has_tab_def tab_def f(3))
  have pt: "pte s' pd = pte s pd" and tb: "tables s' pd = tables s pd"
    by (simp_all add: fun_eq_iff pte_def tables_def t f(3))
  have hl: "held s' = held s - {p}" using f(5) same_pages_fields(2) [OF f(2)] by (auto simp: held_def)
  have "tables_ok s' pd"
    using tables_okD [OF to] p(1) f(4,5) same_pages_fields(1) [OF f(2)] by (auto simp: tables_ok_def t tb hl)
  moreover have "frame (pte s pd v) \<in> held s' - tables s pd - {pd}" if "v < UPAGES" "mapped (pte s pd v)" for v
  proof -
    have "frame (pte s pd v) \<noteq> p" using p(2) that by (auto simp: mappings_def)
    then show ?thesis using ok that by (simp add: space_ok_def hl)
  qed
  moreover have "int (card (mappings (pte s pd) q)) \<le> refs s' q" for q
    using ok f(6) p(2) unfolding space_ok_def by (cases "q = p") auto
  ultimately have "space_ok s' pd" by (simp add: space_ok_def pt tb)
  then show ?thesis using f pt tb by blast
qed

text \<open>The page enters the list of the replacement manager.\<close>

lemma make_swappable:
  assumes ok: "space_ok s pd" and s': "s' = upd_phys (s\<lparr>pra_list := l\<rparr>) p (\<lambda>pg. pg\<lparr>pra_vaddr := la\<rparr>)"
  shows "space_ok s' pd" and "pte s' pd = pte s pd" and "tables s' pd = tables s pd" and "free s' = free s"
    and "refs s' q = refs s q" and "tlb_ok s pd \<Longrightarrow> tlb_ok s' pd" and "pmem s' = pmem s" and "tlb s' = tlb s"
proof -
  let ?t = "s\<lparr>pra_list := l\<rparr>"
  have t: "has_tab ?t pd = has_tab s pd" "tab ?t pd = tab s pd" by (simp_all add: fun_eq_iff has_tab_def tab_def)
  have pt: "pte ?t pd = pte s pd" and tb: "tables ?t pd = tables s pd" by (simp_all add: fun_eq_iff pte_def tables_def t)
  have hl: "held ?t = held s" by (simp add: held_def)
  have okt: "space_ok ?t pd" using ok by (simp add: space_ok_def tables_ok_def pt tb hl t)
  have "ff_inv (phys ?t)" using okt by (simp add: space_ok_def tables_ok_def)
  note u = upd_desc_ok [OF this s', simplified]
  have rf: "refs s' q = refs ?t q" for q using u(5) by simp
  have fr: "free s' = free ?t" and pm: "pmem s' = pmem ?t" using u(2,4) by simp_all
  note sm = space_ok_same [OF okt pm fr u(3) u(1) rf]
  show "space_ok s' pd" "pte s' pd = pte s pd" "tables s' pd = tables s pd" using sm pt tb by simp_all
  show "free s' = free s" "refs s' q = refs s q" "pmem s' = pmem s" using fr rf pm by simp_all
  have c: "cr3_reg s' = cr3_reg s" "tlb s' = tlb s" using same_pages_fields(3,4) [OF u(1)] by simp_all
  then show "tlb s' = tlb s" by simp
  show "tlb_ok s pd \<Longrightarrow> tlb_ok s' pd" using c sm(2) pt by (simp add: tlb_ok_def)
qed

lemma pgdir_alloc_page_ok:
  assumes ok: "space_ok s pd" and un: "unref s" and la: "la < USERTOP" and perm: "perm < PGSIZE"
    and room: "swap_init_ok s \<Longrightarrow> 2 \<le> card (free s)"
    and sm: "\<And>m. swap_init_ok s \<Longrightarrow> check_mm_struct s = Some m \<Longrightarrow> sm_priv (mms s m)"
    and old: "\<not> mapped (pte s pd (upage la))"
  shows "\<exists>r s'. pgdir_alloc_page s pd la perm = Ok (r, s') \<and> space_ok s' pd \<and> unref s' \<and> (tlb_ok s pd \<longrightarrow> tlb_ok s' pd)
    \<and> (case r of
         None \<Rightarrow> card (free s) \<le> 1 \<and> free s' = free s \<and> (\<forall>w < UPAGES. pte s' pd w = pte s pd w)
       | Some p \<Rightarrow> p \<in> free s \<and> p \<notin> free s' \<and> refs s' p = 1
           \<and> (\<forall>w < UPAGES. pte s' pd w = (if w = upage la then page2pa p OR PTE_P OR perm else pte s pd w)))
    \<and> (\<forall>q. q \<notin> free s \<longrightarrow> refs s' q = refs s q)
    \<and> (\<forall>f. f \<notin> free s \<union> tables s pd \<union> {pd} \<longrightarrow> pmem s' f = pmem s f)"
proof -
  have inv: "ff_inv (phys s)" using ok by (simp add: space_ok_def tables_ok_def)
  have fin: "finite (free s)" using finite_subset [OF free_pages_usable [OF inv]] by (simp add: usable_pages_def)
  have spare: "free s \<noteq> {}" if "swap_init_ok s" using room that by force
  obtain r s1 where a: "alloc_pages s 1 = Ok (r, s1)" "same_pages s s1" "pmem s1 = pmem s" "ff_inv (phys s1)"
    "\<forall>p. refs s1 p = refs s p"
    "case r of None \<Rightarrow> free s = {} \<and> free s1 = {} | Some p \<Rightarrow> p \<in> free s \<and> free s1 = free s - {p}"
    using alloc_page_ok [OF inv spare] by blast
  have tl1: "tlb_ok s pd \<Longrightarrow> (\<And>w. w < UPAGES \<Longrightarrow> pte s1 pd w = pte s pd w) \<Longrightarrow> tlb_ok s1 pd" by (rule tlb_ok_same [OF _ a(2)])
  show ?thesis
  proof (cases r)
    case None
    then have e: "free s1 = free s" "free s = {}" using a(6) by auto
    note sm = space_ok_same [OF ok a(3) e(1) a(4,2) a(5) [rule_format]]
    show ?thesis using None a(1,3,5) e sm tl1 by (auto simp: pgdir_alloc_page_def unref_def)
  next
    case (Some p)
    then have p: "p \<in> free s" "free s1 = free s - {p}" using a(6) by auto
    note al = space_ok_alloc [OF ok a(2,3,4) a(5) [rule_format] p(2)]
    have un1: "unref s1" using un a(5) p by (simp add: unref_def)
    have p1: "p \<in> held s1 - tables s1 pd - {pd}"
      using p ok free_pages_usable [OF inv] same_pages_fields(2) [OF a(2)] unfolding al(3)
      by (auto simp: space_ok_def tables_ok_def held_def)
    have spare1: "free s1 \<noteq> {}" if "swap_init_ok s1"
    proof
      assume "free s1 = {}"
      then have "free s = {p}" using p by auto
      then show False using room same_pages_fields(5) [OF a(2)] that by simp
    qed
    have v: "upage la < UPAGES" by (rule user_address(2) [OF la])
    obtain r2 s2 where i: "page_insert s1 pd p la perm = Ok (r2, s2)" "space_ok s2 pd" "same_vm s1 s2"
      "tlb_ok s1 pd \<longrightarrow> tlb_ok s2 pd" "unref s1 \<longrightarrow> unref s2"
      "case r2 of
         Inl e \<Rightarrow> e = E_NO_MEM \<and> free s1 = {} \<and> (\<forall>w < UPAGES. pte s2 pd w = pte s1 pd w)
           \<and> p \<in> held s2 \<and> (\<forall>q. q \<notin> free s1 \<longrightarrow> refs s2 q = refs s1 q) \<and> tables s2 pd = tables s1 pd
       | Inr _ \<Rightarrow> (\<forall>w < UPAGES. pte s2 pd w = (if w = upage la then page2pa p OR PTE_P OR perm else pte s1 pd w))
           \<and> (\<forall>q. q \<notin> free s1 \<longrightarrow> refs s2 q = refs s1 q + ref_change (pte s1 pd (upage la)) p q)
           \<and> p \<in> held s2"
      "\<forall>f. f \<notin> free s1 \<union> tables s1 pd \<union> {pd} \<longrightarrow> pmem s2 f = pmem s1 f"
      "\<forall>q. q \<in> free s2 \<longrightarrow> q \<in> free s1 \<or> mapped (pte s1 pd (upage la)) \<and> q = frame (pte s1 pd (upage la))"
      using page_insert_ok [OF al(1) la p1 perm spare1] by blast
    have old1: "\<not> mapped (pte s1 pd (upage la))" using old al(2) [OF v] by simp
    show ?thesis
    proof (cases r2)
      case (Inl e)
      then have f: "free s1 = {}" "\<forall>w < UPAGES. pte s2 pd w = pte s1 pd w" "p \<in> held s2" "tables s2 pd = tables s1 pd"
        "\<forall>q. refs s2 q = refs s1 q"
        using i(6) by auto
      have "mappings (pte s2 pd) p = mappings (pte s pd) p" using f(2) al(2) by (intro mappings_cong) simp
      also have "\<dots> = {}" using ok p(1) by (auto simp: space_ok_def mappings_def held_def)
      finally obtain s3 where s3: "free_pages s2 p 1 = Ok s3" "same_pages s2 s3" "pmem s3 = pmem s2" "space_ok s3 pd"
        "free s3 = insert p (free s2)" "\<forall>q. refs s3 q = (if q = p then 0 else refs s2 q)" "pte s3 pd = pte s2 pd"
        using space_ok_free_page [OF i(2), of p] f(3,4) p1 by auto
      have "free s = {p}" using f(1) p by auto
      moreover have "free s2 = {}" using i(8) old1 f(1) by auto
      moreover have "tlb_ok s3 pd" if "tlb_ok s pd"
        by (rule tlb_ok_same [OF _ s3(2)]) (use i(4) tl1 [OF that] al(2) s3(7) in auto)
      moreover have "unref s3" using s3(5,6) \<open>free s2 = {}\<close> by (simp add: unref_def)
      ultimately show ?thesis using Some a(1) i(1,7) Inl s3(1,3-7) f(2,5) al(2,3) a(3,5) p(2)
        by (intro exI [of _ None] exI [of _ s3]) (auto simp: pgdir_alloc_page_def)
    next
      case (Inr u)
      then have f: "\<forall>w < UPAGES. pte s2 pd w = (if w = upage la then page2pa p OR PTE_P OR perm else pte s1 pd w)"
        "\<forall>q. q \<notin> free s1 \<longrightarrow> refs s2 q = refs s1 q + (if q = p then 1 else 0)" "p \<in> held s2"
        using i(6) old1 by (auto simp: ref_change_def)
      have r1: "refs s2 p = 1" using f(2) p un a(5) by (simp add: unref_def)
      have tl2: "tlb_ok s pd \<longrightarrow> tlb_ok s2 pd" using tl1 al(2) i(4) by blast
      have frm: "\<forall>f. f \<notin> free s \<union> tables s pd \<union> {pd} \<longrightarrow> pmem s2 f = pmem s f"
        using i(7) p(2) al(3) a(3) by auto
      have rf: "\<forall>q. q \<notin> free s \<longrightarrow> refs s2 q = refs s q" using f(2) p a(5) by auto
      have nf: "p \<notin> free s2" using f(3) by (simp add: held_def)
      define s3 where "s3 = s2\<lparr>pra_list := list_add (pra_list s2) PraHead (PraLink p)\<rparr>"
      define s4 where "s4 = upd_phys s3 p (\<lambda>pg. pg\<lparr>pra_vaddr := la\<rparr>)"
      note mk = make_swappable [OF i(2) s4_def [unfolded s3_def]]
      have same: "swap_init_ok s2 = swap_init_ok s" "check_mm_struct s2 = check_mm_struct s" "mms s2 = mms s"
        using same_vm_fields(4,5,6) [OF same_vm_trans [OF same_pages_vm [OF a(2)] i(3)]] by simp_all
      show ?thesis
      proof (cases "swap_init_ok s \<and> check_mm_struct s \<noteq> None")
        case True
        then obtain m where m: "check_mm_struct s = Some m" by auto
        then have "fifo_map_swappable s2 m p = Ok s3"
          using sm True same by (simp add: fifo_map_swappable_def s3_def)
        then have "pgdir_alloc_page s pd la perm = Ok (Some p, s4)"
          using Some a(1) i(1) Inr True m same mk(5) [of p] r1 by (simp add: pgdir_alloc_page_def s4_def Let_def)
        moreover have "unref s4" using i(5) un1 mk(4,5) by (simp add: unref_def)
        ultimately show ?thesis using mk tl2 f(1) r1 p al(2) rf frm nf
          by (intro exI [of _ "Some p"] exI [of _ s4]) simp
      next
        case False
        then have "pgdir_alloc_page s pd la perm = Ok (Some p, s2)"
          using Some a(1) i(1) Inr same by (auto simp: pgdir_alloc_page_def)
        then show ?thesis using i(2,5) un1 tl2 f(1) r1 p al(2) rf frm nf
          by (intro exI [of _ "Some p"] exI [of _ s2]) simp
      qed
    qed
  qed
qed

end
