(* ===== verification/Copy_Range.thy ===== *)
theory Copy_Range
  imports Address_Space
begin

text \<open>
  Copying the user pages of one address space into another, as \<open>fork\<close> does: \<open>copy_range\<close> of
  \<open>kern/mm/pmm.c\<close>.
\<close>

section \<open>Two address spaces\<close>

definition apart :: "vm \<Rightarrow> nat \<Rightarrow> nat \<Rightarrow> bool" where
  "apart s pd pd2 \<longleftrightarrow> pd \<noteq> pd2 \<and> pd \<notin> tables s pd2 \<and> pd2 \<notin> tables s pd \<and> tables s pd \<inter> tables s pd2 = {}
     \<and> (\<forall>w < UPAGES. mapped (pte s pd w) \<longrightarrow> frame (pte s pd w) \<notin> insert pd2 (tables s pd2))"

text \<open>A change that only uses free frames and the tables of \<open>pd2\<close> leaves \<open>pd\<close> as it is.\<close>

definition keeps_others :: "vm \<Rightarrow> vm \<Rightarrow> nat \<Rightarrow> bool" where
  "keeps_others s s' pd2 \<longleftrightarrow> same_vm s s' \<and> ff_inv (phys s') \<and> free s' \<subseteq> free s \<and> (\<forall>q. 0 \<le> refs s' q)
     \<and> (\<forall>q. q \<notin> free s \<longrightarrow> refs s' q = refs s q) \<and> (unref s \<longrightarrow> unref s')
     \<and> (\<forall>f. f \<notin> free s \<union> tables s pd2 \<union> {pd2} \<longrightarrow> pmem s' f = pmem s f)
     \<and> tables s pd2 \<subseteq> tables s' pd2 \<and> tables s' pd2 \<subseteq> tables s pd2 \<union> free s"

lemma refs_nonneg: "space_ok s pd \<Longrightarrow> 0 \<le> refs s q"
  unfolding space_ok_def by (metis of_nat_0_le_iff order_trans)

lemma space_inv: "space_ok s pd \<Longrightarrow> ff_inv (phys s)"
  by (simp add: space_ok_def tables_ok_def)

lemma keeps_others_refl: "space_ok s pd \<Longrightarrow> keeps_others s s pd2"
  by (simp add: keeps_others_def space_inv refs_nonneg)

lemma keeps_others_trans:
  assumes 1: "keeps_others s t pd2" and 2: "keeps_others t u pd2"
  shows "keeps_others s u pd2"
proof -
  note a = 1 [unfolded keeps_others_def] and b = 2 [unfolded keeps_others_def]
  have "same_vm s u" using a b same_vm_trans by blast
  moreover have "pmem u f = pmem s f" if "f \<notin> free s \<union> tables s pd2 \<union> {pd2}" for f
  proof -
    have "f \<notin> free t \<union> tables t pd2 \<union> {pd2}" using that a by blast
    then show ?thesis using a b that by simp
  qed
  moreover have "refs u q = refs s q" if "q \<notin> free s" for q
  proof -
    have "q \<notin> free t" using that a by blast
    then show ?thesis using a b that by simp
  qed
  moreover have "free u \<subseteq> free s" "tables s pd2 \<subseteq> tables u pd2" "tables u pd2 \<subseteq> tables s pd2 \<union> free s"
    using a b by blast+
  ultimately show ?thesis using a b unfolding keeps_others_def by blast
qed

lemma keeps_others_space:
  assumes k: "keeps_others s s' pd2" and ok: "space_ok s pd" and ap: "apart s pd pd2"
  shows "space_ok s' pd" and "w < UPAGES \<Longrightarrow> pte s' pd w = pte s pd w" and "tables s' pd = tables s pd"
    and "apart s' pd pd2" and "f \<in> insert pd (tables s pd) \<Longrightarrow> pmem s' f = pmem s f"
    and "has_tab s' pd d = has_tab s pd d" and "tab s' pd d = tab s pd d"
proof -
  note a = k [unfolded keeps_others_def]
  have nf: "insert pd (tables s pd) \<inter> free s = {}" using ok by (auto simp: space_ok_def tables_ok_def held_def)
  have pm: "pmem s' f = pmem s f" if "f \<in> insert pd (tables s pd)" for f
    using a ap nf that unfolding apart_def by (metis IntI UnE empty_iff insertE singletonD)
  then show "f \<in> insert pd (tables s pd) \<Longrightarrow> pmem s' f = pmem s f" .
  have sv: "same_vm s s'" and iv: "ff_inv (phys s')" and fr: "free s' \<subseteq> free s" using a by blast+
  have rf: "refs s q \<le> refs s' q" if "q \<notin> free s" for q using a that by simp
  have nn: "0 \<le> refs s' q" for q using a by blast
  show "space_ok s' pd" by (rule space_ok_frame(1) [OF ok sv iv fr rf nn pm])
  have pt: "pte s' pd w = pte s pd w" if "w < UPAGES" for w
    by (rule space_ok_frame(2) [OF ok sv iv fr rf nn pm that])
  then show "w < UPAGES \<Longrightarrow> pte s' pd w = pte s pd w" .
  show tb: "tables s' pd = tables s pd" by (rule space_ok_frame(3) [OF ok sv iv fr rf nn pm])
  show "has_tab s' pd d = has_tab s pd d" "tab s' pd d = tab s pd d"
    by (rule table_cong [OF pm], simp)+
  have "frame (pte s pd w) \<notin> free s" if "w < UPAGES" "mapped (pte s pd w)" for w
    using ok that by (auto simp: space_ok_def held_def)
  then have "frame (pte s' pd w) \<notin> insert pd2 (tables s' pd2)" if "w < UPAGES" "mapped (pte s' pd w)" for w
    using ap a that pt [OF that(1)] unfolding apart_def by auto
  then show "apart s' pd pd2" using ap a nf tb unfolding apart_def by auto
qed

section \<open>Copying one page\<close>

lemma get_pte_keeps:
  assumes ok: "space_ok s pd2" and la: "la < USERTOP" and spare: "free s \<noteq> {}"
  shows "\<exists>s'. get_pte s pd2 la True = Ok (Some (tab s' pd2 (unat (PDX la)), unat (PTX la)), s') \<and> space_ok s' pd2
    \<and> keeps_others s s' pd2 \<and> has_tab s' pd2 (unat (PDX la)) \<and> (\<forall>v < UPAGES. pte s' pd2 v = pte s pd2 v)
    \<and> (\<exists>t. free s \<subseteq> insert t (free s'))"
proof -
  obtain r s' where g: "get_pte s pd2 la True = Ok (r, s')" "same_pages s s'" "space_ok s' pd2"
    "\<forall>v < UPAGES. pte s' pd2 v = pte s pd2 v" "tables s pd2 \<subseteq> tables s' pd2" "tables s' pd2 \<subseteq> tables s pd2 \<union> free s"
    "free s' \<subseteq> free s" "\<forall>q \<in> free s'. refs s' q = refs s q" "\<exists>t. free s \<subseteq> insert t (free s')"
    "\<forall>f. f \<notin> free s \<longrightarrow> refs s' f = refs s f \<and> (f \<noteq> pd2 \<longrightarrow> pmem s' f = pmem s f)"
    "case r of None \<Rightarrow> free s = {} | Some a \<Rightarrow> a = (tab s' pd2 (unat (PDX la)), unat (PTX la)) \<and> has_tab s' pd2 (unat (PDX la))"
    using get_pte_ok [OF ok la] spare by blast
  obtain a where r: "r = Some a" using g(11) spare by (cases r) auto
  have "unref s'" if "unref s" using that g(7,8) by (auto simp: unref_def)
  then have "keeps_others s s' pd2"
    using g(3,5-8,10) same_pages_vm [OF g(2)] space_inv [OF g(3)] refs_nonneg [OF g(3)]
    unfolding keeps_others_def by blast
  then show ?thesis using g(1,3,4,9,11) r by auto
qed

lemma fresh_copy:
  assumes ok: "space_ok s pd2" and fr: "free s \<noteq> {}" and p: "p \<notin> free s"
  shows "\<exists>n s1 s2. alloc_pages s 1 = Ok (Some n, s1) \<and> npage (phys s1) = npage (phys s)
    \<and> s2 = s1\<lparr>pmem := (pmem s1)(n := pmem s1 p)\<rparr> \<and> n \<in> free s \<and> free s2 = free s - {n}
    \<and> n \<in> held s2 - tables s2 pd2 - {pd2} \<and> space_ok s2 pd2 \<and> keeps_others s s2 pd2 \<and> pmem s2 n = pmem s p
    \<and> (\<forall>q. refs s2 q = refs s q) \<and> (\<forall>v < UPAGES. pte s2 pd2 v = pte s pd2 v) \<and> tables s2 pd2 = tables s pd2
    \<and> (\<forall>d. has_tab s2 pd2 d = has_tab s pd2 d)"
proof -
  note inv = space_inv [OF ok]
  obtain r s1 where a: "alloc_pages s 1 = Ok (r, s1)" "same_pages s s1" "pmem s1 = pmem s" "ff_inv (phys s1)"
    "\<forall>p. refs s1 p = refs s p"
    "case r of None \<Rightarrow> free s = {} \<and> free s1 = {} | Some p \<Rightarrow> p \<in> free s \<and> free s1 = free s - {p}"
    using alloc_page_ok [OF inv] fr by blast
  then obtain n where n: "r = Some n" "n \<in> free s" "free s1 = free s - {n}" using fr by (cases r) auto
  define s2 where "s2 = s1\<lparr>pmem := (pmem s1)(n := pmem s1 p)\<rparr>"
  have sp: "same_pages s s2" unfolding s2_def by (rule same_pages_trans [OF a(2) same_pages_pmem(1)])
  have nt: "n \<notin> insert pd2 (tables s pd2)" using n(2) ok by (auto simp: space_ok_def tables_ok_def held_def)
  have iv: "ff_inv (phys s2)" and fr2: "free s2 \<subseteq> free s" and rf: "refs s q \<le> refs s2 q" and nn: "0 \<le> refs s2 q" for q
    using a(4,5) n(3) refs_nonneg [OF ok] by (auto simp: s2_def)
  have pm: "pmem s2 f = pmem s f" if "f \<in> insert pd2 (tables s pd2)" for f
    using nt that a(3) by (auto simp: s2_def)
  note fm = space_ok_frame [OF ok same_pages_vm [OF sp] iv fr2 rf nn pm]
  have "n \<in> held s2" using n free_pages_usable [OF inv] same_pages_fields(2) [OF sp] by (auto simp: held_def s2_def)
  moreover have "keeps_others s s2 pd2"
    using same_pages_vm [OF sp] iv fr2 nn a(3,5) n(2,3) fm(3)
    unfolding keeps_others_def by (auto simp: s2_def unref_def)
  moreover have "has_tab s2 pd2 d = has_tab s pd2 d" for d by (rule table_cong(1) [OF pm]) simp
  ultimately show ?thesis
    using a(1,3,5) n fm nt same_pages_fields(1) [OF a(2)] s2_def p
    by - (rule exI [of _ n], rule exI [of _ s1], rule exI [of _ s2], auto simp: s2_def)
qed

lemma page2kva_ok: "p < unat np \<Longrightarrow> p < 2 ^ 20 \<Longrightarrow> \<exists>k. page2kva np p = Ok k"
  using PPN_page2pa_or [of p 0] by (simp add: page2kva_def KADDR_def PGSIZE_def word_le_nat_alt unat_of_nat_u32)

lemma user_perm_less: "e AND PTE_USER < PGSIZE"
proof -
  have "e AND PTE_USER \<le> PTE_USER" by (rule word_and_le1)
  also have "PTE_USER < PGSIZE" by (simp add: PTE_USER_def PTE_P_def PTE_W_def PTE_U_def PGSIZE_def)
  finally show ?thesis .
qed

lemma copy_page_ok:
  assumes ok: "space_ok s pd" "space_ok s pd2" and ap: "apart s pd pd2" and un: "unref s" and la: "la < USERTOP"
    and tb: "has_tab s pd (unat (PDX la))" and mp: "mapped (pte s pd (upage la))"
    and new: "\<not> mapped (pte s pd2 (upage la))" and room: "3 \<le> card (free s)"
  defines "a \<equiv> (tab s pd (unat (PDX la)), unat (PTX la))" and "e \<equiv> pte s pd (upage la)"
  shows "\<exists>n s'. copy_page s pd2 la a = Ok (Inr (), s') \<and> space_ok s' pd2 \<and> keeps_others s s' pd2
    \<and> (\<forall>w < UPAGES. pte s' pd2 w = (if w = upage la then page2pa n OR PTE_P OR (e AND PTE_USER) else pte s pd2 w))
    \<and> n \<in> free s \<and> n \<notin> free s' \<and> pmem s' n = pmem s (frame e) \<and> refs s' n = 1 \<and> card (free s) \<le> card (free s') + 2"
proof -
  let ?d = "unat (PDX la)" and ?v = "upage la" and ?p = "frame e"
  note ua = user_address [OF la]
  have fin: "finite (free t)" if "ff_inv (phys t)" for t
    using finite_subset [OF free_pages_usable [OF that]] by (simp add: usable_pages_def)
  have ne: "free s \<noteq> {}" using room by auto
  obtain s1 where g: "get_pte s pd2 la True = Ok (Some (tab s1 pd2 ?d, unat (PTX la)), s1)" "space_ok s1 pd2"
    "keeps_others s s1 pd2" "has_tab s1 pd2 ?d" "\<forall>v < UPAGES. pte s1 pd2 v = pte s pd2 v" "\<exists>t. free s \<subseteq> insert t (free s1)"
    using get_pte_keeps [OF ok(2) la ne] by blast
  note k1 = keeps_others_space [OF g(3) ok(1) ap]
  have f1: "finite (free s1)" by (rule fin [OF space_inv [OF g(2)]])
  have c1: "card (free s) \<le> Suc (card (free s1))"
    using g(6) card_mono [OF finite.insertI [OF f1]] card_insert_le_m1 [of "Suc (card (free s1))" "free s1"]
    by (metis Suc_diff_1 card_insert_if f1 le_SucI le_refl order_trans zero_less_Suc)
  have ph: "?p \<in> held s1" using k1(1) k1(2) [OF ua(2)] mp ua(2) by (auto simp: space_ok_def e_def)
  have pn: "?p \<notin> free s1" "?p < unat (npage (phys s1))" using ph held_less [OF ph] by (auto simp: held_def)
  have np20: "unat (npage (phys s1)) \<le> 2 ^ 20" using g(2) by (simp add: space_ok_def tables_ok_def)
  have ps: "?p \<notin> free s" "?p \<notin> insert pd2 (tables s pd2)"
    using ok(1) mp ua(2) ap by (auto simp: space_ok_def held_def e_def apart_def)
  have "fst a \<in> tables s pd" using tab_in [OF ua(1) tb] by (simp add: a_def)
  then have "pmem s1 (fst a) = pmem s (fst a)" using k1(5) by blast
  then have ra: "rd s1 a = e" using tb ua by (simp add: rd_def a_def e_def pte_def)
  have pg: "pte2page (npage (phys s1)) (rd s1 a) = Ok ?p"
    using mp pn(2) unfolding ra by (simp add: pte2page_def mapped_def pa2page_frame e_def)
  have ne1: "free s1 \<noteq> {}" using c1 room by auto
  obtain n s2 s3 where n: "alloc_pages s1 1 = Ok (Some n, s2)" "npage (phys s2) = npage (phys s1)"
    "s3 = s2\<lparr>pmem := (pmem s2)(n := pmem s2 ?p)\<rparr>" "n \<in> free s1" "free s3 = free s1 - {n}"
    "n \<in> held s3 - tables s3 pd2 - {pd2}" "space_ok s3 pd2" "keeps_others s1 s3 pd2" "pmem s3 n = pmem s1 ?p"
    "\<forall>q. refs s3 q = refs s1 q" "\<forall>v < UPAGES. pte s3 pd2 v = pte s1 pd2 v" "tables s3 pd2 = tables s1 pd2"
    "\<forall>d. has_tab s3 pd2 d = has_tab s1 pd2 d"
    using fresh_copy [OF g(2) ne1 pn(1)] by blast
  have nn: "n < unat (npage (phys s1))"
    using n(4) free_pages_usable [OF space_inv [OF g(2)]] by (auto simp: usable_pages_def)
  have c3: "card (free s1) = Suc (card (free s3))" using card_Suc_Diff1 [OF f1 n(4)] n(5) by simp
  have ne3: "free s3 \<noteq> {}" using c3 c1 room by auto
  let ?e = "page2pa n OR PTE_P OR (e AND PTE_USER)"
  obtain r s' where i: "page_insert s3 pd2 n la (e AND PTE_USER) = Ok (r, s')" "space_ok s' pd2" "same_vm s3 s'"
    "unref s3 \<longrightarrow> unref s'"
    "case r of
       Inl e \<Rightarrow> free s3 = {}
     | Inr _ \<Rightarrow> (\<forall>w < UPAGES. pte s' pd2 w = (if w = ?v then ?e else pte s3 pd2 w))
         \<and> (\<forall>q. q \<notin> free s3 \<longrightarrow> refs s' q = refs s3 q + ref_change (pte s3 pd2 ?v) n q) \<and> n \<in> held s'"
    "\<forall>f. f \<notin> free s3 \<union> tables s3 pd2 \<union> {pd2} \<longrightarrow> pmem s' f = pmem s3 f"
    "\<forall>q. q \<in> free s' \<longrightarrow> q \<in> free s3 \<or> mapped (pte s3 pd2 ?v) \<and> q = frame (pte s3 pd2 ?v)"
    "free s3 \<subseteq> free s'" "tables s' pd2 = tables s3 pd2"
    using page_insert_ok [OF n(7) la n(6) user_perm_less ne3, of e] g(4) n(13) by (fastforce split: sum.splits)
  obtain u where r: "r = Inr u" using i(5) ne3 by (cases r) auto
  have old: "\<not> mapped (pte s3 pd2 ?v)" using new n(11) g(5) ua(2) by simp
  have ins: "\<forall>w < UPAGES. pte s' pd2 w = (if w = ?v then ?e else pte s3 pd2 w)"
    "\<forall>q. q \<notin> free s3 \<longrightarrow> refs s' q = refs s3 q + (if q = n then 1 else 0)" "n \<in> held s'"
    using i(5) r old by (auto simp: ref_change_def)
  have fr': "free s' = free s3" using i(7,8) old by auto
  have un3: "unref s3" using un g(3) n(8) by (simp add: keeps_others_def)
  have k: "keeps_others s1 s' pd2"
    using n(4,5,8,10,12) i(2,3,4,6,9) ins(2) fr' space_inv [OF i(2)] refs_nonneg [OF i(2)] un3
      same_vm_trans [OF _ i(3), of s1]
    unfolding keeps_others_def by auto
  have run: "copy_page s pd2 la a = Ok (Inr (), s')"
    using g(1) pg n(1,2) i(1) r page2kva_ok [OF pn(2)] page2kva_ok [OF nn] np20 pn(2) nn
    by (auto simp: copy_page_def ra Let_def n(3) [symmetric])
  have "n \<notin> free s3 \<union> tables s3 pd2 \<union> {pd2}" using n(6) by (auto simp: held_def)
  then have "pmem s' n = pmem s1 ?p" using i(6) n(9) by simp
  also have "\<dots> = pmem s ?p" using g(3) ps by (simp add: keeps_others_def)
  finally have cp: "pmem s' n = pmem s ?p" .
  have nfree: "n \<in> free s" using n(4) g(3) by (auto simp: keeps_others_def)
  have "unref s1" using un g(3) by (simp add: keeps_others_def)
  then have "refs s' n = 1" using ins(2) n(4,5,10) by (simp add: unref_def)
  then show ?thesis
    using run i(2) keeps_others_trans [OF g(3) k] ins(1) n(11) g(5) nfree fr' n(5) cp c1 c3 by auto
qed

section \<open>Copying a range\<close>

text \<open>The mapped pages from \<open>i\<close> to before \<open>j\<close> of \<open>pd\<close> have copies in \<open>pd2\<close>.\<close>

definition copied_between :: "vm \<Rightarrow> vm \<Rightarrow> nat \<Rightarrow> nat \<Rightarrow> nat \<Rightarrow> nat \<Rightarrow> bool" where
  "copied_between s s' pd pd2 i j \<longleftrightarrow> space_ok s' pd2 \<and> keeps_others s s' pd2
     \<and> (\<forall>w < UPAGES. if i \<le> w \<and> w < j \<and> mapped (pte s pd w)
          then \<exists>n \<in> free s. pte s' pd2 w = page2pa n OR PTE_P OR (pte s pd w AND PTE_USER)
                \<and> n \<notin> free s' \<and> pmem s' n = pmem s (frame (pte s pd w)) \<and> refs s' n = 1
          else pte s' pd2 w = pte s pd2 w)
     \<and> card (free s) \<le> card (free s') + 2 * card {w. i \<le> w \<and> w < j \<and> w < UPAGES \<and> mapped (pte s pd w)}"

lemma copied_none:
  assumes ok: "space_ok s pd2" and no: "\<And>w. i \<le> w \<Longrightarrow> w < j \<Longrightarrow> w < UPAGES \<Longrightarrow> \<not> mapped (pte s pd w)"
  shows "copied_between s s pd pd2 i j"
  using ok keeps_others_refl [OF ok] no by (auto simp: copied_between_def)

lemma copied_between_trans:
  assumes ok: "space_ok s pd" "apart s pd pd2" and 1: "copied_between s t pd pd2 i j" and 2: "copied_between t u pd pd2 j k"
    and le: "i \<le> j" "j \<le> k"
  shows "copied_between s u pd pd2 i k"
proof -
  note a = 1 [unfolded copied_between_def] and b = 2 [unfolded copied_between_def]
  have ka: "keeps_others s t pd2" and kb: "keeps_others t u pd2" using a b by blast+
  note ks = keeps_others_space [OF ka ok]
  let ?M = "\<lambda>i j. {w. i \<le> w \<and> w < j \<and> w < UPAGES \<and> mapped (pte s pd w)}"
  have "{w. j \<le> w \<and> w < k \<and> w < UPAGES \<and> mapped (pte t pd w)} = ?M j k" using ks(2) by auto
  moreover have "?M i k = ?M i j \<union> ?M j k" "?M i j \<inter> ?M j k = {}" using le by auto
  then have "card (?M i k) = card (?M i j) + card (?M j k)" by (simp add: card_Un_disjoint)
  ultimately have card: "card (free s) \<le> card (free u) + 2 * card (?M i k)" using a b by simp
  have "\<exists>n \<in> free s. pte u pd2 w = page2pa n OR PTE_P OR (pte s pd w AND PTE_USER)
                \<and> n \<notin> free u \<and> pmem u n = pmem s (frame (pte s pd w)) \<and> refs u n = 1"
    if w: "w < UPAGES" "i \<le> w" "w < k" "mapped (pte s pd w)" for w
  proof (cases "w < j")
    case True
    then obtain n where n: "n \<in> free s" "pte t pd2 w = page2pa n OR PTE_P OR (pte s pd w AND PTE_USER)"
      "n \<notin> free t" "pmem t n = pmem s (frame (pte s pd w))" "refs t n = 1" using a w by (auto split: if_splits)
    have pu: "pte u pd2 w = pte t pd2 w" using b w(1) True by (auto split: if_splits)
    have "n \<in> usable_pages (phys s)" using n(1) free_pages_usable [OF space_inv [OF ok(1)]] by blast
    then have n20: "n < 2 ^ 20" using ok(1) by (simp add: space_ok_def tables_ok_def usable_pages_def)
    have "mapped (pte t pd2 w)" "space_ok t pd2" using new_entry(1) [OF n20 user_perm_less] n(2) a by simp_all
    then have "frame (pte t pd2 w) \<in> held t - tables t pd2 - {pd2}" using w(1) unfolding space_ok_def by blast
    then have "n \<notin> free t \<union> tables t pd2 \<union> {pd2}"
      using new_entry(2) [OF n20 user_perm_less] n(2) by (auto simp: held_def)
    then have "pmem u n = pmem t n" "refs u n = refs t n" "n \<notin> free u"
      using kb unfolding keeps_others_def by auto
    then show ?thesis using n pu by auto
  next
    case False
    have pt: "pte t pd w = pte s pd w" using ks(2) [OF w(1)] .
    then obtain n where n: "n \<in> free t" "pte u pd2 w = page2pa n OR PTE_P OR (pte s pd w AND PTE_USER)"
      "n \<notin> free u" "pmem u n = pmem t (frame (pte s pd w))" "refs u n = 1" using b w False by (auto split: if_splits)
    have "frame (pte s pd w) \<notin> free s \<union> tables s pd2 \<union> {pd2}"
      using ok w(1,4) by (auto simp: space_ok_def held_def apart_def)
    then have "pmem t (frame (pte s pd w)) = pmem s (frame (pte s pd w))" using ka unfolding keeps_others_def by blast
    moreover have "n \<in> free s" using n(1) ka unfolding keeps_others_def by blast
    ultimately show ?thesis using n by auto
  qed
  moreover have "pte u pd2 w = pte s pd2 w" if "w < UPAGES" "\<not> (i \<le> w \<and> w < k \<and> mapped (pte s pd w))" for w
    using a b that le ks(2) [OF that(1)] by (auto split: if_splits)
  ultimately show ?thesis
    using b keeps_others_trans [OF ka kb] card unfolding copied_between_def by auto
qed

lemma copied_one:
  assumes ok: "space_ok s pd" "space_ok s pd2" and ap: "apart s pd pd2" and un: "unref s" and la: "la < USERTOP"
    and tb: "has_tab s pd (unat (PDX la))" and new: "\<not> mapped (pte s pd2 (upage la))"
    and room: "mapped (pte s pd (upage la)) \<Longrightarrow> 3 \<le> card (free s)"
  defines "a \<equiv> (tab s pd (unat (PDX la)), unat (PTX la))"
  shows "\<exists>s'. (if rd s a AND PTE_P \<noteq> 0 then copy_page s pd2 la a else Ok (Inr (), s)) = Ok (Inr (), s')
    \<and> copied_between s s' pd pd2 (upage la) (Suc (upage la))"
proof -
  let ?v = "upage la"
  note ua = user_address [OF la]
  have ra: "rd s a = pte s pd ?v" using tb ua by (simp add: rd_def a_def pte_def)
  show ?thesis
  proof (cases "mapped (pte s pd ?v)")
    case True
    obtain n s' where c: "copy_page s pd2 la a = Ok (Inr (), s')" "space_ok s' pd2" "keeps_others s s' pd2"
      "\<forall>w < UPAGES. pte s' pd2 w = (if w = ?v then page2pa n OR PTE_P OR (pte s pd ?v AND PTE_USER) else pte s pd2 w)"
      "n \<in> free s" "n \<notin> free s'" "pmem s' n = pmem s (frame (pte s pd ?v))" "refs s' n = 1" "card (free s) \<le> card (free s') + 2"
      using copy_page_ok [OF ok ap un la tb True new room [OF True]] unfolding a_def by blast
    have "{w. ?v \<le> w \<and> w < Suc ?v \<and> w < UPAGES \<and> mapped (pte s pd w)} = {?v}" using True ua(2) by auto
    then have "copied_between s s' pd pd2 ?v (Suc ?v)" using c(2-9) by (auto simp: copied_between_def le_less_Suc_eq)
    then show ?thesis using c(1) True ra by (simp add: mapped_def)
  next
    case False
    then have "copied_between s s pd pd2 ?v (Suc ?v)" by (intro copied_none [OF ok(2)]) (simp add: le_less_Suc_eq)
    then show ?thesis using False ra by (simp add: mapped_def)
  qed
qed

abbreviation user_pages :: "vm \<Rightarrow> nat \<Rightarrow> nat \<Rightarrow> nat \<Rightarrow> nat set" where
  "user_pages s pd i j \<equiv> {w. i \<le> w \<and> w < j \<and> w < UPAGES \<and> mapped (pte s pd w)}"

text \<open>Each page that is copied takes at most a frame for itself and one for a page table.\<close>

definition room_for :: "vm \<Rightarrow> nat set \<Rightarrow> bool" where
  "room_for s W \<longleftrightarrow> W = {} \<or> 2 * card W < card (free s)"

definition unused :: "vm \<Rightarrow> nat \<Rightarrow> nat \<Rightarrow> nat \<Rightarrow> bool" where
  "unused s pd i j \<longleftrightarrow> (\<forall>w < UPAGES. i \<le> w \<and> w < j \<longrightarrow> \<not> mapped (pte s pd w))"

lemma less_add_two: "2 * (a + b) < c \<Longrightarrow> c \<le> d + 2 * a \<Longrightarrow> 2 * b < (d :: nat)"
  by simp

lemma copied_between_rest:
  assumes ok: "space_ok s pd" "apart s pd pd2" and c: "copied_between s t pd pd2 i j" and le: "i \<le> j" "j \<le> k"
    and new: "unused s pd2 i k" and room: "room_for s (user_pages s pd i k)"
  shows "space_ok t pd" and "apart t pd pd2" and "unref s \<Longrightarrow> unref t"
    and "unused t pd2 j k" and "room_for t (user_pages t pd j k)"
proof -
  note a = c [unfolded copied_between_def]
  have k: "keeps_others s t pd2" using a by blast
  note ks = keeps_others_space [OF k ok]
  show "space_ok t pd" "apart t pd pd2" by (rule ks)+
  show "unref s \<Longrightarrow> unref t" using k by (simp add: keeps_others_def)
  have "\<not> mapped (pte t pd2 w)" if "j \<le> w" "w < k" "w < UPAGES" for w
  proof -
    have "pte t pd2 w = pte s pd2 w" using a that by (auto split: if_splits)
    then show ?thesis using new that le by (simp add: unused_def)
  qed
  then show "unused t pd2 j k" by (simp add: unused_def)
  have ut: "user_pages t pd j k = user_pages s pd j k" using ks(2) by auto
  have us: "user_pages s pd i k = user_pages s pd i j \<union> user_pages s pd j k" using le by auto
  have cu: "card (user_pages s pd i j \<union> user_pages s pd j k) = card (user_pages s pd i j) + card (user_pages s pd j k)"
    by (rule card_Un_disjoint) auto
  have ct: "card (free s) \<le> card (free t) + 2 * card (user_pages s pd i j)" using a by blast
  show "room_for t (user_pages t pd j k)"
  proof (cases "user_pages s pd j k = {}")
    case False
    then have "user_pages s pd i k \<noteq> {}" unfolding us by blast
    then have "2 * card (user_pages s pd i k) < card (free s)" using room unfolding room_for_def by blast
    then have "2 * card (user_pages s pd j k) < card (free t)" 
      using ct unfolding us cu
      by (rule less_add_two)
    then show ?thesis unfolding room_for_def ut by blast
  qed (simp only: room_for_def ut, simp)
qed

lemma copy_loop_ok:
  assumes "space_ok s pd" and "space_ok s pd2" and "apart s pd pd2" and "unref s"
    and "aligned start" and "aligned e" and "start < e" and "e \<le> USERTOP"
    and "unused s pd2 (upage start) (upage e)" and "room_for s (user_pages s pd (upage start) (upage e))"
  shows "\<exists>s'. copy_loop s pd2 pd start e = Some (Ok (Inr (), s')) \<and> copied_between s s' pd pd2 (upage start) (upage e)"
  using assms
proof (induction "upage e - upage start" arbitrary: s start rule: less_induct)
  case less
  note ok = less.prems(1,2) and ap = less.prems(3) and un = less.prems(4) and al = less.prems(5,6) and new = less.prems(9)
    and room = less.prems(10)
  have la: "start < USERTOP" using less.prems(7,8) by simp
  note ua = user_address [OF la]
  have lt: "upage start < upage e" using less.prems(7) aligned_less_iff [OF al] by simp
  show ?case
  proof (cases "has_tab s pd (unat (PDX start))")
    case True
    let ?a = "(tab s pd (unat (PDX start)), unat (PTX start))" and ?st = "start + PGSIZE"
    note np = next_page [OF al(1) la]
    have new1: "\<not> mapped (pte s pd2 (upage start))" using new lt ua(2) by (simp add: unused_def)
    have room1: "3 \<le> card (free s)" if "mapped (pte s pd (upage start))"
    proof -
      have ne: "upage start \<in> user_pages s pd (upage start) (upage e)" using that lt ua(2) by simp
      then have "0 < card (user_pages s pd (upage start) (upage e))" by (subst card_gt_0_iff) auto
      moreover have "2 * card (user_pages s pd (upage start) (upage e)) < card (free s)"
        using room ne unfolding room_for_def by blast
      ultimately show ?thesis by simp
    qed
    obtain s1 where s1: "(if rd s ?a AND PTE_P \<noteq> 0 then copy_page s pd2 start ?a else Ok (Inr (), s)) = Ok (Inr (), s1)"
      "copied_between s s1 pd pd2 (upage start) (Suc (upage start))"
      using copied_one [OF ok ap un la True new1 room1] by blast
    have le: "upage start \<le> Suc (upage start)" "Suc (upage start) \<le> upage e" using lt by simp_all
    note rest = copied_between_rest [OF ok(1) ap s1(2) le new room]
    have run: "copy_loop s pd2 pd start e = (if ?st < e then copy_loop s1 pd2 pd ?st e else Some (Ok (Inr (), s1)))"
      using get_pte_found [OF _ la True, of False] ok(1) s1(1) np(3)
      by (subst copy_loop.simps) (simp add: space_ok_def)
    have lt': "?st < e \<longleftrightarrow> Suc (upage start) < upage e" using aligned_less_iff [OF np(1) al(2)] np(2) by simp
    show ?thesis
    proof (cases "?st < e")
      case True
      have dec: "upage e - upage ?st < upage e - upage start" using lt np(2) by simp
      have ok2: "space_ok s1 pd2" using s1(2) by (simp add: copied_between_def)
      have "\<exists>s'. copy_loop s1 pd2 pd ?st e = Some (Ok (Inr (), s')) \<and> copied_between s1 s' pd pd2 (upage ?st) (upage e)"
        by (rule less.hyps [OF dec rest(1) ok2 rest(2) rest(3) [OF un] np(1) al(2) True less.prems(8)])
          (use rest(4,5) np(2) in simp_all)
      then show ?thesis using copied_between_trans [OF ok(1) ap s1(2)] run True lt np(2) by auto
    next
      case False
      then have "upage e = Suc (upage start)" using lt lt' by simp
      then show ?thesis using run False s1(2) by simp
    qed
  next
    case False
    let ?st = "ROUNDDOWN (start + PTSIZE) PTSIZE"
    note nt = next_table [OF la]
    have run: "copy_loop s pd2 pd start e = (if ?st < e then copy_loop s pd2 pd ?st e else Some (Ok (Inr (), s)))"
      using get_pte_absent [OF False] nt(3) by (subst copy_loop.simps) simp
    have up: "upage start < upage ?st" unfolding nt(2) using div_mod_decomp [of "upage start" 1024] by simp
    have no: "\<not> mapped (pte s pd w)" if "upage start \<le> w" "w < upage ?st" for w
      using no_table [OF False la that(1)] that(2) unfolding nt(2) by blast
    show ?thesis
    proof (cases "?st < e")
      case True
      have lt': "upage ?st < upage e" using True aligned_less_iff [OF nt(1) al(2)] by simp
      have none: "copied_between s s pd pd2 (upage start) (upage ?st)" by (rule copied_none [OF ok(2) no])
      note rest = copied_between_rest [OF ok(1) ap none less_imp_le [OF up] less_imp_le [OF lt'] new room]
      have "\<exists>s'. copy_loop s pd2 pd ?st e = Some (Ok (Inr (), s')) \<and> copied_between s s' pd pd2 (upage ?st) (upage e)"
        by (rule less.hyps [OF diff_less_mono2 [OF up lt] ok ap un nt(1) al(2) True less.prems(8)])
          (fact rest(4,5))+
      then show ?thesis using copied_between_trans [OF ok(1) ap none] up lt' run True by auto
    next
      case False
      then have "upage e \<le> upage ?st" using aligned_less_iff [OF nt(1) al(2)] by simp
      then have "copied_between s s pd pd2 (upage start) (upage e)"
        by (intro copied_none [OF ok(2)] no) auto
      then show ?thesis using run False by simp
    qed
  qed
qed

section \<open>A small machine\<close>

text \<open>Frame 0 is the directory of an address space with one page table, in frame 3, which shows frame
  2 at the bottom of user memory; frame 1 is an empty directory; frames 4 to 6 are free.\<close>

definition demo_alloc2 :: pmm where
  "demo_alloc2 = (case default_alloc_pages demo_pmm 2 of Ok (_, s) \<Rightarrow> s | _ \<Rightarrow> demo_pmm)"

definition demo_mm :: mm_struct where
  "demo_mm = \<lparr>mmap_cache = None, pgdir = Some 0, map_count = 0, sm_priv = True, mm_count = 0, mm_sem = 1, locked_by = 0\<rparr>"

definition demo_mem :: "nat \<Rightarrow> nat \<Rightarrow> u32" where
  "demo_mem = (\<lambda>_ _. 0)(0 := (\<lambda>_. 0)(0 := 0x3007), 3 := (\<lambda>_. 0)(512 := 0x2007), 2 := (\<lambda>_. 0)(7 := 42))"

definition demo_vm0 :: vm where
  "demo_vm0 = \<lparr>phys = demo_alloc2, pmem = demo_mem, cr3_reg = 0, tlb = (\<lambda>_. None), swap_init_ok = False,
     max_swap_offset = 0x100000, swap_disk = (\<lambda>_ _. 0), ide_ok = (\<lambda>_. True),
     pra_list = \<lparr>prev = (\<lambda>x. x), nxt = (\<lambda>x. x)\<rparr>, check_mm_struct = None, mms = (\<lambda>_. demo_mm),
     vmas = (\<lambda>_. \<lparr>vm_mm = None, vm_start = 0, vm_end = 0, vm_flags = 0\<rparr>),
     mmap_links = \<lparr>prev = (\<lambda>x. x), nxt = (\<lambda>x. x)\<rparr>,
     wait_links = \<lparr>prev = (\<lambda>x. x), nxt = (\<lambda>x. x)\<rparr>, pgfault_num = 0\<rparr>"

definition demo_vm :: vm where
  "demo_vm = set_page_ref demo_vm0 2 1"

lemma demo_refs: "ref (pages demo_pmm p) = 0"
proof -
  have b: "ref (pages demo_boot q) = 0" for q by (simp add: demo_boot_def demo_raw_def default_init_def)
  have "\<exists>s1. init_memmap_loop 5 demo_boot 2 = Ok s1 \<and> (\<forall>q. ref (pages s1 q) = 0)"
    using demo_flags(1) b by (simp only: init_memmap_loop_eq) simp
  then obtain s1 where s1: "init_memmap_loop 5 demo_boot 2 = Ok s1" "\<forall>q. ref (pages s1 q) = 0" by blast
  show ?thesis using s1
    by (simp add: demo_pmm_def default_init_memmap_def Let_def upd_page_def SetPageProperty_def)
qed

lemma demo_vm_phys:
  "ff_inv (phys demo_vm)" "free demo_vm = {4, 5, 6}" "npage (phys demo_vm) = 8"
  "usable_pages (phys demo_vm) = {2..<7}" "refs demo_vm q = (if q = 2 then 1 else 0)"
proof -
  obtain s where s: "default_alloc_pages demo_pmm 2 = Ok (Some 2, s)" "ff_inv s" "npage s = npage demo_pmm"
    "free_blocks s = [(4, 3)]" "\<forall>p. ref (pages s p) = ref (pages demo_pmm p)"
    "\<forall>q. PageReserved (pages s q) = PageReserved (pages demo_pmm q)"
    using alloc_refines [OF demo_pmm_ok(1), of 2] by (auto simp: demo_pmm_ok)
  have d: "phys demo_vm0 = s" using s(1) by (simp add: demo_vm0_def demo_alloc2_def)
  have "ff_inv (phys demo_vm0)" using s(2) d by simp
  note u = upd_ref_ok [where g = "\<lambda>_. 1", OF this demo_vm_def [unfolded set_page_ref_def]]
  show "ff_inv (phys demo_vm)" by (rule u(3))
  show "npage (phys demo_vm) = 8" unfolding same_pages_fields(1) [OF u(1)] d s(3) by (rule demo_pmm_ok(3))
  have "usable_pages s = {2..<7}" by (auto simp: usable_pages_def s(3,6) demo_pmm_ok(3,4))
  then show "usable_pages (phys demo_vm) = {2..<7}" unfolding same_pages_fields(2) [OF u(1)] d .
  show "free demo_vm = {4, 5, 6}" unfolding u(4) d by (auto simp: free_pages_of_def s(4))
  show "refs demo_vm q = (if q = 2 then 1 else 0)" using u(5) d s(5) demo_refs by simp
qed

lemma demo_vm_mem [simp]: "pmem demo_vm = demo_mem" "cr3_reg demo_vm = 0" "tlb demo_vm = (\<lambda>_. None)" "swap_init_ok demo_vm = False"
  by (simp_all add: demo_vm_def set_page_ref_def upd_phys_def demo_vm0_def)

lemma demo_tables:
  "has_tab demo_vm 0 d \<longleftrightarrow> d = 0" "\<not> has_tab demo_vm 1 d" "tab demo_vm 0 0 = 3"
  "tables demo_vm 0 = {3}" "tables demo_vm 1 = {}"
proof -
  show h: "has_tab demo_vm 0 d \<longleftrightarrow> d = 0" for d by (simp add: has_tab_def demo_mem_def PTE_P_def)
  show h1: "\<not> has_tab demo_vm 1 d" for d by (simp add: has_tab_def demo_mem_def)
  have "pmem demo_vm 0 0 = 0x3007" by (simp add: demo_mem_def)
  then show t: "tab demo_vm 0 0 = 3" by (simp add: tab_def frame_def unat_PPN)
  have "{d. d < UDIR \<and> has_tab demo_vm 0 d} = {0}" unfolding h by (auto simp: UDIR_def)
  then show "tables demo_vm 0 = {3}" using t by (simp add: tables_def)
  show "tables demo_vm 1 = {}" using h1 by (simp add: tables_def)
qed

lemma demo_pte: "pte demo_vm 0 v = (if v = 512 then 0x2007 else 0)" "pte demo_vm 1 v = 0"
proof -
  show "pte demo_vm 0 v = (if v = 512 then 0x2007 else 0)"
  proof (cases "v div 1024 = 0")
    case True
    then have "v mod 1024 = v" by simp
    then show ?thesis using True demo_tables(1,3) by (simp add: pte_def demo_mem_def)
  next
    case False
    then show ?thesis using demo_tables(1) by (auto simp: pte_def)
  qed
  show "pte demo_vm 1 v = 0" using demo_tables(2) by (simp add: pte_def)
qed

lemma demo_entry: "mapped 0x2007" "frame 0x2007 = 2" "\<not> mapped 0"
  by (simp_all add: mapped_def PTE_P_def frame_def unat_PPN)

lemma demo_mappings: "mappings (pte demo_vm 0) q = (if q = 2 then {512} else {})" "mappings (pte demo_vm 1) q = {}"
  unfolding mappings_def demo_pte by (auto simp: demo_entry UPAGES_def UDIR_def)

lemma demo_held: "held demo_vm = {2, 3}"
  by (auto simp: held_def demo_vm_phys)

lemma demo_spaces: "space_ok demo_vm 0" "space_ok demo_vm 1" "apart demo_vm 0 1" "unref demo_vm" "tlb_ok demo_vm 0"
proof -
  have i: "{d. d < UDIR \<and> has_tab demo_vm 0 d} = {0}" "{d. d < UDIR \<and> has_tab demo_vm 1 d} = {}"
    unfolding demo_tables(1) using demo_tables(2) by (auto simp: UDIR_def)
  have "tables_ok demo_vm 0" "tables_ok demo_vm 1"
    unfolding tables_ok_def i demo_tables(4,5) demo_vm_phys demo_held using demo_vm_phys(1) by simp_all
  then show "space_ok demo_vm 0" "space_ok demo_vm 1"
    unfolding space_ok_def demo_tables(4,5) demo_held demo_mappings demo_vm_phys demo_pte by (simp_all add: demo_entry)
  show "apart demo_vm 0 1" unfolding apart_def demo_tables(4,5) demo_pte by (simp add: demo_entry)
  show "unref demo_vm" by (simp add: unref_def demo_vm_phys)
  show "tlb_ok demo_vm 0" by (simp add: tlb_ok_def)
qed

lemma demo_upage: "upage 0x200000 = 512" "upage 0x201000 = 513" "0x200000 < USERTOP" "0x201000 < USERTOP"
  "aligned 0x200000" "aligned 0x201000" "USER_ACCESS 0x200000 0x201000"
  by (simp_all add: unat_PPN USERTOP_def aligned_def PGSIZE_def USER_ACCESS_def USERBASE_def)

section \<open>Properties of address spaces\<close>



text \<open>C14: \<open>unmap_range\<close> on an aligned range of user memory returns. Afterwards no page of the range is
  mapped, every other entry is as before, each frame lost exactly one reference per mapping removed, the
  frames whose last reference went are free, and no other frame became free.\<close>

theorem unmap_range_unmaps:
  assumes "space_ok s pd" and "tlb_ok s pd" and "aligned start" and "aligned e" and "USER_ACCESS start e"
  shows "\<exists>s'. unmap_range s pd start e = Ok s' \<and> space_ok s' pd \<and> tlb_ok s' pd
    \<and> (\<forall>w < UPAGES. pte s' pd w = (if upage start \<le> w \<and> w < upage e \<and> mapped (pte s pd w) then 0 else pte s pd w))
    \<and> (\<forall>q. refs s' q = refs s q - int (hits (pte s pd) (upage start) (upage e) q))
    \<and> free s' = free s \<union> {q. 0 < hits (pte s pd) (upage start) (upage e) q
                             \<and> refs s q = int (hits (pte s pd) (upage start) (upage e) q)}"
proof -
  have "start < e" "e \<le> USERTOP" using assms(5) by (simp_all add: USER_ACCESS_def)
  then obtain s' where "unmap_loop s pd start e = Some (Ok s')" "unmapped_between s s' pd (upage start) (upage e)"
    using unmap_loop_ok [OF assms(1,3,4)] by blast
  then show ?thesis using assms(2-5) by (auto simp: unmap_range_def run_loop_def aligned_def unmapped_between_def)
qed

theorem unmap_range_unmaps_witness:
  "\<exists>s'. unmap_range demo_vm 0 0x200000 0x201000 = Ok s' \<and> pte s' 0 512 = 0 \<and> refs s' 2 = 0 \<and> 2 \<in> free s'"
proof -
  have "{w \<in> mappings (pte demo_vm 0) 2. 512 \<le> w \<and> w < 513} = {512}" unfolding demo_mappings by auto
  then have h: "hits (pte demo_vm 0) 512 513 2 = 1" by (simp add: hits_def)
  have u: "512 < UPAGES" by (simp add: UPAGES_def UDIR_def)
  obtain s' where s': "unmap_range demo_vm 0 0x200000 0x201000 = Ok s'"
    "\<forall>w < UPAGES. pte s' 0 w = (if 512 \<le> w \<and> w < 513 \<and> mapped (pte demo_vm 0 w) then 0 else pte demo_vm 0 w)"
    "\<forall>q. refs s' q = refs demo_vm q - int (hits (pte demo_vm 0) 512 513 q)"
    "free s' = free demo_vm \<union> {q. 0 < hits (pte demo_vm 0) 512 513 q \<and> refs demo_vm q = int (hits (pte demo_vm 0) 512 513 q)}"
    using unmap_range_unmaps [OF demo_spaces(1,5) demo_upage(5-7)] unfolding demo_upage by blast
  have "pte s' 0 512 = 0" using s'(2) u by (simp add: demo_pte demo_entry)
  moreover have "refs s' 2 = 0" using s'(3) h by (simp add: demo_vm_phys)
  moreover have "2 \<in> free s'" unfolding s'(4) using h by (simp add: demo_vm_phys)
  ultimately show ?thesis using s'(1) by blast
qed

text \<open>C15: \<open>copy_range\<close> into an address space where the range is unused, with two free frames per page and
  one more, returns success. Every mapped page of the range then has in the new space its own fresh frame
  with the same contents and user permissions; the rest of the new space, the whole old space and the contents
  of all frames in use are unchanged.\<close>

theorem copy_range_copies:
  assumes "space_ok s pd" and "space_ok s pd2" and "apart s pd pd2" and "unref s"
    and "aligned start" and "aligned e" and "USER_ACCESS start e"
    and "unused s pd2 (upage start) (upage e)" and "room_for s (user_pages s pd (upage start) (upage e))"
  shows "\<exists>s'. copy_range s pd2 pd start e = Ok (Inr (), s') \<and> space_ok s' pd2 \<and> space_ok s' pd
    \<and> (\<forall>w < UPAGES. pte s' pd w = pte s pd w)
    \<and> (\<forall>w < UPAGES. if upage start \<le> w \<and> w < upage e \<and> mapped (pte s pd w)
          then \<exists>n \<in> free s. pte s' pd2 w = page2pa n OR PTE_P OR (pte s pd w AND PTE_USER)
                \<and> n \<notin> free s' \<and> pmem s' n = pmem s (frame (pte s pd w)) \<and> refs s' n = 1
          else pte s' pd2 w = pte s pd2 w)
    \<and> (\<forall>f. f \<notin> free s \<union> tables s pd2 \<union> {pd2} \<longrightarrow> pmem s' f = pmem s f)"
proof -
  have "start < e" "e \<le> USERTOP" using assms(7) by (simp_all add: USER_ACCESS_def)
  then obtain s' where c: "copy_loop s pd2 pd start e = Some (Ok (Inr (), s'))"
    "copied_between s s' pd pd2 (upage start) (upage e)"
    using copy_loop_ok [OF assms(1-6) _ _ assms(8,9)] by blast
  have k: "keeps_others s s' pd2" using c(2) unfolding copied_between_def by blast
  note ks = keeps_others_space(1,2) [OF k assms(1,3)]
  have "copy_range s pd2 pd start e = Ok (Inr (), s')"
    using c(1) assms(5-7) by (simp add: copy_range_def run_loop_def aligned_def)
  moreover have "\<forall>f. f \<notin> free s \<union> tables s pd2 \<union> {pd2} \<longrightarrow> pmem s' f = pmem s f"
    using k unfolding keeps_others_def by blast
  ultimately show ?thesis using c(2) ks unfolding copied_between_def by blast
qed

theorem copy_range_copies_witness:
  "\<exists>s' n. copy_range demo_vm 1 0 0x200000 0x201000 = Ok (Inr (), s') \<and> pte s' 0 512 = 0x2007
     \<and> n \<in> {4, 5, 6} \<and> pte s' 1 512 = page2pa n OR PTE_P OR 7 \<and> pmem s' n 7 = 42"
proof -
  have u: "512 < UPAGES" by (simp add: UPAGES_def UDIR_def)
  have "unused demo_vm 1 512 513" unfolding unused_def demo_pte by (simp add: demo_entry)
  moreover have "user_pages demo_vm 0 512 513 = {512}" unfolding demo_pte using u by (auto simp: demo_entry)
  then have "room_for demo_vm (user_pages demo_vm 0 512 513)" by (simp only: room_for_def) (simp add: demo_vm_phys)
  ultimately obtain s' where s': "copy_range demo_vm 1 0 0x200000 0x201000 = Ok (Inr (), s')"
    "\<forall>w < UPAGES. pte s' 0 w = pte demo_vm 0 w"
    "\<forall>w < UPAGES. if 512 \<le> w \<and> w < 513 \<and> mapped (pte demo_vm 0 w)
          then \<exists>n \<in> free demo_vm. pte s' 1 w = page2pa n OR PTE_P OR (pte demo_vm 0 w AND PTE_USER)
                \<and> n \<notin> free s' \<and> pmem s' n = pmem demo_vm (frame (pte demo_vm 0 w)) \<and> refs s' n = 1
          else pte s' 1 w = pte demo_vm 1 w"
    using copy_range_copies [OF demo_spaces(1-4) demo_upage(5-7)] unfolding demo_upage by blast
  have "(0x2007 :: u32) AND PTE_USER = 7" by (simp add: PTE_USER_def PTE_P_def PTE_W_def PTE_U_def)
  then obtain n where n: "n \<in> free demo_vm" "pte s' 1 512 = page2pa n OR PTE_P OR 7" "pmem s' n = pmem demo_vm 2"
    using s'(3) [THEN spec, THEN mp, OF u] unfolding demo_pte by (auto simp: demo_entry)
  have "pmem s' n 7 = 42" by (simp add: n(3) demo_mem_def)
  moreover have "n \<in> {4, 5, 6}" using n(1) unfolding demo_vm_phys(2) .
  moreover have "pte s' 0 512 = 0x2007" using s'(2) u by (simp add: demo_pte)
  ultimately show ?thesis using s'(1) n(2) by blast
qed

end
