(* ===== verification/Swap.thy ===== *)
theory Swap
  imports Copy_Range
begin

text \<open>
  Page replacement: \<open>swap_out\<close> and \<open>swap_in\<close> of \<open>kern/mm/swap.c\<close> with the FIFO manager of
  \<open>kern/mm/swap_fifo.c\<close>, and the allocation of a page when none is free.
\<close>

section \<open>Swap entries\<close>

definition swap_entry :: "u32 \<Rightarrow> u32" where
  "swap_entry v = push_bit 8 (v div PGSIZE + 1)"

text \<open>The slot of a user address.\<close>

abbreviation slot :: "u32 \<Rightarrow> nat" where "slot v \<equiv> Suc (upage v)"

lemma unat_push_8: "unat (push_bit 8 (w :: u32)) = unat w * 256 mod 2 ^ 32"
  by (simp add: push_bit_eq_mult unat_word_ariths)

lemma swap_entry_offset:
  assumes "v < USERTOP"
  shows "unat (drop_bit 8 (swap_entry v)) = slot v" and "\<not> mapped (swap_entry v)"
proof -
  have v: "unat v < 0xB0000000" using assms by (simp add: USERTOP_def word_less_nat_alt)
  have d: "unat (v div PGSIZE) = upage v" by (simp add: unat_div PGSIZE_def unat_PPN)
  have "upage v < 0xB0000" using v by (simp add: unat_PPN less_mult_imp_div_less)
  moreover have "unat (v div PGSIZE + 1) = unat (v div PGSIZE) + unat (1 :: u32)"
    by (rule unat_add_u32) (use d calculation in simp)
  ultimately have w: "unat (v div PGSIZE + 1) = slot v" "slot v < 2 ^ 24" using d by simp_all
  have "unat (swap_entry v) = (slot v * 256) mod 2 ^ 32"
    unfolding swap_entry_def unat_push_8 w ..
  also have "\<dots> = slot v * 256" using w(2) by simp
  finally have e: "unat (swap_entry v) = slot v * 256" .
  show "unat (drop_bit 8 (swap_entry v)) = slot v" by (simp add: unat_drop_bit e)
  have "swap_entry v AND PTE_P = 0"
    by (rule bit_word_eqI) (auto simp: swap_entry_def PTE_P_def bit_simps)
  then show "\<not> mapped (swap_entry v)" by (simp add: mapped_def)
qed

lemma swap_offset_entry:
  assumes "v < USERTOP" and "slot v < unat (max_swap_offset s)"
  shows "swap_offset s (swap_entry v) = Ok (slot v)"
  using swap_entry_offset(1) [OF assms(1)] assms(2)
  by (simp add: swap_offset_def Let_def word_less_nat_alt)

section \<open>Fields that the page tables do not depend on\<close>

lemma swap_fields [simp]:
  "has_tab (s\<lparr>pra_list := l\<rparr>) = has_tab s" "has_tab (s\<lparr>swap_disk := k\<rparr>) = has_tab s"
  "tab (s\<lparr>pra_list := l\<rparr>) = tab s" "tab (s\<lparr>swap_disk := k\<rparr>) = tab s"
  "held (s\<lparr>pra_list := l\<rparr>) = held s" "held (s\<lparr>swap_disk := k\<rparr>) = held s"
  by (simp_all add: fun_eq_iff has_tab_def tab_def held_def)

lemma swap_fields_tables [simp]:
  "tables (s\<lparr>pra_list := l\<rparr>) = tables s" "tables (s\<lparr>swap_disk := k\<rparr>) = tables s"
  "pte (s\<lparr>pra_list := l\<rparr>) = pte s" "pte (s\<lparr>swap_disk := k\<rparr>) = pte s"
  by (simp_all add: fun_eq_iff tables_def pte_def)

lemma swap_fields_space [simp]:
  "space_ok (s\<lparr>pra_list := l\<rparr>) pd = space_ok s pd" "space_ok (s\<lparr>swap_disk := k\<rparr>) pd = space_ok s pd"
  by (simp_all add: space_ok_def tables_ok_def)

lemma tlb_invalidate_other [simp]:
  "cr3_reg (tlb_invalidate s pd la) = cr3_reg s" "pra_list (tlb_invalidate s pd la) = pra_list s"
  "swap_disk (tlb_invalidate s pd la) = swap_disk s" "max_swap_offset (tlb_invalidate s pd la) = max_swap_offset s"
  "ide_ok (tlb_invalidate s pd la) = ide_ok s" "mms (tlb_invalidate s pd la) = mms s"
  "swap_init_ok (tlb_invalidate s pd la) = swap_init_ok s"
  by (simp_all add: tlb_invalidate_def)

section \<open>Swapping a page out\<close>

text \<open>An entry that maps nothing replaces one that was the only mapping of page \<open>p\<close>, which is then free.\<close>

lemma evict_entry:
  assumes ok: "space_ok s pd" and la: "la < USERTOP" and tb: "has_tab s pd (unat (PDX la))"
    and mp: "mapped (pte s pd (upage la))" "frame (pte s pd (upage la)) = p" and one: "mappings (pte s pd) p = {upage la}"
    and e: "\<not> mapped e"
  defines "a \<equiv> (tab s pd (unat (PDX la)), unat (PTX la))"
  shows "\<exists>s1. free_pages (wr s a e) p 1 = Ok s1 \<and> space_ok s1 pd \<and> same_pages s s1
    \<and> free s1 = insert p (free s) \<and> (\<forall>q. refs s1 q = (if q = p then 0 else refs s q))
    \<and> (\<forall>w < UPAGES. pte s1 pd w = (if w = upage la then e else pte s pd w))
    \<and> (\<forall>f. f \<notin> tables s pd \<longrightarrow> pmem s1 f = pmem s f) \<and> (\<forall>d. has_tab s1 pd d = has_tab s pd d) \<and> tables s1 pd = tables s pd"
proof -
  note ua = user_address [OF la]
  have to: "tables_ok s pd" using ok by (simp add: space_ok_def)
  define t where "t = wr s (tab s pd (upage la div 1024), upage la mod 1024) e"
  have ta: "wr s a e = t" by (simp add: t_def a_def ua)
  have tb': "has_tab s pd (upage la div 1024)" using tb ua(3) by simp
  note se = set_entry [OF to ua(2) tb' t_def]
  have mq: "mappings (pte t pd) q = (if q = p then {} else mappings (pte s pd) q)" for q
  proof -
    have "mappings (pte t pd) q = mappings ((pte s pd)(upage la := e)) q" using se(1) by (intro mappings_cong) simp
    also have "\<dots> = mappings (pte s pd) q - {upage la}" using mappings_upd [OF ua(2)] e by simp
    also have "\<dots> = (if q = p then {} else mappings (pte s pd) q)" using one mp(2) by (auto simp: mappings_def)
    finally show ?thesis .
  qed
  have "frame (pte t pd w) \<in> held t - tables t pd - {pd}" if w: "w < UPAGES" "mapped (pte t pd w)" for w
    using ok w se(1) [OF w(1)] e se(2,5) by (auto simp: space_ok_def held_def split: if_splits)
  moreover have "int (card (mappings (pte t pd) q)) \<le> refs t q" for q
  proof -
    have "int (card (mappings (pte s pd) q)) \<le> refs s q" using ok unfolding space_ok_def by blast
    then show ?thesis using se(5) refs_nonneg [OF ok] by (simp add: mq)
  qed
  ultimately have okt: "space_ok t pd" using se(3) by (simp add: space_ok_def)
  have "p \<in> held t - tables t pd - {pd}" using ok mp ua(2) se(2,5) by (auto simp: space_ok_def held_def)
  then obtain s1 where f: "free_pages t p 1 = Ok s1" "same_pages t s1" "pmem s1 = pmem t" "space_ok s1 pd"
    "free s1 = insert p (free t)" "\<forall>q. refs s1 q = (if q = p then 0 else refs t q)" "pte s1 pd = pte t pd"
    "tables s1 pd = tables t pd"
    using space_ok_free_page [OF okt, of p] mq by auto
  have "same_pages s s1" using same_pages_trans [OF same_pages_pmem(2) f(2) [unfolded t_def]] .
  moreover have "has_tab s1 pd d = has_tab s pd d" for d using se(6) f(3) by (simp add: has_tab_def)
  ultimately show ?thesis using f se(1,2,4,5) by (intro exI [of _ s1]) (simp add: ta)
qed

text \<open>The state in which page \<open>p\<close> is the oldest page of the replacement list of \<open>m\<close>, mapped once, at the
  address that its descriptor records.\<close>

definition oldest :: "vm \<Rightarrow> nat \<Rightarrow> nat \<Rightarrow> nat list \<Rightarrow> nat \<Rightarrow> bool" where
  "oldest s m pd ps p \<longleftrightarrow> space_ok s pd \<and> pgdir (mms s m) = Some pd \<and> sm_priv (mms s m)
     \<and> dl_rep (pra_list s) PraHead (map PraLink (ps @ [p]))
     \<and> pra_vaddr (pages (phys s) p) < USERTOP
     \<and> mappings (pte s pd) p = {upage (pra_vaddr (pages (phys s) p))}"

lemma oldest_entry:
  assumes "oldest s m pd ps p"
  defines "v \<equiv> pra_vaddr (pages (phys s) p)"
  shows "space_ok s pd" and "v < USERTOP" and "mapped (pte s pd (upage v))" and "frame (pte s pd (upage v)) = p"
    and "has_tab s pd (unat (PDX v))" and "p \<in> held s" and "p \<notin> tables s pd"
proof -
  show ok: "space_ok s pd" and v: "v < USERTOP" using assms by (simp_all add: oldest_def)
  have "upage v \<in> mappings (pte s pd) p" using assms by (simp add: oldest_def)
  then show m: "mapped (pte s pd (upage v))" and f: "frame (pte s pd (upage v)) = p" by (simp_all add: mappings_def)
  show "has_tab s pd (unat (PDX v))" using m user_address(3) [OF v] by (auto simp: pte_def mapped_def split: if_splits)
  show "p \<in> held s" "p \<notin> tables s pd" using ok m f user_address(2) [OF v] by (auto simp: space_ok_def)
qed

lemma get_pte0_found:
  "tables_ok s pd \<Longrightarrow> la < USERTOP \<Longrightarrow> has_tab s pd (unat (PDX la)) \<Longrightarrow>
   get_pte0 s pd la = Ok (Some (tab s pd (unat (PDX la)), unat (PTX la)))"
  using tab_in [OF user_address(1), of la s pd] tables_okD(6) [of s pd]
    held_less [of "tab s pd (unat (PDX la))" s]
  by (auto simp: get_pte0_def rd_def has_tab_def Let_def PDE_ADDR_def tab_def pa2page_frame)

lemma swap_out_ok:
  assumes old: "oldest s m pd ps p"
  defines "v \<equiv> pra_vaddr (pages (phys s) p)"
  assumes off: "slot v < unat (max_swap_offset s)" and io: "ide_ok s (slot v)"
  shows "\<exists>s'. swap_out s m 1 False = Ok s' \<and> space_ok s' pd \<and> (tlb_ok s pd \<longrightarrow> tlb_ok s' pd)
    \<and> dl_rep (pra_list s') PraHead (map PraLink ps) \<and> free s' = insert p (free s)
    \<and> (\<forall>q. refs s' q = (if q = p then 0 else refs s q))
    \<and> (\<forall>w < UPAGES. pte s' pd w = (if w = upage v then swap_entry v else pte s pd w))
    \<and> swap_disk s' = (swap_disk s)(slot v := pmem s p) \<and> (\<forall>f. f \<notin> tables s pd \<longrightarrow> pmem s' f = pmem s f)
    \<and> (\<forall>d. has_tab s' pd d = has_tab s pd d) \<and> tables s' pd = tables s pd \<and> max_swap_offset s' = max_swap_offset s
    \<and> ide_ok s' = ide_ok s \<and> mms s' = mms s \<and> swap_init_ok s' = swap_init_ok s"
proof -
  note o = oldest_entry [OF old, folded v_def]
  have od: "pgdir (mms s m) = Some pd" "sm_priv (mms s m)" "dl_rep (pra_list s) PraHead (map PraLink (ps @ [p]))"
    "mappings (pte s pd) p = {upage v}" using old by (simp_all add: oldest_def v_def)
  define l where "l = list_del (pra_list s) (PraLink p)"
  define s1 where "s1 = s\<lparr>pra_list := l\<rparr>"
  define s2 where "s2 = s1\<lparr>swap_disk := (swap_disk s)(slot v := pmem s p)\<rparr>"
  let ?a = "(tab s pd (unat (PDX v)), unat (PTX v))"
  have "prev (pra_list s) PraHead = PraLink p" using dl_rep_prev_head [OF od(3)] by (simp add: list_prev_def)
  then have vic: "fifo_swap_out_victim s m False = Ok (p, s1)"
    using od(2) by (simp add: fifo_swap_out_victim_def s1_def l_def)
  have lr: "dl_rep l PraHead (map PraLink ps)" using dl_rep_del [of _ _ "map PraLink ps" _ "[]"] od(3) by (simp add: l_def)
  have to: "tables_ok s1 pd" using o(1) by (simp add: s1_def space_ok_def tables_ok_def)
  have g: "get_pte0 s1 pd v = Ok (Some ?a)"
    using get_pte0_found [OF to o(2)] o(5) by (simp add: s1_def)
  have ra: "rd s1 ?a = pte s pd (upage v)" using o(5) user_address [OF o(2)] by (simp add: s1_def rd_def pte_def)
  have p20: "p < unat (npage (phys s))" "p < 2 ^ 20"
    using held_less [OF o(6)] o(1) by (simp_all add: space_ok_def tables_ok_def)
  have sw: "swapfs_write s1 (swap_entry v) p = Ok (True, s2)"
    using swap_offset_entry [OF o(2), of s1] off io page2kva_ok [OF p20]
    by (auto simp: swapfs_write_def s1_def s2_def)
  have h2: "has_tab s2 pd = has_tab s pd" "tab s2 pd = tab s pd" "pte s2 pd = pte s pd" "tables s2 pd = tables s pd" "free s2 = free s"
    "phys s2 = phys s" "pmem s2 = pmem s" by (simp_all add: s2_def s1_def)
  have ok2: "space_ok s2 pd" using o(1) by (simp add: s2_def s1_def)
  obtain s3 where e: "free_pages (wr s2 ?a (swap_entry v)) p 1 = Ok s3" "space_ok s3 pd" "same_pages s2 s3"
    "free s3 = insert p (free s)" "\<forall>q. refs s3 q = (if q = p then 0 else refs s q)"
    "\<forall>w < UPAGES. pte s3 pd w = (if w = upage v then swap_entry v else pte s pd w)"
    "\<forall>f. f \<notin> tables s pd \<longrightarrow> pmem s3 f = pmem s f" "\<forall>d. has_tab s3 pd d = has_tab s pd d" "tables s3 pd = tables s pd"
    using evict_entry [OF ok2 o(2), of p "swap_entry v"] o(3-5) od(4) swap_entry_offset(2) [OF o(2)]
    unfolding h2 by blast
  define s' where "s' = tlb_invalidate s3 pd v"
  have s3: "s3 = s2\<lparr>phys := phys s3, pmem := pmem s3\<rparr>" using e(3) by (simp add: same_pages_def)
  have k: "tlb s3 = tlb s" "cr3_reg s3 = cr3_reg s" "pra_list s3 = l" "swap_disk s3 = (swap_disk s)(slot v := pmem s p)"
    "max_swap_offset s3 = max_swap_offset s" "ide_ok s3 = ide_ok s" "mms s3 = mms s" "swap_init_ok s3 = swap_init_ok s"
    by (subst s3, simp add: s2_def s1_def)+
  have "tlb_ok s' pd" if "tlb_ok s pd"
    by (rule tlb_ok_update [OF that, of s' v]) (use k e(6) in \<open>simp_all add: s'_def\<close>)
  moreover have "swap_out_round s m False = Ok s'"
    using vic od(1) g ra o(3) sw e(1)
    by (simp add: swap_out_round_def s'_def Let_def swap_entry_def v_def [symmetric] mapped_def) (simp add: s1_def v_def)
  ultimately show ?thesis
    using e(2,4-9) lr k by (intro exI [of _ s']) (simp add: s'_def)
qed

section \<open>Swapping a page in\<close>

lemma swap_in_ok:
  assumes ok: "space_ok s pd" and m: "pgdir (mms s m) = Some pd" and la: "la < USERTOP"
    and e: "pte s pd (upage la) = swap_entry la" and off: "slot la < unat (max_swap_offset s)" and io: "ide_ok s (slot la)"
    and fr: "free s \<noteq> {}"
  shows "\<exists>p s'. swap_in s m la = Ok (p, s') \<and> p \<in> free s \<and> free s' = free s - {p} \<and> space_ok s' pd
    \<and> pmem s' p = swap_disk s (slot la) \<and> (\<forall>w < UPAGES. pte s' pd w = pte s pd w) \<and> (\<forall>q. refs s' q = refs s q)
    \<and> (\<forall>f. f \<noteq> p \<longrightarrow> pmem s' f = pmem s f) \<and> same_pages s s' \<and> p \<in> held s' - tables s' pd - {pd}"
proof -
  have inv: "ff_inv (phys s)" using ok by (rule space_inv)
  obtain r s1 where a: "alloc_pages s 1 = Ok (r, s1)" "same_pages s s1" "pmem s1 = pmem s" "ff_inv (phys s1)"
    "\<forall>p. refs s1 p = refs s p"
    "case r of None \<Rightarrow> free s = {} \<and> free s1 = {} | Some p \<Rightarrow> p \<in> free s \<and> free s1 = free s - {p}"
    using alloc_page_ok [OF inv] fr by blast
  then obtain p where p: "r = Some p" "p \<in> free s" "free s1 = free s - {p}" using fr by (cases r) auto
  note al = space_ok_alloc [OF ok a(2-4) a(5) [rule_format] p(3)]
  have s1: "s1 = s\<lparr>phys := phys s1, pmem := pmem s1\<rparr>" using a(2) by (simp add: same_pages_def)
  have k: "mms s1 = mms s" "max_swap_offset s1 = max_swap_offset s" "ide_ok s1 = ide_ok s" "swap_disk s1 = swap_disk s"
    by (subst s1, simp)+
  note ua = user_address [OF la]
  have "slot la > 0" by simp
  have "swap_entry la \<noteq> 0" using swap_entry_offset(1) [OF la] by auto
  then have tb: "has_tab s1 pd (unat (PDX la))"
    using e al(2) [OF ua(2)] ua(3) by (auto simp: pte_def split: if_splits)
  have to: "tables_ok s1 pd" using al(1) by (simp add: space_ok_def)
  let ?a = "(tab s1 pd (unat (PDX la)), unat (PTX la))"
  have ra: "rd s1 ?a = swap_entry la" using tb ua e al(2) [OF ua(2)] by (simp add: rd_def pte_def)
  have "p \<in> usable_pages (phys s1)" using p(2) free_pages_usable [OF inv] same_pages_fields(2) [OF a(2)] by auto
  then have pn: "p < unat (npage (phys s1))" by (simp add: usable_pages_def)
  then have p20: "p < 2 ^ 20" using to by (simp add: tables_ok_def)
  define s' where "s' = s1\<lparr>pmem := (pmem s1)(p := swap_disk s1 (slot la))\<rparr>"
  have rd: "swapfs_read s1 (swap_entry la) p = Ok (True, s')"
    using swap_offset_entry [OF la, of s1] off io k page2kva_ok [OF pn p20] by (auto simp: swapfs_read_def s'_def)
  have run: "swap_in s m la = Ok (p, s')"
    using a(1) p(1) m k(1) get_pte0_found [OF to la tb] ra rd by (simp add: swap_in_def)
  have nt: "p \<notin> insert pd (tables s pd)" using p(2) ok by (auto simp: space_ok_def tables_ok_def held_def)
  have fr': "free s' \<subseteq> free s1" "ff_inv (phys s')" using a(4) by (simp_all add: s'_def)
  have nn: "0 \<le> refs s' q" "refs s1 q \<le> refs s' q" for q using refs_nonneg [OF al(1)] by (simp_all add: s'_def)
  have pm: "pmem s' f = pmem s1 f" if "f \<in> insert pd (tables s1 pd)" for f
    using nt that al(3) by (auto simp: s'_def)
  have sv: "same_vm s1 s'" unfolding s'_def by (rule same_pages_vm [OF same_pages_pmem(1)])
  have "space_ok s' pd" by (rule space_ok_frame(1) [OF al(1) sv fr'(2,1) nn(2,1) pm])
  moreover have "pte s' pd w = pte s pd w" if "w < UPAGES" for w
    using space_ok_frame(2) [OF al(1) sv fr'(2,1) nn(2,1) pm that] al(2) [OF that] by simp
  moreover have sps: "same_pages s s'" unfolding s'_def by (rule same_pages_trans [OF a(2) same_pages_pmem(1)])
  moreover have "tables s' pd = tables s pd"
    using space_ok_frame(3) [OF al(1) sv fr'(2,1) nn(2,1) pm] al(3) by simp
  then have "p \<in> held s' - tables s' pd - {pd}"
    using nt p(2,3) free_pages_usable [OF inv] same_pages_fields(2) [OF sps] by (auto simp: held_def s'_def)
  ultimately show ?thesis using run p(2,3) a(3,5) k(4)
    by - (rule exI [of _ p], rule exI [of _ s'], simp add: s'_def)
qed

section \<open>Allocation under pressure\<close>



section \<open>Properties of page replacement\<close>

text \<open>The machine of \<open>demo_vm\<close> with every frame taken and page 2 in the replacement list.\<close>

definition demo_alloc5 :: pmm where
  "demo_alloc5 = (case default_alloc_pages demo_pmm 5 of Ok (_, s) \<Rightarrow> s | _ \<Rightarrow> demo_pmm)"

definition demo_full0 :: vm where
  "demo_full0 = demo_vm0\<lparr>phys := demo_alloc5, swap_init_ok := True, check_mm_struct := Some 0,
     pra_list := list_add (list_init (pra_list demo_vm0) PraHead) PraHead (PraLink 2)\<rparr>"

definition demo_full :: vm where
  "demo_full = upd_phys demo_full0 2 (\<lambda>pg. pg\<lparr>ref := 1, pra_vaddr := 0x200000\<rparr>)"

lemma demo_full_phys:
  "ff_inv (phys demo_full)" "free demo_full = {}" "npage (phys demo_full) = 8"
  "usable_pages (phys demo_full) = {2..<7}" "refs demo_full q = (if q = 2 then 1 else 0)"
  "pra_vaddr (pages (phys demo_full) 2) = 0x200000"
proof -
  obtain s where s: "default_alloc_pages demo_pmm 5 = Ok (Some 2, s)" "ff_inv s" "npage s = npage demo_pmm"
    "free_blocks s = []" "\<forall>p. ref (pages s p) = ref (pages demo_pmm p)"
    "\<forall>q. PageReserved (pages s q) = PageReserved (pages demo_pmm q)"
    using alloc_refines [OF demo_pmm_ok(1), of 5] by (auto simp: demo_pmm_ok)
  have d: "phys demo_full0 = s" using s(1) by (simp add: demo_full0_def demo_alloc5_def)
  have "ff_inv (phys demo_full0)" using s(2) d by simp
  note u = upd_desc_ok [OF this demo_full_def, simplified]
  show "ff_inv (phys demo_full)" by (rule u(3))
  show "npage (phys demo_full) = 8" unfolding same_pages_fields(1) [OF u(1)] d s(3) by (rule demo_pmm_ok(3))
  have "usable_pages s = {2..<7}" by (auto simp: usable_pages_def s(3,6) demo_pmm_ok(3,4))
  then show "usable_pages (phys demo_full) = {2..<7}" unfolding same_pages_fields(2) [OF u(1)] d .
  show "free demo_full = {}" unfolding u(4) d by (auto simp: free_pages_of_def s(4))
  show "refs demo_full q = (if q = 2 then 1 else 0)" using u(5) d s(5) demo_refs by simp
  show "pra_vaddr (pages (phys demo_full) 2) = 0x200000" by (simp add: demo_full_def upd_phys_def upd_page_def)
qed

lemma demo_full_mem: "pmem demo_full = pmem demo_vm"
  by (simp add: demo_full_def demo_full0_def upd_phys_def demo_vm0_def)

lemma demo_full_tables:
  "has_tab demo_full = has_tab demo_vm" "tab demo_full = tab demo_vm" "tables demo_full = tables demo_vm" "pte demo_full = pte demo_vm"
  by (simp_all add: fun_eq_iff has_tab_def tab_def tables_def pte_def demo_full_mem)

lemma demo_oldest: "oldest demo_full 0 0 [] 2"
proof -
  have i: "{d. d < UDIR \<and> has_tab demo_vm 0 d} = {0}" unfolding demo_tables(1) by (auto simp: UDIR_def)
  have h: "held demo_full = {2..<7}" by (simp add: held_def demo_full_phys)
  have "tables_ok demo_full 0"
    unfolding tables_ok_def demo_full_tables i demo_tables(4) demo_full_phys h using demo_full_phys(1) by simp
  then have "space_ok demo_full 0"
    unfolding space_ok_def demo_full_tables demo_tables(4) h demo_mappings demo_full_phys demo_pte by (simp add: demo_entry)
  moreover have "dl_rep (pra_list demo_full) PraHead [PraLink 2]"
    using dl_rep_add_after_head [OF dl_rep_init, of "PraLink 2" PraHead "pra_list demo_vm0"]
    by (simp add: demo_full_def demo_full0_def upd_phys_def list_add_def)
  moreover have "mms demo_full = (\<lambda>_. demo_mm)" by (simp add: demo_full_def demo_full0_def upd_phys_def demo_vm0_def)
  ultimately show ?thesis
    unfolding oldest_def demo_full_tables demo_full_phys demo_mappings demo_upage by (simp add: demo_mm_def demo_upage)
qed

lemma demo_full_swap: "swap_init_ok demo_full" "check_mm_struct demo_full = Some 0" "ide_ok demo_full k"
  "unat (max_swap_offset demo_full) = 0x100000"
  by (simp_all add: demo_full_def demo_full0_def upd_phys_def demo_vm0_def)



text \<open>C17: a page that \<open>swap_out\<close> wrote to disk and \<open>swap_in\<close> reads back for the same address has the contents
  that it had.\<close>

theorem swap_out_in:
  assumes "oldest s m pd ps p" and "v = pra_vaddr (pages (phys s) p)" and "slot v < unat (max_swap_offset s)"
    and "ide_ok s (slot v)"
  shows "\<exists>s1 q s2. swap_out s m 1 False = Ok s1 \<and> swap_in s1 m v = Ok (q, s2) \<and> pmem s2 q = pmem s p
    \<and> space_ok s2 pd \<and> q \<notin> free s2 \<and> free s2 = insert p (free s) - {q}"
proof -
  have m: "pgdir (mms s m) = Some pd" using assms(1) by (simp add: oldest_def)
  have v: "v < USERTOP" using oldest_entry(2) [OF assms(1)] assms(2) by simp
  obtain s1 where o: "swap_out s m 1 False = Ok s1" "space_ok s1 pd" "free s1 = insert p (free s)"
    "\<forall>w < UPAGES. pte s1 pd w = (if w = upage v then swap_entry v else pte s pd w)"
    "swap_disk s1 = (swap_disk s)(slot v := pmem s p)" "max_swap_offset s1 = max_swap_offset s"
    "ide_ok s1 = ide_ok s" "mms s1 = mms s"
    using swap_out_ok [OF assms(1)] assms(2-4) by blast
  have "pgdir (mms s1 m) = Some pd" "slot v < unat (max_swap_offset s1)" "ide_ok s1 (slot v)" "free s1 \<noteq> {}"
    using m o(3,6,7,8) assms(3,4) by simp_all
  note pre = this
  have e: "pte s1 pd (upage v) = swap_entry v" using o(4) user_address(2) [OF v] by simp
  obtain q s2 where i: "swap_in s1 m v = Ok (q, s2)" "free s2 = free s1 - {q}" "space_ok s2 pd"
    "pmem s2 q = swap_disk s1 (slot v)"
    using swap_in_ok [OF o(2) pre(1) v e pre(2-4)] by blast
  show ?thesis
    by (rule exI [of _ s1], rule exI [of _ q], rule exI [of _ s2]) (use o(1,3,5) i in simp)
qed

theorem swap_out_in_witness:
  "\<exists>s1 q s2. swap_out demo_full 0 1 False = Ok s1 \<and> swap_in s1 0 0x200000 = Ok (q, s2) \<and> pmem s2 q 7 = 42"
proof -
  have "slot 0x200000 < unat (max_swap_offset demo_full)" by (simp add: demo_upage demo_full_swap)
  then obtain s1 q s2 where "swap_out demo_full 0 1 False = Ok s1" "swap_in s1 0 0x200000 = Ok (q, s2)"
    "pmem s2 q = pmem demo_full 2"
    using swap_out_in [OF demo_oldest demo_full_phys(6) [symmetric]] demo_full_swap(3) by blast
  moreover have "pmem demo_full 2 7 = 42" by (simp add: demo_full_mem demo_mem_def)
  ultimately show ?thesis by auto
qed

end
