(* ===== verification/Vmm.thy ===== *)
theory Vmm
  imports Swap Cstring
begin

text \<open>
  The virtual memory areas of \<open>kern/mm/vmm.c\<close>: memory descriptors, their sorted lists of areas,
  duplication and release of an address space, the page fault handler and the checks of user
  memory. \<open>kmalloc\<close> answers are arguments (\<open>None\<close> is NULL), and what is given to \<open>kfree\<close> is
  returned. A NULL page directory is a fault.
\<close>

section \<open>Memory descriptors and areas\<close>

definition VM_READ :: u32 where "VM_READ = 1"
definition VM_WRITE :: u32 where "VM_WRITE = 2"
definition VM_EXEC :: u32 where "VM_EXEC = 4"
definition VM_STACK :: u32 where "VM_STACK = 8"

fun le2vma :: "vnode \<Rightarrow> nat" where
  "le2vma (VmaLink v) = v"

definition upd_mm :: "vm \<Rightarrow> nat \<Rightarrow> (mm_struct \<Rightarrow> mm_struct) \<Rightarrow> vm" where
  "upd_mm s m f = s\<lparr>mms := (mms s)(m := f (mms s m))\<rparr>"

definition set_mm_count :: "vm \<Rightarrow> nat \<Rightarrow> int \<Rightarrow> vm" where
  "set_mm_count s m v = upd_mm s m (\<lambda>x. x\<lparr>mm_count := v\<rparr>)"

definition mm_count_inc :: "vm \<Rightarrow> nat \<Rightarrow> int \<times> vm" where
  "mm_count_inc s m = (let s1 = upd_mm s m (\<lambda>x. x\<lparr>mm_count := mm_count x + 1\<rparr>) in (mm_count (mms s1 m), s1))"

definition mm_count_dec :: "vm \<Rightarrow> nat \<Rightarrow> int \<times> vm" where
  "mm_count_dec s m = (let s1 = upd_mm s m (\<lambda>x. x\<lparr>mm_count := mm_count x - 1\<rparr>) in (mm_count (mms s1 m), s1))"

definition mm_create :: "vm \<Rightarrow> nat option \<Rightarrow> nat option \<times> vm" where
  "mm_create s mm =
     (case mm of None \<Rightarrow> (None, s) | Some m \<Rightarrow>
      let s1 = s\<lparr>mmap_links := list_init (mmap_links s) (MmapList m)\<rparr>;
          s2 = upd_mm s1 m (\<lambda>x. x\<lparr>mmap_cache := None, pgdir := None, map_count := 0\<rparr>);
          s3 = (if swap_init_ok s2 then fifo_init_mm s2 m else upd_mm s2 m (\<lambda>x. x\<lparr>sm_priv := False\<rparr>));
          s4 = set_mm_count s3 m 0;
          s5 = upd_mm s4 m (\<lambda>x. x\<lparr>mm_sem := 1\<rparr>)
      in (mm, s5\<lparr>wait_links := list_init (wait_links s5) (SemQueue m)\<rparr>))"

definition vma_create :: "vm \<Rightarrow> nat option \<Rightarrow> u32 \<Rightarrow> u32 \<Rightarrow> u32 \<Rightarrow> nat option \<times> vm" where
  "vma_create s vma start e fl =
     (case vma of None \<Rightarrow> (None, s) | Some v \<Rightarrow>
      (vma, s\<lparr>vmas := (vmas s)(v := (vmas s v)\<lparr>vm_start := start, vm_end := e, vm_flags := fl\<rparr>)\<rparr>))"

definition in_vma :: "vm \<Rightarrow> nat \<Rightarrow> u32 \<Rightarrow> bool" where
  "in_vma s v addr \<longleftrightarrow> vm_start (vmas s v) \<le> addr \<and> addr < vm_end (vmas s v)"

definition find_vma :: "vm \<Rightarrow> nat option \<Rightarrow> u32 \<Rightarrow> (nat option \<times> vm) res" where
  "find_vma s mm addr =
     (case mm of None \<Rightarrow> Ok (None, s) | Some m \<Rightarrow>
      res_bind
        (if (case mmap_cache (mms s m) of None \<Rightarrow> False | Some v \<Rightarrow> in_vma s v addr) then Ok (mmap_cache (mms s m))
         else (case list_walk (mmap_links s) (MmapList m) (\<lambda>le. in_vma s (le2vma le) addr) (MmapList m) of
             None \<Rightarrow> Diverge
           | Some r \<Rightarrow> Ok (map_option le2vma r)))
        (\<lambda>vma. Ok (vma, case vma of None \<Rightarrow> s | Some v \<Rightarrow> upd_mm s m (\<lambda>x. x\<lparr>mmap_cache := Some v\<rparr>))))"

definition check_vma_overlap :: "vm \<Rightarrow> nat \<Rightarrow> nat \<Rightarrow> unit res" where
  "check_vma_overlap s p n =
     assert_c (vm_start (vmas s p) < vm_end (vmas s p))
       (assert_c (vm_end (vmas s p) \<le> vm_start (vmas s n))
         (assert_c (vm_start (vmas s n) < vm_end (vmas s n)) (Ok ())))"

partial_function (option) insert_pos :: "vm \<Rightarrow> vnode \<Rightarrow> u32 \<Rightarrow> vnode \<Rightarrow> vnode \<Rightarrow> vnode option" where
  "insert_pos s lst start le le_prev =
     (let le' = list_next (mmap_links s) le
      in if le' = lst then Some le_prev
         else if start < vm_start (vmas s (le2vma le')) then Some le_prev
         else insert_pos s lst start le' le')"

definition insert_vma_struct :: "vm \<Rightarrow> nat \<Rightarrow> nat \<Rightarrow> vm res" where
  "insert_vma_struct s m v =
     assert_c (vm_start (vmas s v) < vm_end (vmas s v))
       (case insert_pos s (MmapList m) (vm_start (vmas s v)) (MmapList m) (MmapList m) of None \<Rightarrow> Diverge
        | Some le_prev \<Rightarrow>
        let le_next = list_next (mmap_links s) le_prev in
        res_bind (if le_prev \<noteq> MmapList m then check_vma_overlap s (le2vma le_prev) v else Ok ()) (\<lambda>_.
        res_bind (if le_next \<noteq> MmapList m then check_vma_overlap s v (le2vma le_next) else Ok ()) (\<lambda>_.
        let s1 = s\<lparr>vmas := (vmas s)(v := (vmas s v)\<lparr>vm_mm := Some m\<rparr>)\<rparr>;
            s2 = s1\<lparr>mmap_links := list_add_after (mmap_links s1) le_prev (VmaLink v)\<rparr>
        in Ok (upd_mm s2 m (\<lambda>x. x\<lparr>map_count := map_count x + 1\<rparr>)))))"

partial_function (option) destroy_loop :: "vm \<Rightarrow> nat \<Rightarrow> nat list \<Rightarrow> (nat list \<times> vm) option" where
  "destroy_loop s m freed =
     (let le = list_next (mmap_links s) (MmapList m)
      in if le = MmapList m then Some (freed, s)
         else destroy_loop (s\<lparr>mmap_links := list_del (mmap_links s) le\<rparr>) m (freed @ [le2vma le]))"

text \<open>The areas and then the descriptor go to \<open>kfree\<close>.\<close>

definition mm_destroy :: "vm \<Rightarrow> nat \<Rightarrow> (nat list \<times> vm) res" where
  "mm_destroy s m =
     assert_c (mm_count (mms s m) = 0)
       (case destroy_loop s m [] of None \<Rightarrow> Diverge | Some r \<Rightarrow> Ok r)"

definition mm_map :: "vm \<Rightarrow> nat option \<Rightarrow> u32 \<Rightarrow> u32 \<Rightarrow> u32 \<Rightarrow> nat option \<Rightarrow> ((errno + nat) \<times> vm) res" where
  "mm_map s mm addr len fl k =
     (let start = ROUNDDOWN addr PGSIZE; e = ROUNDUP (addr + len) PGSIZE in
      if \<not> USER_ACCESS start e then Ok (Inl E_INVAL, s)
      else case mm of None \<Rightarrow> Panic | Some m \<Rightarrow>
        res_bind (find_vma s mm start) (\<lambda>(vma, s1).
        if (case vma of None \<Rightarrow> False | Some v \<Rightarrow> vm_start (vmas s1 v) < e) then Ok (Inl E_INVAL, s1)
        else (case vma_create s1 k start e fl of
            (None, s2) \<Rightarrow> Ok (Inl E_NO_MEM, s2)
          | (Some v, s2) \<Rightarrow> res_bind (insert_vma_struct s2 m v) (\<lambda>s3. Ok (Inr v, s3)))))"

section \<open>Whole address spaces\<close>

text \<open>\<open>dup_mmap\<close> walks the areas of \<open>from\<close> backwards; \<open>k v\<close> is what \<open>kmalloc\<close> answers for the copy of
  area \<open>v\<close>.\<close>

partial_function (option) dup_loop ::
  "vm \<Rightarrow> nat \<Rightarrow> nat \<Rightarrow> (nat \<Rightarrow> nat option) \<Rightarrow> vnode \<Rightarrow> ((errno + unit) \<times> vm) res option" where
  "dup_loop s to from k le =
     (let le' = list_prev (mmap_links s) le in
      if le' = MmapList from then Some (Ok (Inr (), s))
      else let v = le2vma le'; a = vmas s v in
        (case vma_create s (k v) (vm_start a) (vm_end a) (vm_flags a) of
           (None, s1) \<Rightarrow> Some (Ok (Inl E_NO_MEM, s1))
         | (Some n, s1) \<Rightarrow>
             step_res (insert_vma_struct s1 to n) (\<lambda>s2.
             step_res
               (case (pgdir (mms s2 to), pgdir (mms s2 from)) of
                  (Some d, Some f) \<Rightarrow> copy_range s2 d f (vm_start (vmas s2 v)) (vm_end (vmas s2 v))
                | _ \<Rightarrow> Panic)
               (\<lambda>(r, s3). case r of Inl _ \<Rightarrow> Some (Ok (Inl E_NO_MEM, s3)) | Inr _ \<Rightarrow> dup_loop s3 to from k le'))))"

definition dup_mmap :: "vm \<Rightarrow> nat \<Rightarrow> nat \<Rightarrow> (nat \<Rightarrow> nat option) \<Rightarrow> ((errno + unit) \<times> vm) res" where
  "dup_mmap s to from k = run_loop (dup_loop s to from k (MmapList from))"

partial_function (option) areas_loop :: "(vm \<Rightarrow> u32 \<Rightarrow> u32 \<Rightarrow> vm res) \<Rightarrow> vm \<Rightarrow> nat \<Rightarrow> vnode \<Rightarrow> vm res option" where
  "areas_loop f s m le =
     (let le' = list_next (mmap_links s) le in
      if le' = MmapList m then Some (Ok s)
      else step_res (f s (vm_start (vmas s (le2vma le'))) (vm_end (vmas s (le2vma le')))) (\<lambda>s1. areas_loop f s1 m le'))"

text \<open>Two passes over the areas: first their pages, then their page tables.\<close>

definition exit_mmap :: "vm \<Rightarrow> nat \<Rightarrow> vm res" where
  "exit_mmap s m =
     assert_c (mm_count (mms s m) = 0)
       (let with_dir = (\<lambda>f s a b. case pgdir (mms s m) of None \<Rightarrow> Panic | Some pd \<Rightarrow> f s pd a b) in
        res_bind (run_loop (areas_loop (with_dir unmap_range) s m (MmapList m))) (\<lambda>s1.
        run_loop (areas_loop (with_dir exit_range) s1 m (MmapList m))))"

section \<open>Page faults\<close>

definition do_pgfault :: "vm \<Rightarrow> nat option \<Rightarrow> u32 \<Rightarrow> u32 \<Rightarrow> ((errno + unit) \<times> vm) res" where
  "do_pgfault s mm error_code addr =
     res_bind (find_vma s mm addr) (\<lambda>(vma, s0).
     let s1 = s0\<lparr>pgfault_num := pgfault_num s0 + 1\<rparr> in
     case (mm, vma) of
       (Some m, Some v) \<Rightarrow>
         let fl = vm_flags (vmas s1 v); code = error_code AND 3 in
         if addr < vm_start (vmas s1 v) then Ok (Inl E_INVAL, s1)
         else if code = 1 then Ok (Inl E_INVAL, s1)
         else if code = 0 \<and> fl AND (VM_READ OR VM_EXEC) = 0 then Ok (Inl E_INVAL, s1)
         else if code \<noteq> 0 \<and> fl AND VM_WRITE = 0 then Ok (Inl E_INVAL, s1)
         else
           let perm = (if fl AND VM_WRITE \<noteq> 0 then PTE_U OR PTE_W else PTE_U); la = ROUNDDOWN addr PGSIZE in
           (case pgdir (mms s1 m) of None \<Rightarrow> Panic | Some pd \<Rightarrow>
            res_bind (get_pte s1 pd la True) (\<lambda>(ptep, s2).
            case ptep of None \<Rightarrow> Ok (Inl E_NO_MEM, s2) | Some a \<Rightarrow>
            if rd s2 a = 0 then
              res_bind (pgdir_alloc_page s2 pd la perm) (\<lambda>(p, s3).
              Ok (case p of None \<Rightarrow> Inl E_NO_MEM | Some _ \<Rightarrow> Inr (), s3))
            else if rd s2 a AND PTE_P \<noteq> 0 then Panic
            else if \<not> swap_init_ok s2 then Ok (Inl E_NO_MEM, s2)
            else
              res_bind (swap_in s2 m la) (\<lambda>(page, s3).
              res_bind (page_insert s3 pd page la perm) (\<lambda>(_, s4).
              res_bind (fifo_map_swappable s4 m page) (\<lambda>s5.
              Ok (Inr (), upd_phys s5 page (\<lambda>pg. pg\<lparr>pra_vaddr := la\<rparr>)))))))
     | _ \<Rightarrow> Ok (Inl E_INVAL, s1))"

section \<open>Access to user memory\<close>

partial_function (option) check_loop :: "vm \<Rightarrow> nat \<Rightarrow> u32 \<Rightarrow> u32 \<Rightarrow> bool \<Rightarrow> (bool \<times> vm) res option" where
  "check_loop s m start e write =
     (if \<not> start < e then Some (Ok (True, s))
      else step_res (find_vma s (Some m) start) (\<lambda>(vma, s1).
        case vma of None \<Rightarrow> Some (Ok (False, s1)) | Some v \<Rightarrow>
        let a = vmas s1 v in
        if start < vm_start a then Some (Ok (False, s1))
        else if vm_flags a AND (if write then VM_WRITE else VM_READ) = 0 then Some (Ok (False, s1))
        else if write \<and> vm_flags a AND VM_STACK \<noteq> 0 \<and> start < vm_start a + PGSIZE then Some (Ok (False, s1))
        else check_loop s1 m (vm_end a) e write))"

definition user_mem_check :: "vm \<Rightarrow> nat option \<Rightarrow> u32 \<Rightarrow> u32 \<Rightarrow> bool \<Rightarrow> (bool \<times> vm) res" where
  "user_mem_check s mm addr len write =
     (case mm of
        Some m \<Rightarrow> if \<not> USER_ACCESS addr (addr + len) then Ok (False, s)
                  else run_loop (check_loop s m addr (addr + len) write)
      | None \<Rightarrow> Ok (KERN_ACCESS addr (addr + len), s))"

text \<open>The bytes are those of the current address space as the processor reads and writes them.\<close>

definition copy_from_user ::
  "vm \<Rightarrow> mem \<Rightarrow> nat option \<Rightarrow> u32 \<Rightarrow> u32 \<Rightarrow> u32 \<Rightarrow> bool \<Rightarrow> (bool \<times> vm \<times> mem) res" where
  "copy_from_user s b mm dst src len writable =
     res_bind (user_mem_check s mm src len writable) (\<lambda>(ok, s1).
     if \<not> ok then Ok (False, s1, b) else Ok (True, s1, memcpy b dst src len))"

definition copy_to_user ::
  "vm \<Rightarrow> mem \<Rightarrow> nat option \<Rightarrow> u32 \<Rightarrow> u32 \<Rightarrow> u32 \<Rightarrow> (bool \<times> vm \<times> mem) res" where
  "copy_to_user s b mm dst src len =
     res_bind (user_mem_check s mm dst len True) (\<lambda>(ok, s1).
     if \<not> ok then Ok (False, s1, b) else Ok (True, s1, memcpy b dst src len))"

partial_function (option) copy_string_loop ::
  "vm \<Rightarrow> mem \<Rightarrow> nat option \<Rightarrow> u32 \<Rightarrow> u32 \<Rightarrow> u32 \<Rightarrow> u32 \<Rightarrow> (bool \<times> vm \<times> mem) res option" where
  "copy_string_loop s b mm dst src maxn part0 =
     (let part = (if maxn < part0 then maxn else part0) in
      step_res (user_mem_check s mm src part False) (\<lambda>(ok, s1).
        if \<not> ok then Some (Ok (False, s1, b))
        else let alen = strnlen b src part in
          if alen < part then Some (Ok (True, s1, memcpy b dst src (alen + 1)))
          else if part = maxn then Some (Ok (False, s1, b))
          else copy_string_loop s1 (memcpy b dst src part) mm (dst + part) (src + part)
                 (maxn - part) PGSIZE))"

definition copy_string :: "vm \<Rightarrow> mem \<Rightarrow> nat option \<Rightarrow> u32 \<Rightarrow> u32 \<Rightarrow> u32 \<Rightarrow> (bool \<times> vm \<times> mem) res" where
  "copy_string s b mm dst src maxn =
     run_loop (copy_string_loop s b mm dst src maxn (ROUNDDOWN (src + PGSIZE) PGSIZE - src))"

end
