(* ===== verification/Vma_List.thy ===== *)
theory Vma_List
  imports Vmm
begin

text \<open>
  The list of areas of a memory descriptor: sorted, disjoint, with a cache of the area found last.
  Searching, inserting and mapping keep it so; the cache never changes an answer.
\<close>

section \<open>The invariant\<close>

abbreviation vstart :: "vm \<Rightarrow> nat \<Rightarrow> u32" where "vstart s v \<equiv> vm_start (vmas s v)"
abbreviation vend :: "vm \<Rightarrow> nat \<Rightarrow> u32" where "vend s v \<equiv> vm_end (vmas s v)"

definition areas_ok :: "vm \<Rightarrow> nat list \<Rightarrow> bool" where
  "areas_ok s vs \<longleftrightarrow> (\<forall>v \<in> set vs. vstart s v < vend s v) \<and> sorted_wrt (\<lambda>v w. vend s v \<le> vstart s w) vs"

definition mm_ok :: "vm \<Rightarrow> nat \<Rightarrow> nat list \<Rightarrow> bool" where
  "mm_ok s m vs \<longleftrightarrow> dl_rep (mmap_links s) (MmapList m) (map VmaLink vs) \<and> areas_ok s vs
     \<and> (case mmap_cache (mms s m) of None \<Rightarrow> True | Some v \<Rightarrow> v \<in> set vs) \<and> map_count (mms s m) = int (length vs)"

lemma areas_ok_append:
  "areas_ok s (xs @ ys) \<longleftrightarrow> areas_ok s xs \<and> areas_ok s ys \<and> (\<forall>x \<in> set xs. \<forall>y \<in> set ys. vend s x \<le> vstart s y)"
  by (auto simp: areas_ok_def sorted_wrt_append)

lemma areas_ok_Cons:
  "areas_ok s (v # vs) \<longleftrightarrow> vstart s v < vend s v \<and> areas_ok s vs \<and> (\<forall>w \<in> set vs. vend s v \<le> vstart s w)"
  by (auto simp: areas_ok_def)

lemma areas_ok_Nil [simp]: "areas_ok s []"
  by (simp add: areas_ok_def)

lemma areas_unique:
  assumes "areas_ok s vs" and "v \<in> set vs" and "w \<in> set vs" and "in_vma s v a" and "in_vma s w a"
  shows "v = w"
  using assms
proof (induction vs)
  case (Cons x xs)
  have False if "y \<in> set xs" "in_vma s x a" "in_vma s y a" for y
  proof -
    have "vend s x \<le> vstart s y" using Cons.prems(1) that(1) by (simp add: areas_ok_Cons)
    then show False using that(2,3) by (auto simp: in_vma_def)
  qed
  then show ?case using Cons by (auto simp: areas_ok_Cons)
qed simp

lemma find_area:
  assumes "areas_ok s vs" and "v \<in> set vs" and "in_vma s v a"
  shows "find (\<lambda>v. in_vma s v a) vs = Some v"
proof -
  obtain w where w: "find (\<lambda>v. in_vma s v a) vs = Some w"
    using assms(2,3) by (metis (mono_tags, lifting) find_None_iff not_None_eq)
  then have "w \<in> set vs" "in_vma s w a" by (auto simp: find_Some_iff)
  then show ?thesis using areas_unique [OF assms(1,2) _ assms(3)] w by blast
qed

section \<open>Searching\<close>

lemma find_map: "find P (map f xs) = map_option f (find (P \<circ> f) xs)"
  by (induction xs) auto

lemma find_vma_ok:
  assumes "mm_ok s m vs" and r_def: "r = find (\<lambda>v. in_vma s v addr) vs"
  shows "find_vma s (Some m) addr =
    Ok (r, case r of None \<Rightarrow> s | Some v \<Rightarrow> upd_mm s m (\<lambda>x. x\<lparr>mmap_cache := Some v\<rparr>))"
proof -
  have rep: "dl_rep (mmap_links s) (MmapList m) (map VmaLink vs)" and ar: "areas_ok s vs"
    using assms(1) by (simp_all add: mm_ok_def)
  have "(\<lambda>le. in_vma s (le2vma le) addr) \<circ> VmaLink = (\<lambda>v. in_vma s v addr)" by (simp add: fun_eq_iff)
  then have walk: "list_walk (mmap_links s) (MmapList m) (\<lambda>le. in_vma s (le2vma le) addr) (MmapList m)
      = Some (map_option VmaLink r)"
    using list_walk_head [OF rep] by (simp add: find_map r_def)
  have "map_option le2vma (map_option VmaLink r) = r" by (cases r) simp_all
  then show ?thesis
  proof (cases "case mmap_cache (mms s m) of None \<Rightarrow> False | Some v \<Rightarrow> in_vma s v addr")
    case True
    then obtain v where v: "mmap_cache (mms s m) = Some v" "in_vma s v addr" by (auto split: option.splits)
    then have "v \<in> set vs" using assms(1) by (simp add: mm_ok_def)
    then have "r = Some v" unfolding r_def by (rule find_area [OF ar _ v(2)])
    then show ?thesis using v by (simp add: find_vma_def)
  next
    case False
    then show ?thesis using walk \<open>map_option le2vma _ = r\<close> by (simp add: find_vma_def)
  qed
qed

lemma in_vma_cong: "vmas s' = vmas s \<Longrightarrow> in_vma s' = in_vma s"
  by (simp add: fun_eq_iff in_vma_def)

lemma areas_ok_cong: "(\<And>v. v \<in> set vs \<Longrightarrow> vstart s' v = vstart s v \<and> vend s' v = vend s v) \<Longrightarrow> areas_ok s' vs = areas_ok s vs"
proof (induction vs)
  case (Cons v vs)
  then show ?case by (simp add: areas_ok_Cons)
qed simp

lemma upd_mm_fields [simp]:
  "mmap_links (upd_mm s m f) = mmap_links s" "vmas (upd_mm s m f) = vmas s" "mms (upd_mm s m f) = (mms s)(m := f (mms s m))"
  "phys (upd_mm s m f) = phys s" "pmem (upd_mm s m f) = pmem s" "swap_init_ok (upd_mm s m f) = swap_init_ok s"
  "check_mm_struct (upd_mm s m f) = check_mm_struct s"
  by (simp_all add: upd_mm_def)

lemma find_vma_keeps:
  assumes ok: "mm_ok s m vs" and r: "find_vma s (Some m) addr = Ok (r, s')"
  shows "mm_ok s' m vs" and "r = find (\<lambda>v. in_vma s v addr) vs" and "vmas s' = vmas s" and "mmap_links s' = mmap_links s"
    and "s' = (case r of None \<Rightarrow> s | Some v \<Rightarrow> upd_mm s m (\<lambda>x. x\<lparr>mmap_cache := Some v\<rparr>))"
proof -
  show 1: "r = find (\<lambda>v. in_vma s v addr) vs"
    and 2: "s' = (case r of None \<Rightarrow> s | Some v \<Rightarrow> upd_mm s m (\<lambda>x. x\<lparr>mmap_cache := Some v\<rparr>))"
    using find_vma_ok [OF ok refl, of addr] r by auto
  show v: "vmas s' = vmas s" and l: "mmap_links s' = mmap_links s" using 2 by (auto split: option.splits)
  have "areas_ok s' vs = areas_ok s vs" using v by (intro areas_ok_cong) simp
  moreover have "v \<in> set vs" if "r = Some v" for v
    using that unfolding 1 by (auto simp: find_Some_iff)
  ultimately show "mm_ok s' m vs" using ok 2 v l by (auto simp: mm_ok_def split: option.splits)
qed

section \<open>Inserting\<close>

lemma insert_pos_ok:
  assumes "dl_rep (mmap_links s) lh (map VmaLink (xs @ ys))" and "le = last (lh # map VmaLink xs)"
  shows "insert_pos s lh a le le = Some (last (lh # map VmaLink (xs @ takeWhile (\<lambda>w. \<not> a < vstart s w) ys)))"
  using assms
proof (induction ys arbitrary: xs le)
  case Nil
  have "list_next (mmap_links s) le = lh" using Nil dl_rep_next_last [of "mmap_links s" lh "map VmaLink xs"] by simp
  then show ?case using Nil(2) by (subst insert_pos.simps) simp
next
  case (Cons y ys)
  have nxt: "list_next (mmap_links s) le = VmaLink y"
    using Cons.prems dl_rep_next_mid [of "mmap_links s" lh "map VmaLink xs" "VmaLink y"] by simp
  have ne: "VmaLink y \<noteq> lh" using Cons.prems(1) by (auto simp: dl_rep_def)
  show ?case
  proof (cases "a < vstart s y")
    case True
    then show ?thesis using nxt ne Cons.prems(2) by (subst insert_pos.simps) simp
  next
    case False
    have "insert_pos s lh a (VmaLink y) (VmaLink y) =
        Some (last (lh # map VmaLink ((xs @ [y]) @ takeWhile (\<lambda>w. \<not> a < vstart s w) ys)))"
      using Cons.prems(1) by (intro Cons.IH) simp_all
    then show ?thesis using nxt ne False by (subst insert_pos.simps) simp
  qed
qed

lemmas insert_pos_head = insert_pos_ok [where xs = "[]", simplified append_Nil list.simps last.simps if_True simp_thms]

definition apart_from :: "vm \<Rightarrow> nat \<Rightarrow> nat list \<Rightarrow> bool" where
  "apart_from s v vs \<longleftrightarrow> (\<forall>w \<in> set vs. vend s w \<le> vstart s v \<or> vend s v \<le> vstart s w)"

text \<open>Where a new area goes.\<close>

definition place :: "vm \<Rightarrow> nat \<Rightarrow> nat list \<Rightarrow> nat list" where
  "place s v vs = takeWhile (\<lambda>w. \<not> vstart s v < vstart s w) vs @ v # dropWhile (\<lambda>w. \<not> vstart s v < vstart s w) vs"

lemma place_set [simp]: "set (place s v vs) = insert v (set vs)" "length (place s v vs) = Suc (length vs)"
proof -
  define xs ys where "xs = takeWhile (\<lambda>w. \<not> vstart s v < vstart s w) vs" and "ys = dropWhile (\<lambda>w. \<not> vstart s v < vstart s w) vs"
  have "place s v vs = xs @ v # ys" and "vs = xs @ ys" by (simp_all add: xs_def ys_def place_def)
  then show "set (place s v vs) = insert v (set vs)" "length (place s v vs) = Suc (length vs)" by auto
qed

lemma place_split:
  assumes ok: "areas_ok s vs" and v: "vstart s v < vend s v"
  defines "xs \<equiv> takeWhile (\<lambda>w. \<not> vstart s v < vstart s w) vs" and "ys \<equiv> dropWhile (\<lambda>w. \<not> vstart s v < vstart s w) vs"
  shows "apart_from s v vs \<longleftrightarrow>
    (xs \<noteq> [] \<longrightarrow> vend s (last xs) \<le> vstart s v) \<and> (ys \<noteq> [] \<longrightarrow> vend s v \<le> vstart s (hd ys))"
    and "apart_from s v vs \<Longrightarrow> areas_ok s (place s v vs)"
proof -
  have vs: "vs = xs @ ys" by (simp add: xs_def ys_def)
  have okx: "areas_ok s xs" and oky: "areas_ok s ys" using ok unfolding vs areas_ok_append by simp_all
  have x: "vstart s w \<le> vstart s v" if "w \<in> set xs" for w using that set_takeWhileD by (fastforce simp: xs_def)
  have lastx: "vend s w \<le> vend s (last xs)" if "w \<in> set xs" for w
  proof -
    have "xs \<noteq> []" using that by auto
    then obtain zs z where z: "xs = zs @ [z]" by (metis append_butlast_last_id)
    show ?thesis
    proof (cases "w = z")
      case False
      then have "vend s w \<le> vstart s z" "vstart s z < vend s z"
        using okx that unfolding z areas_ok_append by (auto simp: areas_ok_Cons)
      then show ?thesis using z by simp
    qed (simp add: z)
  qed
  have hdy: "vstart s (hd ys) \<le> vstart s w" if "w \<in> set ys" for w
  proof (cases ys)
    case (Cons y zs)
    then show ?thesis using oky that by (auto simp: areas_ok_Cons)
  qed (use that in simp)
  have hdy2: "vstart s v < vstart s (hd ys)" if "ys \<noteq> []" using hd_dropWhile that unfolding ys_def by blast
  have vx: "vend s w \<le> vstart s v \<or> vend s v \<le> vstart s w \<longleftrightarrow> vend s w \<le> vstart s v" if "w \<in> set xs" for w
    using x [OF that] v by auto
  have wy: "vend s w \<le> vstart s v \<or> vend s v \<le> vstart s w \<longleftrightarrow> vend s v \<le> vstart s w" if "w \<in> set ys" for w
  proof -
    have "ys \<noteq> []" using that by auto
    then have "vstart s v < vstart s w" using hdy2 hdy [OF that] by simp
    moreover have "vstart s w < vend s w" using oky that by (simp add: areas_ok_def)
    ultimately show ?thesis by auto
  qed
  have iff: "apart_from s v vs \<longleftrightarrow> (\<forall>w \<in> set xs. vend s w \<le> vstart s v) \<and> (\<forall>w \<in> set ys. vend s v \<le> vstart s w)"
    unfolding apart_from_def vs using vx wy by auto
  show "apart_from s v vs \<longleftrightarrow>
    (xs \<noteq> [] \<longrightarrow> vend s (last xs) \<le> vstart s v) \<and> (ys \<noteq> [] \<longrightarrow> vend s v \<le> vstart s (hd ys))"
  proof
    assume "apart_from s v vs"
    then show "(xs \<noteq> [] \<longrightarrow> vend s (last xs) \<le> vstart s v) \<and> (ys \<noteq> [] \<longrightarrow> vend s v \<le> vstart s (hd ys))"
      unfolding iff by simp
  next
    assume r: "(xs \<noteq> [] \<longrightarrow> vend s (last xs) \<le> vstart s v) \<and> (ys \<noteq> [] \<longrightarrow> vend s v \<le> vstart s (hd ys))"
    have "vend s w \<le> vstart s v" if "w \<in> set xs" for w
    proof (rule order_trans [OF lastx [OF that]])
      show "vend s (last xs) \<le> vstart s v" using r that by (cases xs) auto
    qed
    moreover have "vend s v \<le> vstart s w" if "w \<in> set ys" for w
    proof (rule order_trans [OF _ hdy [OF that]])
      show "vend s v \<le> vstart s (hd ys)" using r that by (cases ys) auto
    qed
    ultimately show "apart_from s v vs" unfolding iff by blast
  qed
  have pl: "place s v vs = xs @ v # ys" by (simp add: place_def xs_def ys_def)
  show "areas_ok s (place s v vs)" if "apart_from s v vs"
    using iff that okx oky v ok [unfolded vs areas_ok_append] unfolding pl areas_ok_append areas_ok_Cons by auto
qed

lemma insert_vma_struct_ok:
  assumes ok: "mm_ok s m vs" and new: "v \<notin> set vs" and v: "vstart s v < vend s v"
  shows "apart_from s v vs \<Longrightarrow> \<exists>s'. insert_vma_struct s m v = Ok s' \<and> mm_ok s' m (place s v vs)
      \<and> s' = s\<lparr>vmas := (vmas s)(v := (vmas s v)\<lparr>vm_mm := Some m\<rparr>), mmap_links := mmap_links s',
               mms := (mms s)(m := (mms s m)\<lparr>map_count := map_count (mms s m) + 1\<rparr>)\<rparr>
      \<and> (\<forall>x. x \<notin> set (MmapList m # VmaLink v # map VmaLink vs) \<longrightarrow>
           nxt (mmap_links s') x = nxt (mmap_links s) x \<and> prev (mmap_links s') x = prev (mmap_links s) x)"
    and "\<not> apart_from s v vs \<Longrightarrow> insert_vma_struct s m v = Panic"
proof -
  define xs ys where "xs = takeWhile (\<lambda>w. \<not> vstart s v < vstart s w) vs" and "ys = dropWhile (\<lambda>w. \<not> vstart s v < vstart s w) vs"
  have vs: "vs = xs @ ys" and pl: "place s v vs = xs @ v # ys" by (simp_all add: xs_def ys_def place_def)
  let ?lh = "MmapList m" and ?h = "mmap_links s"
  have rep: "dl_rep ?h ?lh (map VmaLink (xs @ ys))" and ar: "areas_ok s vs" using ok by (simp_all add: mm_ok_def vs)
  note sp = place_split [OF ar v, folded xs_def ys_def]
  define p where "p = last (?lh # map VmaLink xs)"
  have pos: "insert_pos s ?lh (vstart s v) ?lh ?lh = Some p"
    using insert_pos_head [OF rep [folded vs]] by (simp add: p_def xs_def)
  have np: "p \<noteq> ?lh \<longleftrightarrow> xs \<noteq> []" "xs \<noteq> [] \<Longrightarrow> le2vma p = last xs" by (auto simp: p_def last_map)
  have nx: "list_next ?h p = hd (map VmaLink ys @ [?lh])"
    using rep dl_rep_next_mid [of ?h ?lh "map VmaLink xs"] dl_rep_next_last [of ?h ?lh "map VmaLink xs"]
    by (cases ys) (simp_all add: p_def)
  have nn: "list_next ?h p \<noteq> ?lh \<longleftrightarrow> ys \<noteq> []" "ys \<noteq> [] \<Longrightarrow> le2vma (list_next ?h p) = hd ys"
    unfolding nx by (cases ys; simp)+
  have in_ok: "vstart s w < vend s w" if "w \<in> set vs" for w using ar that by (simp add: areas_ok_def)
  have c1: "(if p \<noteq> ?lh then check_vma_overlap s (le2vma p) v else Ok ()) =
      (if xs \<noteq> [] \<longrightarrow> vend s (last xs) \<le> vstart s v then Ok () else Panic)"
    using np v in_ok [of "last xs"] by (auto simp: check_vma_overlap_def assert_c_def vs)
  have c2: "(if list_next ?h p \<noteq> ?lh then check_vma_overlap s v (le2vma (list_next ?h p)) else Ok ()) =
      (if ys \<noteq> [] \<longrightarrow> vend s v \<le> vstart s (hd ys) then Ok () else Panic)"
    using nn v in_ok [of "hd ys"] by (auto simp: check_vma_overlap_def assert_c_def vs)
  show "insert_vma_struct s m v = Panic" if "\<not> apart_from s v vs"
    using that sp(1) v pos c1 c2 unfolding insert_vma_struct_def by (auto simp: Let_def)
  assume ap: "apart_from s v vs"
  define h' where "h' = list_add_after ?h p (VmaLink v)"
  have "VmaLink v \<notin> set (?lh # map VmaLink (xs @ ys))" using new vs by auto
  then have rep': "dl_rep h' ?lh (map VmaLink (place s v vs))"
    using dl_rep_add_between [of ?h ?lh "map VmaLink xs" "map VmaLink ys" "VmaLink v" p "list_next ?h p"] rep nx
    by (simp add: h'_def list_add_after_def list_next_def p_def pl)
  define s' where "s' = upd_mm (s\<lparr>vmas := (vmas s)(v := (vmas s v)\<lparr>vm_mm := Some m\<rparr>), mmap_links := h'\<rparr>) m
    (\<lambda>x. x\<lparr>map_count := map_count x + 1\<rparr>)"
  have run: "insert_vma_struct s m v = Ok s'"
    using ap sp(1) v pos c1 c2 unfolding insert_vma_struct_def by (simp add: Let_def s'_def h'_def)
  have "areas_ok s' (place s v vs) = areas_ok s (place s v vs)" by (rule areas_ok_cong) (simp add: s'_def)
  then have "mm_ok s' m (place s v vs)"
    using ok rep' sp(2) [OF ap] by (auto simp: mm_ok_def s'_def split: option.splits)
  moreover have "p \<in> set (?lh # map VmaLink vs)" using last_in_set [of "?lh # map VmaLink xs"] by (auto simp: p_def vs)
  ultimately show "\<exists>s'. insert_vma_struct s m v = Ok s' \<and> mm_ok s' m (place s v vs)
      \<and> s' = s\<lparr>vmas := (vmas s)(v := (vmas s v)\<lparr>vm_mm := Some m\<rparr>), mmap_links := mmap_links s',
               mms := (mms s)(m := (mms s m)\<lparr>map_count := map_count (mms s m) + 1\<rparr>)\<rparr>
      \<and> (\<forall>x. x \<notin> set (MmapList m # VmaLink v # map VmaLink vs) \<longrightarrow>
           nxt (mmap_links s') x = nxt (mmap_links s) x \<and> prev (mmap_links s') x = prev (mmap_links s) x)"
    using run list_add_after_frame [OF rep [folded vs], of p _ "VmaLink v"]
    by (intro exI [of _ s']) (simp add: s'_def upd_mm_def h'_def)
qed

section \<open>Checking user memory\<close>

text \<open>Area \<open>v\<close> lets the byte at \<open>a\<close> be read, or written; the lowest page of a stack is never written.\<close>

definition permits :: "vm \<Rightarrow> nat \<Rightarrow> u32 \<Rightarrow> bool \<Rightarrow> bool" where
  "permits s v a write \<longleftrightarrow> in_vma s v a \<and> vm_flags (vmas s v) AND (if write then VM_WRITE else VM_READ) \<noteq> 0
     \<and> \<not> (write \<and> vm_flags (vmas s v) AND VM_STACK \<noteq> 0 \<and> a < vstart s v + PGSIZE)"

lemma permits_mono:
  assumes "permits s v a w" and "a \<le> b" and "b < vend s v"
  shows "permits s v b w"
  using assms by (auto simp: permits_def in_vma_def)

definition all_permitted :: "vm \<Rightarrow> nat list \<Rightarrow> u32 \<Rightarrow> u32 \<Rightarrow> bool \<Rightarrow> bool" where
  "all_permitted s vs a e w \<longleftrightarrow> (\<forall>x. a \<le> x \<and> x < e \<longrightarrow> (\<exists>v \<in> set vs. permits s v x w))"

lemma all_permitted_step:
  assumes "v \<in> set vs" and "permits s v a w"
  shows "all_permitted s vs a e w \<longleftrightarrow> all_permitted s vs (vend s v) e w"
proof -
  have av: "a < vend s v" using assms(2) by (simp add: permits_def in_vma_def)
  have "\<exists>v \<in> set vs. permits s v x w" if "a \<le> x" "x < vend s v" for x
    using permits_mono [OF assms(2) that] assms(1) by blast
  then show ?thesis using av unfolding all_permitted_def by (meson less_imp_le not_le order_trans)
qed

lemma check_loop_ok:
  assumes "mm_ok s m vs"
  shows "\<exists>ok s'. check_loop s m a e w = Some (Ok (ok, s')) \<and> mm_ok s' m vs \<and> vmas s' = vmas s
    \<and> (ok \<longleftrightarrow> all_permitted s vs a e w)"
  using assms
proof (induction "unat e - unat a" arbitrary: s a rule: less_induct)
  case less
  show ?case
  proof (cases "a < e")
    case False
    then have "all_permitted s vs a e w" by (auto simp: all_permitted_def)
    then show ?thesis using False less.prems by (subst check_loop.simps) auto
  next
    case True
    obtain r s1 where f: "find_vma s (Some m) a = Ok (r, s1)" using find_vma_ok [OF less.prems refl] by blast
    note k = find_vma_keeps [OF less.prems f]
    have ar: "areas_ok s vs" using less.prems by (simp add: mm_ok_def)
    show ?thesis
    proof (cases r)
      case None
      then have "\<not> in_vma s v a" if "v \<in> set vs" for v using k(2) that by (auto simp: find_None_iff)
      then have "\<not> all_permitted s vs a e w" using True by (auto simp: all_permitted_def permits_def)
      then show ?thesis using True f None k(1,3)
        by (intro exI [of _ False] exI [of _ s1]) (subst check_loop.simps, simp)
    next
      case (Some v)
      then have v: "v \<in> set vs" "in_vma s v a" using k(2) by (auto simp: find_Some_iff)
      let ?b = "vmas s v"
      have run: "check_loop s m a e w = (if permits s v a w then check_loop s1 m (vend s v) e w else Some (Ok (False, s1)))"
        using True f Some v(2) k(3) by (subst check_loop.simps) (auto simp: Let_def permits_def in_vma_def)
      show ?thesis
      proof (cases "permits s v a w")
        case True
        have "unat a < unat (vend s v)" "unat a < unat e"
          using v(2) \<open>a < e\<close> by (simp_all add: in_vma_def word_less_nat_alt)
        then have "unat e - unat (vend s v) < unat e - unat a" by linarith
        from less.hyps [OF this k(1)] obtain ok s' where "check_loop s1 m (vend s v) e w = Some (Ok (ok, s'))"
          "mm_ok s' m vs" "vmas s' = vmas s1" "ok \<longleftrightarrow> all_permitted s1 vs (vend s v) e w" by blast
        moreover have "all_permitted s1 vs (vend s v) e w = all_permitted s vs (vend s v) e w"
          using k(3) by (simp add: all_permitted_def permits_def in_vma_def)
        ultimately show ?thesis using run True all_permitted_step [OF v(1) True] k(3) by simp
      next
        case False
        have "\<not> permits s x a w" if x: "x \<in> set vs" for x
        proof
          assume p: "permits s x a w"
          then have "in_vma s x a" by (simp add: permits_def)
          then have "x = v" using areas_unique [OF ar x v(1)] v(2) by blast
          then show False using p False by simp
        qed
        then have "\<not> all_permitted s vs a e w" using \<open>a < e\<close> by (auto simp: all_permitted_def)
        then show ?thesis using run False k(1,3) by (intro exI [of _ False] exI [of _ s1]) simp
      qed
    qed
  qed
qed

section \<open>Properties of the area list\<close>

text \<open>A descriptor with two areas, at 0x200000 and at 0x400000, of one page each.\<close>

definition demo_areas :: vm where
  "demo_areas = demo_vm\<lparr>
     vmas := (\<lambda>v. if v = 1 then \<lparr>vm_mm = Some 0, vm_start = 0x200000, vm_end = 0x201000, vm_flags = 3\<rparr>
               else if v = 2 then \<lparr>vm_mm = Some 0, vm_start = 0x400000, vm_end = 0x401000, vm_flags = 1\<rparr> else vmas demo_vm v),
     mms := (mms demo_vm)(0 := (mms demo_vm 0)\<lparr>map_count := 2\<rparr>),
     mmap_links := list_add_before (list_add_before (list_init (mmap_links demo_vm) (MmapList 0)) (MmapList 0) (VmaLink 1))
       (MmapList 0) (VmaLink 2)\<rparr>"

lemma demo_areas_ok: "mm_ok demo_areas 0 [1, 2]"
proof -
  have "dl_rep (list_add_before (list_init (mmap_links demo_vm) (MmapList 0)) (MmapList 0) (VmaLink 1)) (MmapList 0) [VmaLink 1]"
    using dl_rep_add_before_head [OF dl_rep_init, of "VmaLink 1" "MmapList 0"] by simp
  from dl_rep_add_before_head [OF this, of "VmaLink 2"]
  have "dl_rep (mmap_links demo_areas) (MmapList 0) [VmaLink 1, VmaLink 2]" by (simp add: demo_areas_def)
  moreover have "mms demo_vm 0 = demo_mm" by (simp add: demo_vm_def set_page_ref_def upd_phys_def demo_vm0_def)
  ultimately show ?thesis by (simp add: mm_ok_def areas_ok_def demo_areas_def demo_mm_def)
qed

text \<open>C18: \<open>find_vma\<close> with its cache gives the same answer as a search of the whole list: the one area that
  contains the address, or NULL; it changes nothing but the cache.\<close>

theorem find_vma_cache_transparent:
  assumes "mm_ok s m vs"
  shows "\<exists>r s'. find_vma s (Some m) addr = Ok (r, s') \<and> r = find (\<lambda>v. in_vma s v addr) vs
    \<and> (\<forall>v. r = Some v \<longleftrightarrow> v \<in> set vs \<and> in_vma s v addr) \<and> mm_ok s' m vs
    \<and> s' = s\<lparr>mms := (mms s)(m := (mms s m)\<lparr>mmap_cache := mmap_cache (mms s' m)\<rparr>)\<rparr>"
proof -
  obtain r s' where f: "find_vma s (Some m) addr = Ok (r, s')" using find_vma_ok [OF assms refl] by blast
  note k = find_vma_keeps [OF assms f]
  have ar: "areas_ok s vs" using assms by (simp add: mm_ok_def)
  have "r = Some v \<longleftrightarrow> v \<in> set vs \<and> in_vma s v addr" for v
    using find_area [OF ar, of v addr] unfolding k(2) by (auto simp: find_Some_iff)
  moreover have "s' = s\<lparr>mms := (mms s)(m := (mms s m)\<lparr>mmap_cache := mmap_cache (mms s' m)\<rparr>)\<rparr>"
    unfolding k(5) by (cases r) (simp_all add: upd_mm_def)
  ultimately show ?thesis using f k(1,2) by blast
qed

theorem find_vma_cache_transparent_witness:
  "(\<exists>s'. find_vma demo_areas (Some 0) 0x400010 = Ok (Some 2, s')) \<and> (\<exists>s'. find_vma demo_areas (Some 0) 0x300000 = Ok (None, s'))"
proof -
  have "find (\<lambda>v. in_vma demo_areas v 0x400010) [1, 2] = Some 2" "find (\<lambda>v. in_vma demo_areas v 0x300000) [1, 2] = None"
    by (simp_all add: in_vma_def demo_areas_def)
  then show ?thesis
    using find_vma_cache_transparent [OF demo_areas_ok, where addr = "0x400010"]
      find_vma_cache_transparent [OF demo_areas_ok, where addr = "0x300000"]
    by auto
qed

text \<open>C19: \<open>insert_vma_struct\<close> of a non-empty area puts it into the list exactly when it overlaps no area that is
  there, and then the list is sorted and disjoint again; otherwise the overlap assertion fails.\<close>

theorem insert_vma_keeps_sorted:
  assumes "mm_ok s m vs" and "v \<notin> set vs" and "vm_start (vmas s v) < vm_end (vmas s v)"
  shows "if \<forall>w \<in> set vs. vm_end (vmas s w) \<le> vm_start (vmas s v) \<or> vm_end (vmas s v) \<le> vm_start (vmas s w)
    then \<exists>s' vs'. insert_vma_struct s m v = Ok s' \<and> mm_ok s' m vs' \<and> set vs' = insert v (set vs)
      \<and> vm_mm (vmas s' v) = Some m
    else insert_vma_struct s m v = Panic"
proof (cases "apart_from s v vs")
  case True
  then obtain s' where s': "insert_vma_struct s m v = Ok s'" "mm_ok s' m (place s v vs)"
    "s' = s\<lparr>vmas := (vmas s)(v := (vmas s v)\<lparr>vm_mm := Some m\<rparr>), mmap_links := mmap_links s',
            mms := (mms s)(m := (mms s m)\<lparr>map_count := map_count (mms s m) + 1\<rparr>)\<rparr>"
    using insert_vma_struct_ok(1) [OF assms] by blast
  have "vm_mm (vmas s' v) = Some m" by (subst s'(3)) simp
  then show ?thesis using True s'(1,2) unfolding apart_from_def [symmetric] by auto
next
  case False
  then show ?thesis using insert_vma_struct_ok(2) [OF assms] unfolding apart_from_def [symmetric] by simp
qed

theorem insert_vma_keeps_sorted_witness:
  "\<exists>s' vs'. insert_vma_struct (snd (vma_create demo_areas (Some 3) 0x300000 0x301000 1)) 0 3 = Ok s' \<and> mm_ok s' 0 vs'
     \<and> set vs' = {1, 2, 3}"
proof -
  define s where "s = snd (vma_create demo_areas (Some 3) 0x300000 0x301000 1)"
  have v: "vmas s 1 = vmas demo_areas 1" "vmas s 2 = vmas demo_areas 2" "vm_start (vmas s 3) = 0x300000" "vm_end (vmas s 3) = 0x301000"
    "mmap_links s = mmap_links demo_areas" "mms s = mms demo_areas" by (simp_all add: s_def vma_create_def)
  have "mm_ok s 0 [1, 2]" using demo_areas_ok v by (simp add: mm_ok_def areas_ok_def)
  then have "\<exists>s' vs'. insert_vma_struct s 0 3 = Ok s' \<and> mm_ok s' 0 vs' \<and> set vs' = insert 3 (set [1, 2])
      \<and> vm_mm (vmas s' 3) = Some 0"
    using insert_vma_keeps_sorted [of s 0 "[1, 2]" 3] v by (simp add: demo_areas_def)
  then show ?thesis unfolding s_def by (auto simp: insert_commute)
qed

lemma overlap_iff:
  assumes "areas_ok s vs" and "a < e" and "\<forall>w \<in> set vs. \<not> in_vma s w a"
  shows "(\<forall>w \<in> set vs. vend s w \<le> a \<or> e \<le> vstart s w) \<longleftrightarrow> \<not> (\<exists>w \<in> set vs. a < vstart s w \<and> vstart s w < e)"
proof -
  have "(vend s w \<le> a \<or> e \<le> vstart s w) \<longleftrightarrow> \<not> (a < vstart s w \<and> vstart s w < e)" if "w \<in> set vs" for w
    using assms(1,3) that by (auto simp: areas_ok_def in_vma_def not_less not_le)
  then show ?thesis by blast
qed

lemma mm_map_ok:
  assumes ok: "mm_ok s m vs" and k: "\<forall>v. k = Some v \<longrightarrow> v \<notin> set vs"
    and a_def: "a = ROUNDDOWN addr PGSIZE" and e_def: "e = ROUNDUP (addr + len) PGSIZE" and ua: "USER_ACCESS a e"
  shows "\<exists>w \<in> set vs. in_vma s w a \<Longrightarrow> \<exists>s'. mm_map s (Some m) addr len fl k = Ok (Inl E_INVAL, s') \<and> mm_ok s' m vs"
    and "\<forall>w \<in> set vs. \<not> in_vma s w a \<Longrightarrow> k = None \<Longrightarrow> mm_map s (Some m) addr len fl k = Ok (Inl E_NO_MEM, s)"
    and "\<forall>w \<in> set vs. \<not> in_vma s w a \<Longrightarrow> k = Some v \<Longrightarrow> \<exists>w \<in> set vs. a < vstart s w \<and> vstart s w < e \<Longrightarrow>
      mm_map s (Some m) addr len fl k = Panic"
    and "\<forall>w \<in> set vs. \<not> in_vma s w a \<Longrightarrow> k = Some v \<Longrightarrow> \<not> (\<exists>w \<in> set vs. a < vstart s w \<and> vstart s w < e) \<Longrightarrow>
      \<exists>s' vs'. mm_map s (Some m) addr len fl k = Ok (Inr v, s') \<and> mm_ok s' m vs' \<and> set vs' = insert v (set vs)
        \<and> vmas s' v = \<lparr>vm_mm = Some m, vm_start = a, vm_end = e, vm_flags = fl\<rparr> \<and> (\<forall>w. w \<noteq> v \<longrightarrow> vmas s' w = vmas s w)"
proof -
  have ae: "a < e" using ua by (simp add: USER_ACCESS_def)
  have ar: "areas_ok s vs" using ok by (simp add: mm_ok_def)
  obtain r s1 where f: "find_vma s (Some m) a = Ok (r, s1)" using find_vma_ok [OF ok refl] by blast
  note kp = find_vma_keeps [OF ok f]
  have run: "mm_map s (Some m) addr len fl k =
     (if (case r of None \<Rightarrow> False | Some v \<Rightarrow> vm_start (vmas s1 v) < e) then Ok (Inl E_INVAL, s1)
      else (case vma_create s1 k a e fl of
          (None, s2) \<Rightarrow> Ok (Inl E_NO_MEM, s2)
        | (Some v, s2) \<Rightarrow> res_bind (insert_vma_struct s2 m v) (\<lambda>s3. Ok (Inr v, s3))))"
    using ua f by (simp add: mm_map_def Let_def a_def [symmetric] e_def [symmetric])
  show "\<exists>s'. mm_map s (Some m) addr len fl k = Ok (Inl E_INVAL, s') \<and> mm_ok s' m vs" if ex: "\<exists>w \<in> set vs. in_vma s w a"
  proof -
    obtain w where "w \<in> set vs" "in_vma s w a" using ex by blast
    then have "r = Some w" unfolding kp(2) by (rule find_area [OF ar])
    moreover have "vstart s w < e" using \<open>in_vma s w a\<close> ae by (auto simp: in_vma_def)
    ultimately show ?thesis using run kp(1,3) by simp
  qed
  assume no: "\<forall>w \<in> set vs. \<not> in_vma s w a"
  then have r: "r = None" unfolding kp(2) by (auto simp: find_None_iff)
  then have s1: "s1 = s" using kp(5) by simp
  show "k = None \<Longrightarrow> mm_map s (Some m) addr len fl k = Ok (Inl E_NO_MEM, s)" using run r s1 by (simp add: vma_create_def)
  assume kv: "k = Some v"
  define s2 where "s2 = s\<lparr>vmas := (vmas s)(v := (vmas s v)\<lparr>vm_start := a, vm_end := e, vm_flags := fl\<rparr>)\<rparr>"
  have vn: "v \<notin> set vs" using k kv by blast
  have old: "vmas s2 w = vmas s w" if "w \<in> set vs" for w using that vn by (auto simp: s2_def)
  have ok2: "mm_ok s2 m vs"
    using ok areas_ok_cong [of vs s2 s] old unfolding mm_ok_def by (simp add: s2_def)
  have run2: "mm_map s (Some m) addr len fl k = res_bind (insert_vma_struct s2 m v) (\<lambda>s3. Ok (Inr v, s3))"
    using run r s1 kv by (simp add: vma_create_def s2_def)
  have v2: "vstart s2 v = a" "vend s2 v = e" by (simp_all add: s2_def)
  have ap: "apart_from s2 v vs \<longleftrightarrow> \<not> (\<exists>w \<in> set vs. a < vstart s w \<and> vstart s w < e)"
    unfolding apart_from_def v2 using overlap_iff [OF ar ae no] old by simp
  have lt: "vstart s2 v < vend s2 v" using ae v2 by simp
  note ins = insert_vma_struct_ok [OF ok2 vn lt]
  show "mm_map s (Some m) addr len fl k = Panic" if "\<exists>w \<in> set vs. a < vstart s w \<and> vstart s w < e"
    using run2 ins(2) ap that by simp
  show "\<exists>s' vs'. mm_map s (Some m) addr len fl k = Ok (Inr v, s') \<and> mm_ok s' m vs' \<and> set vs' = insert v (set vs)
        \<and> vmas s' v = \<lparr>vm_mm = Some m, vm_start = a, vm_end = e, vm_flags = fl\<rparr> \<and> (\<forall>w. w \<noteq> v \<longrightarrow> vmas s' w = vmas s w)"
    if "\<not> (\<exists>w \<in> set vs. a < vstart s w \<and> vstart s w < e)"
  proof -
    have "apart_from s2 v vs" using ap that by blast
    from ins(1) [OF this] obtain s' where s': "insert_vma_struct s2 m v = Ok s'" "mm_ok s' m (place s2 v vs)"
      "s' = s2\<lparr>vmas := (vmas s2)(v := (vmas s2 v)\<lparr>vm_mm := Some m\<rparr>), mmap_links := mmap_links s',
            mms := (mms s2)(m := (mms s2 m)\<lparr>map_count := map_count (mms s2 m) + 1\<rparr>)\<rparr>" by blast
    have "vmas s' = (vmas s2)(v := (vmas s2 v)\<lparr>vm_mm := Some m\<rparr>)" by (subst s'(3)) simp
    then have "vmas s' v = \<lparr>vm_mm = Some m, vm_start = a, vm_end = e, vm_flags = fl\<rparr>" "\<forall>w. w \<noteq> v \<longrightarrow> vmas s' w = vmas s w"
      by (simp_all add: s2_def)
    then show ?thesis using run2 s'(1,2) by (intro exI [of _ s'] exI [of _ "place s2 v vs"]) simp
  qed
qed

text \<open>C20: the whole behaviour of \<open>mm_map\<close>. The new area reaches from \<open>a\<close> to \<open>e\<close>, the address and its end rounded to
  pages. It is refused outside user memory, or when an area already contains \<open>a\<close>; without memory for the
  descriptor of the area; an area that begins inside the new one makes the kernel panic; otherwise the new
  area is added and the list stays sorted and disjoint.\<close>

theorem mm_map_cases:
  assumes "mm_ok s m vs" and "\<forall>v. k = Some v \<longrightarrow> v \<notin> set vs"
    and "a = ROUNDDOWN addr PGSIZE" and "e = ROUNDUP (addr + len) PGSIZE"
  shows "if \<not> USER_ACCESS a e then mm_map s (Some m) addr len fl k = Ok (Inl E_INVAL, s)
    else if \<exists>w \<in> set vs. in_vma s w a then \<exists>s'. mm_map s (Some m) addr len fl k = Ok (Inl E_INVAL, s') \<and> mm_ok s' m vs
    else case k of
      None \<Rightarrow> mm_map s (Some m) addr len fl k = Ok (Inl E_NO_MEM, s)
    | Some v \<Rightarrow> if \<exists>w \<in> set vs. a < vm_start (vmas s w) \<and> vm_start (vmas s w) < e
        then mm_map s (Some m) addr len fl k = Panic
        else \<exists>s' vs'. mm_map s (Some m) addr len fl k = Ok (Inr v, s') \<and> mm_ok s' m vs' \<and> set vs' = insert v (set vs)
          \<and> vmas s' v = \<lparr>vm_mm = Some m, vm_start = a, vm_end = e, vm_flags = fl\<rparr> \<and> (\<forall>w. w \<noteq> v \<longrightarrow> vmas s' w = vmas s w)"
proof (cases "USER_ACCESS a e")
  case True
  note ok = mm_map_ok [OF assms True, where fl = fl]
  show ?thesis
  proof (cases "\<exists>w \<in> set vs. in_vma s w a")
    case in_area: True
    then show ?thesis using ok(1) True by simp
  next
    case False
    then have no: "\<forall>w \<in> set vs. \<not> in_vma s w a" by blast
    show ?thesis
    proof (cases k)
      case None
      then show ?thesis using ok(2) [OF no None] False True by simp
    next
      case (Some v)
      then show ?thesis using ok(3,4) [OF no Some] False True by (auto simp: Some)
    qed
  qed
next
  case False
  then show ?thesis using assms(3,4) by (simp add: mm_map_def Let_def)
qed

theorem mm_map_cases_witness:
  "(\<exists>s' vs'. mm_map demo_areas (Some 0) 0x300010 0x20 3 (Some 3) = Ok (Inr 3, s') \<and> mm_ok s' 0 vs' \<and> set vs' = {1, 2, 3})
   \<and> mm_map demo_areas (Some 0) 0x300000 0x200000 3 (Some 3) = Panic"
proof -
  have r: "ROUNDDOWN 0x300010 PGSIZE = 0x300000" "ROUNDUP (0x300010 + 0x20) PGSIZE = 0x301000"
    "ROUNDDOWN 0x300000 PGSIZE = 0x300000" "ROUNDUP (0x300000 + 0x200000) PGSIZE = 0x500000"
    by (simp_all add: ROUNDDOWN_def ROUNDUP_def PGSIZE_def)
  have u: "USER_ACCESS 0x300000 0x301000" "USER_ACCESS 0x300000 0x500000"
    by (simp_all add: USER_ACCESS_def USERBASE_def USERTOP_def)
  have n: "\<not> (\<exists>w \<in> set [1, 2]. in_vma demo_areas w 0x300000)" by (simp add: in_vma_def demo_areas_def)
  have "\<exists>s' vs'. mm_map demo_areas (Some 0) 0x300010 0x20 3 (Some 3) = Ok (Inr 3, s') \<and> mm_ok s' 0 vs' \<and> set vs' = insert 3 (set [1, 2])"
    using mm_map_cases [OF demo_areas_ok _ r(1,2) [symmetric], of "Some 3" 3] u(1) n by (auto simp: demo_areas_def)
  moreover have "mm_map demo_areas (Some 0) 0x300000 0x200000 3 (Some 3) = Panic"
    using mm_map_cases [OF demo_areas_ok _ r(3,4) [symmetric], of "Some 3" 3] u(2) n by (auto simp: demo_areas_def)
  ultimately show ?thesis by (auto simp: insert_commute)
qed

text \<open>C21: \<open>user_mem_check\<close> for a process returns, and accepts a range exactly when it lies in user memory and every
  byte of it is in an area that allows the access (for writing, not in the lowest page of a stack).\<close>

theorem user_mem_check_exact:
  assumes "mm_ok s m vs"
  shows "\<exists>ok s'. user_mem_check s (Some m) addr len write = Ok (ok, s') \<and> mm_ok s' m vs
    \<and> (ok \<longleftrightarrow> USER_ACCESS addr (addr + len)
          \<and> (\<forall>x. addr \<le> x \<and> x < addr + len \<longrightarrow> (\<exists>v \<in> set vs. permits s v x write)))"
proof (cases "USER_ACCESS addr (addr + len)")
  case True
  then show ?thesis using check_loop_ok [OF assms, of addr "addr + len" "write"]
    by (auto simp: user_mem_check_def run_loop_def all_permitted_def)
next
  case False
  then show ?thesis using assms by (intro exI [of _ False] exI [of _ s]) (simp add: user_mem_check_def)
qed

theorem user_mem_check_exact_witness:
  "(\<exists>s'. user_mem_check demo_areas (Some 0) 0x200010 0x10 True = Ok (True, s'))
   \<and> (\<exists>s'. user_mem_check demo_areas (Some 0) 0x400010 0x10 True = Ok (False, s'))"
proof -
  have u: "USER_ACCESS 0x200010 (0x200010 + 0x10)" by (simp add: USER_ACCESS_def USERBASE_def USERTOP_def)
  have p: "permits demo_areas 1 x True" if "0x200010 \<le> x" "x < 0x200010 + 0x10" for x
    using that less_trans [of x "0x200020" "0x201000"] order_trans [of "0x200000" "0x200010" x]
    by (simp add: permits_def in_vma_def demo_areas_def VM_WRITE_def VM_STACK_def)
  have n: "\<not> (\<exists>v \<in> set [1, 2]. permits demo_areas v 0x400010 True)"
    by (simp add: permits_def in_vma_def demo_areas_def VM_WRITE_def VM_STACK_def)
  have l: "(0x400010 :: u32) \<le> 0x400010 \<and> (0x400010 :: u32) < 0x400010 + 0x10" by simp
  obtain ok1 s1 where 1: "user_mem_check demo_areas (Some 0) 0x200010 0x10 True = Ok (ok1, s1)"
    "ok1 \<longleftrightarrow> USER_ACCESS 0x200010 (0x200010 + 0x10)
       \<and> (\<forall>x. 0x200010 \<le> x \<and> x < 0x200010 + 0x10 \<longrightarrow> (\<exists>v \<in> set [1, 2]. permits demo_areas v x True))"
    using user_mem_check_exact [OF demo_areas_ok] by blast
  obtain ok2 s2 where 2: "user_mem_check demo_areas (Some 0) 0x400010 0x10 True = Ok (ok2, s2)"
    "ok2 \<longleftrightarrow> USER_ACCESS 0x400010 (0x400010 + 0x10)
       \<and> (\<forall>x. 0x400010 \<le> x \<and> x < 0x400010 + 0x10 \<longrightarrow> (\<exists>v \<in> set [1, 2]. permits demo_areas v x True))"
    using user_mem_check_exact [OF demo_areas_ok] by blast
  have "ok1" using 1(2) u p by (meson list.set_intros(1))
  moreover have "\<not> ok2" using 2(2) n l by blast
  ultimately show ?thesis using 1(1) 2(1) by simp
qed

end
