(* ===== verification/Page_Fault.thy ===== *)
theory Page_Fault
  imports Vma_List
begin

text \<open>
  The page fault handler \<open>do_pgfault\<close>: what it refuses, the page it allocates on a first access and the
  page it brings back from the swap area.
\<close>

section \<open>What the page tables do not depend on\<close>

lemma mm_fields [simp]:
  "has_tab (upd_mm s m f) = has_tab s" "has_tab (s\<lparr>pgfault_num := n\<rparr>) = has_tab s"
  "tab (upd_mm s m f) = tab s" "tab (s\<lparr>pgfault_num := n\<rparr>) = tab s"
  "held (upd_mm s m f) = held s" "held (s\<lparr>pgfault_num := n\<rparr>) = held s"
  by (simp_all add: fun_eq_iff has_tab_def tab_def held_def)

lemma mm_fields_tables [simp]:
  "tables (upd_mm s m f) = tables s" "tables (s\<lparr>pgfault_num := n\<rparr>) = tables s"
  "pte (upd_mm s m f) = pte s" "pte (s\<lparr>pgfault_num := n\<rparr>) = pte s"
  by (simp_all add: fun_eq_iff tables_def pte_def)

lemma mm_fields_space [simp]:
  "space_ok (upd_mm s m f) pd = space_ok s pd" "space_ok (s\<lparr>pgfault_num := n\<rparr>) pd = space_ok s pd"
  "unref (upd_mm s m f) = unref s" "unref (s\<lparr>pgfault_num := n\<rparr>) = unref s"
  "tlb_ok (upd_mm s m f) pd = tlb_ok s pd" "tlb_ok (s\<lparr>pgfault_num := n\<rparr>) pd = tlb_ok s pd"
  by (simp_all add: space_ok_def tables_ok_def unref_def tlb_ok_def) (simp_all add: upd_mm_def)

lemma upd_mm_more [simp]:
  "pgfault_num (upd_mm s m f) = pgfault_num s" "max_swap_offset (upd_mm s m f) = max_swap_offset s"
  "swap_disk (upd_mm s m f) = swap_disk s" "ide_ok (upd_mm s m f) = ide_ok s" "pra_list (upd_mm s m f) = pra_list s"
  by (simp_all add: upd_mm_def)

lemma page_of_address:
  assumes "a < USERTOP"
  shows "upage (ROUNDDOWN a PGSIZE) = upage a" and "ROUNDDOWN a PGSIZE < USERTOP" and "aligned (ROUNDDOWN a PGSIZE)"
proof -
  have u: "unat (ROUNDDOWN a PGSIZE) = 4096 * (unat a div 4096)"
    using unat_ROUNDDOWN [of a PGSIZE] by (simp add: PGSIZE_def minus_mod_eq_mult_div)
  then show "upage (ROUNDDOWN a PGSIZE) = upage a" by (simp add: upage_unat)
  have "unat (ROUNDDOWN a PGSIZE) \<le> unat a" by (rule ROUNDDOWN_le)
  then show "ROUNDDOWN a PGSIZE < USERTOP" using assms by (simp add: word_less_nat_alt)
  show "aligned (ROUNDDOWN a PGSIZE)" using u by (simp add: aligned_unat)
qed

section \<open>The handler\<close>

text \<open>Whether the area's flags allow the access that the error code describes.\<close>

definition fault_allowed :: "u32 \<Rightarrow> u32 \<Rightarrow> bool" where
  "fault_allowed fl code \<longleftrightarrow>
     (if code AND 3 = 0 then fl AND (VM_READ OR VM_EXEC) \<noteq> 0 else code AND 3 \<noteq> 1 \<and> fl AND VM_WRITE \<noteq> 0)"

definition user_perm :: "u32 \<Rightarrow> u32" where
  "user_perm fl = (if fl AND VM_WRITE \<noteq> 0 then PTE_U OR PTE_W else PTE_U)"

lemma fault_perm_less: "user_perm fl < PGSIZE"
  by (simp add: user_perm_def PTE_U_def PTE_W_def PGSIZE_def)

lemma do_pgfault_start:
  assumes ok: "mm_ok s m vs" and f: "find (\<lambda>v. in_vma s v addr) vs = r"
  defines "s1 \<equiv> (case r of None \<Rightarrow> s | Some v \<Rightarrow> upd_mm s m (\<lambda>x. x\<lparr>mmap_cache := Some v\<rparr>))\<lparr>pgfault_num := pgfault_num s + 1\<rparr>"
  shows "do_pgfault s (Some m) code addr =
    (case r of None \<Rightarrow> Ok (Inl E_INVAL, s1) | Some v \<Rightarrow>
       if \<not> fault_allowed (vm_flags (vmas s v)) code then Ok (Inl E_INVAL, s1)
       else let perm = user_perm (vm_flags (vmas s v)); la = ROUNDDOWN addr PGSIZE in
         (case pgdir (mms s m) of None \<Rightarrow> Panic | Some pd \<Rightarrow>
            res_bind (get_pte s1 pd la True) (\<lambda>(ptep, s2).
            case ptep of None \<Rightarrow> Ok (Inl E_NO_MEM, s2) | Some a \<Rightarrow>
            if rd s2 a = 0 then
              res_bind (pgdir_alloc_page s2 pd la perm) (\<lambda>(p, s3).
              Ok (case p of None \<Rightarrow> Inl E_NO_MEM | Some _ \<Rightarrow> Inr (), s3))
            else if rd s2 a AND PTE_P \<noteq> 0 then Panic
            else if \<not> swap_init_ok s2 then Ok (Inl E_NO_MEM, s2)
            else
              res_bind (swap_in s2 m la) (\<lambda>(page, s3).
              res_bind (page_insert s3 pd page la perm) (\<lambda>(_, s4).
              res_bind (fifo_map_swappable s4 m page) (\<lambda>s5.
              Ok (Inr (), upd_phys s5 page (\<lambda>pg. pg\<lparr>pra_vaddr := la\<rparr>))))))))"
proof (cases r)
  case None
  then show ?thesis using find_vma_ok [OF ok f [symmetric]] by (simp add: do_pgfault_def s1_def)
next
  case (Some v)
  have "in_vma s v addr" using f Some by (auto simp: find_Some_iff)
  then have st: "\<not> addr < vstart s v" by (auto simp: in_vma_def)
  have "pgdir (mms s1 m) = pgdir (mms s m)" "vmas s1 = vmas s" using Some by (simp_all add: s1_def)
  then show ?thesis
    using find_vma_ok [OF ok f [symmetric]] Some st
    unfolding do_pgfault_def fault_allowed_def user_perm_def
    by (cases "pgdir (mms s m)") (simp_all add: s1_def Let_def)
qed

lemma get_pte_table:
  assumes ok: "space_ok s pd" and un: "unref s" and la: "la < USERTOP" and fr: "free s \<noteq> {}"
  shows "\<exists>s'. get_pte s pd la True = Ok (Some (tab s' pd (unat (PDX la)), unat (PTX la)), s') \<and> same_pages s s' \<and> space_ok s' pd
    \<and> unref s' \<and> has_tab s' pd (unat (PDX la)) \<and> rd s' (tab s' pd (unat (PDX la)), unat (PTX la)) = pte s pd (upage la)
    \<and> (\<forall>v < UPAGES. pte s' pd v = pte s pd v) \<and> free s' \<subseteq> free s \<and> card (free s) \<le> Suc (card (free s'))
    \<and> (tlb_ok s pd \<longrightarrow> tlb_ok s' pd) \<and> (has_tab s pd (unat (PDX la)) \<longrightarrow> s' = s)"
proof -
  obtain r s' where g: "get_pte s pd la True = Ok (r, s')" "same_pages s s'" "space_ok s' pd"
    "\<forall>v < UPAGES. pte s' pd v = pte s pd v" "free s' \<subseteq> free s" "\<forall>q \<in> free s'. refs s' q = refs s q"
    "\<exists>t. free s \<subseteq> insert t (free s')" "has_tab s pd (unat (PDX la)) \<longrightarrow> s' = s"
    "case r of None \<Rightarrow> free s = {} | Some a \<Rightarrow> a = (tab s' pd (unat (PDX la)), unat (PTX la)) \<and> has_tab s' pd (unat (PDX la))"
    using get_pte_ok [OF ok la] fr by blast
  obtain a where r: "r = Some a" "a = (tab s' pd (unat (PDX la)), unat (PTX la))" "has_tab s' pd (unat (PDX la))"
    using g(9) fr by (cases r) auto
  note ua = user_address [OF la]
  have rd: "rd s' a = pte s' pd (upage la)" using r(2,3) ua by (simp add: rd_def pte_def)
  have fin: "finite (free s')"
    using finite_subset [OF free_pages_usable [OF space_inv [OF g(3)]]] by (simp add: usable_pages_def)
  obtain t where "free s \<subseteq> insert t (free s')" using g(7) by blast
  then have "card (free s) \<le> card (insert t (free s'))" using fin by (intro card_mono) simp_all
  also have "\<dots> \<le> Suc (card (free s'))" using fin by (simp add: card_insert_if)
  finally have cd: "card (free s) \<le> Suc (card (free s'))" .
  have "unref s'" using un g(5,6) by (auto simp: unref_def)
  moreover have "tlb_ok s pd \<longrightarrow> tlb_ok s' pd" using tlb_ok_same [OF _ g(2)] g(4) by blast
  ultimately show ?thesis using g(1-5,8) r ua(2) rd cd by auto
qed

lemma pgfault_first_access:
  assumes ok: "mm_ok s m vs" and v: "v \<in> set vs" "in_vma s v addr" and al: "fault_allowed (vm_flags (vmas s v)) code"
    and pd: "pgdir (mms s m) = Some pd" and sp: "space_ok s pd" and un: "unref s" and la: "addr < USERTOP"
    and new: "pte s pd (upage addr) = 0" and room: "3 \<le> card (free s)"
    and sm: "\<And>k. swap_init_ok s \<Longrightarrow> check_mm_struct s = Some k \<Longrightarrow> sm_priv (mms s k)"
  shows "\<exists>p s'. do_pgfault s (Some m) code addr = Ok (Inr (), s') \<and> p \<in> free s \<and> p \<notin> free s' \<and> refs s' p = 1
    \<and> (\<forall>w < UPAGES. pte s' pd w =
          (if w = upage addr then page2pa p OR PTE_P OR user_perm (vm_flags (vmas s v)) else pte s pd w))
    \<and> space_ok s' pd \<and> unref s' \<and> (tlb_ok s pd \<longrightarrow> tlb_ok s' pd)"
proof -
  have "areas_ok s vs" using ok by (simp add: mm_ok_def)
  then have r: "find (\<lambda>v. in_vma s v addr) vs = Some v" using find_area v by blast
  define s1 where "s1 = (upd_mm s m (\<lambda>x. x\<lparr>mmap_cache := Some v\<rparr>))\<lparr>pgfault_num := pgfault_num s + 1\<rparr>"
  let ?la = "ROUNDDOWN addr PGSIZE" and ?perm = "user_perm (vm_flags (vmas s v))"
  note pa = page_of_address [OF la]
  have k1: "space_ok s1 pd" "unref s1" "free s1 = free s" "pte s1 = pte s" "tlb_ok s1 pd = tlb_ok s pd"
    using sp un by (simp_all add: s1_def)
  have ne: "free s1 \<noteq> {}" using room k1(3) by auto
  let ?a = "\<lambda>s'. (tab s' pd (unat (PDX ?la)), unat (PTX ?la))"
  obtain s2 where g: "get_pte s1 pd ?la True = Ok (Some (?a s2), s2)" "same_pages s1 s2" "space_ok s2 pd" "unref s2"
    "rd s2 (?a s2) = pte s1 pd (upage ?la)" "\<forall>v < UPAGES. pte s2 pd v = pte s1 pd v" "free s2 \<subseteq> free s1"
    "card (free s1) \<le> Suc (card (free s2))" "tlb_ok s1 pd \<longrightarrow> tlb_ok s2 pd"
    using get_pte_table [OF k1(1,2) pa(2) ne] by blast
  have rd0: "rd s2 (?a s2) = 0" using g(5) new pa(1) k1(4) by simp
  have room2: "2 \<le> card (free s2)" using g(8) room k1(3) by simp
  have old: "\<not> mapped (pte s2 pd (upage ?la))"
    using g(6) user_address(2) [OF pa(2)] new pa(1) k1(4) by (simp add: mapped_def)
  have sm2: "sm_priv (mms s2 k)" if "swap_init_ok s2" "check_mm_struct s2 = Some k" for k
    using sm that same_pages_fields(5,6,7) [OF g(2)] by (auto simp: s1_def)
  obtain r3 s3 where a: "pgdir_alloc_page s2 pd ?la ?perm = Ok (r3, s3)" "space_ok s3 pd" "unref s3" "tlb_ok s2 pd \<longrightarrow> tlb_ok s3 pd"
    "case r3 of
         None \<Rightarrow> card (free s2) \<le> 1 \<and> free s3 = free s2 \<and> (\<forall>w < UPAGES. pte s3 pd w = pte s2 pd w)
       | Some p \<Rightarrow> p \<in> free s2 \<and> p \<notin> free s3 \<and> refs s3 p = 1
           \<and> (\<forall>w < UPAGES. pte s3 pd w = (if w = upage ?la then page2pa p OR PTE_P OR ?perm else pte s2 pd w))"
    using pgdir_alloc_page_ok [OF g(3,4) pa(2) fault_perm_less room2 sm2 old] by blast
  obtain p where p: "r3 = Some p" "p \<in> free s2" "p \<notin> free s3" "refs s3 p = 1"
    "\<forall>w < UPAGES. pte s3 pd w = (if w = upage ?la then page2pa p OR PTE_P OR ?perm else pte s2 pd w)"
    using a(5) room2 by (cases r3) auto
  have "do_pgfault s (Some m) code addr = Ok (Inr (), s3)"
    using do_pgfault_start [OF ok r, of code] al pd g(1) rd0 a(1) p(1) by (simp add: s1_def [symmetric] Let_def)
  then show ?thesis
    using p(2-5) a(2-4) g(6,7,9) k1(3-5) pa(1)
    by - (rule exI [of _ p], rule exI [of _ s3], auto)
qed



section \<open>Properties of the page fault handler\<close>

lemma demo_areas_space:
  "space_ok demo_areas 0" "unref demo_areas" "tlb_ok demo_areas 0" "free demo_areas = {4, 5, 6}" "pte demo_areas = pte demo_vm"
  "pgdir (mms demo_areas 0) = Some 0" "swap_init_ok demo_areas = False"
proof -
  have t: "has_tab demo_areas = has_tab demo_vm" "tab demo_areas = tab demo_vm" "held demo_areas = held demo_vm"
    by (simp_all add: fun_eq_iff has_tab_def tab_def held_def demo_areas_def)
  have "tables demo_areas = tables demo_vm" by (simp add: fun_eq_iff tables_def t)
  moreover show p: "pte demo_areas = pte demo_vm" by (simp add: fun_eq_iff pte_def t) (simp add: demo_areas_def)
  ultimately show "space_ok demo_areas 0"
    using demo_spaces(1) t by (simp add: space_ok_def tables_ok_def) (simp add: demo_areas_def)
  show "free demo_areas = {4, 5, 6}" using demo_vm_phys(2) by (simp add: demo_areas_def)
  show "unref demo_areas" using demo_spaces(4) by (simp add: unref_def demo_areas_def)
  show "tlb_ok demo_areas 0" using demo_spaces(5) p by (simp add: tlb_ok_def demo_areas_def)
  have "mms demo_vm 0 = demo_mm" by (simp add: demo_vm_def set_page_ref_def upd_phys_def demo_vm0_def)
  then show "pgdir (mms demo_areas 0) = Some 0" by (simp add: demo_areas_def demo_mm_def)
  show "swap_init_ok demo_areas = False" by (simp add: demo_areas_def)
qed



text \<open>C23: an allowed first access to a page of an area returns success: a free frame is mapped at the page with the
  permissions of the area and one reference, and nothing else is mapped or unmapped.\<close>

theorem pgfault_maps_page:
  assumes "mm_ok s m vs" and "v \<in> set vs" and "in_vma s v addr" and "fault_allowed (vm_flags (vmas s v)) code"
    and "pgdir (mms s m) = Some pd" and "space_ok s pd" and "tlb_ok s pd" and "unref s" and "addr < USERTOP"
    and "pte s pd (upage addr) = 0" and "3 \<le> card (free s)"
    and "\<forall>k. swap_init_ok s \<and> check_mm_struct s = Some k \<longrightarrow> sm_priv (mms s k)"
  shows "\<exists>p s'. do_pgfault s (Some m) code addr = Ok (Inr (), s') \<and> p \<in> free s \<and> p \<notin> free s' \<and> refs s' p = 1
    \<and> (\<forall>w < UPAGES. pte s' pd w =
          (if w = upage addr then page2pa p OR PTE_P OR user_perm (vm_flags (vmas s v)) else pte s pd w))
    \<and> space_ok s' pd \<and> tlb_ok s' pd"
  using pgfault_first_access [OF assms(1-6,8-11)] assms(7,12) by blast

theorem pgfault_maps_page_witness:
  "\<exists>p s'. do_pgfault demo_areas (Some 0) 0 0x400010 = Ok (Inr (), s') \<and> p \<in> {4, 5, 6} \<and> refs s' p = 1
     \<and> pte s' 0 1024 = page2pa p OR PTE_P OR PTE_U \<and> pte s' 0 512 = 0x2007"
proof -
  have in2: "in_vma demo_areas 2 0x400010" and fl: "vm_flags (vmas demo_areas 2) = 1"
    by (simp_all add: in_vma_def demo_areas_def)
  have ok: "fault_allowed 1 0" and up: "user_perm 1 = PTE_U"
    by (simp_all add: fault_allowed_def user_perm_def VM_READ_def VM_EXEC_def VM_WRITE_def)
  have pg: "upage 0x400010 = 1024" by (simp add: unat_PPN)
  have z: "pte demo_areas 0 (upage 0x400010) = 0" by (simp add: pg demo_areas_space(5) demo_pte)
  have lt: "0x400010 < USERTOP" by (simp add: USERTOP_def)
  have u: "512 < UPAGES" "1024 < UPAGES" by (simp_all add: UPAGES_def UDIR_def)
  have "2 \<in> set [1, 2 :: nat]" "3 \<le> card (free demo_areas)" by (simp_all add: demo_areas_space(4))
  then obtain p s' where s': "do_pgfault demo_areas (Some 0) 0 0x400010 = Ok (Inr (), s')" "p \<in> free demo_areas" "refs s' p = 1"
    "\<forall>w < UPAGES. pte s' 0 w = (if w = 1024 then page2pa p OR PTE_P OR PTE_U else pte demo_areas 0 w)"
    using pgfault_maps_page [OF demo_areas_ok _ in2 _ demo_areas_space(6,1,3,2) lt z, of 0] ok demo_areas_space(7)
    unfolding fl up pg by blast
  have "pte s' 0 1024 = page2pa p OR PTE_P OR PTE_U" "pte s' 0 512 = 0x2007"
    using s'(4) u by (simp_all add: demo_areas_space(5) demo_pte)
  then show ?thesis using s'(1-3) demo_areas_space(4) by auto
qed





end
