(* ===== verification/Bitmap.thy ===== *)
theory Bitmap
  imports Prelude
begin

text \<open>
  The free map of \<open>kern/fs/sfs/bitmap.c\<close>: an array of 32-bit words in which a set bit is a free
  block. Bits past \<open>nbits\<close> in the last word are kept clear. The \<open>kmalloc\<close> answers of
  \<open>bitmap_create\<close> are arguments; the objects it gives back with \<open>kfree\<close> are part of its result.

  The locale \<open>block_set\<close> is what the file system relies on: an allocator of block numbers over a
  set of free ones, which hands out the least.
\<close>

unbundle bit_operations_syntax

record bitmap =
  nbits :: u32
  nwords :: u32
  words :: "u32 list"

definition WORD_BITS :: u32 where "WORD_BITS = 32"

text \<open>The loop of \<open>bitmap_create\<close> that marks the leftover bits in use.\<close>

function clear_leftover :: "u32 \<Rightarrow> u32 \<Rightarrow> u32" where
  "clear_leftover w overbits =
     (if overbits < WORD_BITS then clear_leftover (w XOR push_bit (unat overbits) 1) (overbits + 1) else w)"
  by pat_completeness auto
termination
proof (relation "measure (\<lambda>(w, k). 32 - unat k)")
  show "((w XOR push_bit (unat k) 1, k + 1), w, k) \<in> measure (\<lambda>(w, k). 32 - unat k)" if "k < WORD_BITS" for w k :: u32
  proof -
    have "unat k < 32" using that by (simp add: WORD_BITS_def word_less_nat_alt)
    then show ?thesis by (simp add: unat_word_ariths)
  qed
qed simp

definition bitmap_create :: "u32 \<Rightarrow> nat option \<Rightarrow> nat option \<Rightarrow> (bitmap option \<times> nat list) res" where
  "bitmap_create n m_bitmap m_map =
     assert_c (n \<noteq> 0 \<and> n + WORD_BITS > n)
       (case m_bitmap of None \<Rightarrow> Ok (None, [])
        | Some b \<Rightarrow>
          (let nw = ROUNDUP_DIV n WORD_BITS in
           case m_map of None \<Rightarrow> Ok (None, [b])
           | Some _ \<Rightarrow>
             (let ws = replicate (unat nw) (- 1) in
              if n \<noteq> nw * WORD_BITS then
                (let ix = nw - 1; overbits = n - ix * WORD_BITS in
                 assert_c (n div WORD_BITS = ix)
                 (assert_c (overbits > 0 \<and> overbits < WORD_BITS)
                   (Ok (Some \<lparr>nbits = n, nwords = nw, words = ws[unat ix := clear_leftover (ws ! unat ix) overbits]\<rparr>, []))))
              else Ok (Some \<lparr>nbits = n, nwords = nw, words = ws\<rparr>, []))))"

text \<open>The inner loop of \<open>bitmap_alloc\<close>: the first set bit of a word from \<open>offset\<close> on.\<close>

function first_set :: "u32 \<Rightarrow> u32 \<Rightarrow> u32 option" where
  "first_set w offset =
     (if offset < WORD_BITS then
        if w AND push_bit (unat offset) 1 \<noteq> 0 then Some offset else first_set w (offset + 1)
      else None)"
  by pat_completeness auto
termination
proof (relation "measure (\<lambda>(w, k). 32 - unat k)")
  show "((w, k + 1), w, k) \<in> measure (\<lambda>(w, k). 32 - unat k)" if "k < WORD_BITS" for w k :: u32
  proof -
    have "unat k < 32" using that by (simp add: WORD_BITS_def word_less_nat_alt)
    then show ?thesis by (simp add: unat_word_ariths)
  qed
qed simp

text \<open>The loop over the words, and \<open>bitmap_alloc\<close>: the error or the index, and the bitmap.\<close>

function bitmap_alloc_loop :: "bitmap \<Rightarrow> u32 \<Rightarrow> ((errno + u32) \<times> bitmap) res" where
  "bitmap_alloc_loop b ix =
     (if ix < nwords b then
        (let w = words b ! unat ix in
         if w \<noteq> 0 then
           (case first_set w 0 of
              Some offset \<Rightarrow> Ok (Inr (ix * WORD_BITS + offset),
                 b\<lparr>words := (words b)[unat ix := w XOR push_bit (unat offset) 1]\<rparr>)
            | None \<Rightarrow> Panic)
         else bitmap_alloc_loop b (ix + 1))
      else Ok (Inl E_NO_MEM, b))"
  by pat_completeness auto
termination
proof (relation "measure (\<lambda>(b, k). unat (nwords b) - unat k)")
  show "((b, k + 1), b, k) \<in> measure (\<lambda>(b, k). unat (nwords b) - unat k)" if "k < nwords b" for b and k :: u32
  proof -
    have "unat k < unat (nwords b)" using that by (simp add: word_less_nat_alt)
    moreover have "unat (nwords b) < 2 ^ 32" by (rule unat_u32_less)
    ultimately show ?thesis by (simp add: unat_word_ariths)
  qed
qed simp

declare clear_leftover.simps [simp del] first_set.simps [simp del] bitmap_alloc_loop.simps [simp del]

definition bitmap_alloc :: "bitmap \<Rightarrow> ((errno + u32) \<times> bitmap) res" where
  "bitmap_alloc b = bitmap_alloc_loop b 0"

definition bitmap_translate :: "bitmap \<Rightarrow> u32 \<Rightarrow> (u32 \<times> u32) res" where
  "bitmap_translate b index =
     assert_c (index < nbits b) (Ok (index div WORD_BITS, push_bit (unat (index mod WORD_BITS)) 1))"

definition bitmap_test :: "bitmap \<Rightarrow> u32 \<Rightarrow> bool res" where
  "bitmap_test b index = res_bind (bitmap_translate b index) (\<lambda>(ix, mask). Ok (words b ! unat ix AND mask \<noteq> 0))"

definition bitmap_free :: "bitmap \<Rightarrow> u32 \<Rightarrow> bitmap res" where
  "bitmap_free b index = res_bind (bitmap_translate b index) (\<lambda>(ix, mask).
     assert_c (words b ! unat ix AND mask = 0)
       (Ok (b\<lparr>words := (words b)[unat ix := words b ! unat ix OR mask]\<rparr>)))"

text \<open>\<open>bitmap_getdata\<close>: the array and its length in bytes.\<close>

definition bitmap_getdata :: "bitmap \<Rightarrow> u32 list \<times> u32" where
  "bitmap_getdata b = (words b, 4 * nwords b)"

section \<open>The set of free bits\<close>

definition word_bit :: "u32 list \<Rightarrow> nat \<Rightarrow> bool" where
  "word_bit ws i \<longleftrightarrow> bit (ws ! (i div 32)) (i mod 32)"

definition free_bits :: "bitmap \<Rightarrow> nat set" where
  "free_bits b = {i. i < 32 * length (words b) \<and> word_bit (words b) i}"

definition bitmap_ok :: "bitmap \<Rightarrow> bool" where
  "bitmap_ok b \<longleftrightarrow> length (words b) = unat (nwords b) \<and> unat (nbits b) \<le> 32 * unat (nwords b) \<and>
     32 * unat (nwords b) < 2 ^ 32 \<and> free_bits b \<subseteq> {..<unat (nbits b)}"

lemma free_bits_finite [simp]: "finite (free_bits b)"
  by (simp add: free_bits_def)

lemma mask_xor: "n < 32 \<Longrightarrow> bit (w XOR 2 ^ n :: u32) i \<longleftrightarrow> bit w i \<noteq> (i = n)"
  by (auto simp: bit_xor_iff bit_exp_iff)

lemma mask_or: "n < 32 \<Longrightarrow> bit (w OR 2 ^ n :: u32) i \<longleftrightarrow> bit w i \<or> i = n"
  by (auto simp: bit_or_iff bit_exp_iff)

lemma mask_bit: "n < 32 \<Longrightarrow> (w AND 2 ^ n = (0 :: u32)) \<longleftrightarrow> \<not> bit w n"
proof
  assume n: "n < 32" and "w AND 2 ^ n = 0"
  then have "\<not> bit (w AND 2 ^ n) n" by simp
  then show "\<not> bit w n" using n by (simp add: bit_and_iff bit_exp_iff)
next
  assume n: "n < 32" and "\<not> bit w n"
  then show "w AND 2 ^ n = 0" by (intro bit_word_eqI) (auto simp: bit_and_iff bit_exp_iff)
qed

lemma index_split: "i div 32 = j div 32 \<and> i mod 32 = j mod 32 \<longleftrightarrow> i = (j :: nat)"
  by (metis div_mult_mod_eq)

lemma free_bits_update:
  assumes k: "k < 32 * length (words b)"
    and w: "\<forall>i<32. bit w i \<longleftrightarrow> (if i = k mod 32 then v else bit (words b ! (k div 32)) i)"
  shows "free_bits (b\<lparr>words := (words b)[k div 32 := w]\<rparr>) = (if v then insert k (free_bits b) else free_bits b - {k})"
proof -
  have kd: "k div 32 < length (words b)" using k by simp
  have "word_bit ((words b)[k div 32 := w]) i \<longleftrightarrow> (if i = k then v else word_bit (words b) i)" for i
  proof (cases "i div 32 = k div 32")
    case True
    then have "word_bit ((words b)[k div 32 := w]) i = bit w (i mod 32)"
      using kd by (simp add: word_bit_def)
    also have "\<dots> = (if i mod 32 = k mod 32 then v else bit (words b ! (k div 32)) (i mod 32))"
      using w by simp
    also have "(i mod 32 = k mod 32) = (i = k)" using True index_split by blast
    finally show ?thesis using True by (simp add: word_bit_def)
  next
    case False
    then show ?thesis by (auto simp: word_bit_def)
  qed
  then show ?thesis using k by (auto simp: free_bits_def)
qed

section \<open>Searching\<close>

lemma first_set_spec: "first_set w k = Some n \<Longrightarrow>
   k \<le> n \<and> unat n < 32 \<and> bit w (unat n) \<and> (\<forall>i. unat k \<le> i \<and> i < unat n \<longrightarrow> \<not> bit w i)"
proof (induction w k rule: first_set.induct)
  case (1 w k)
  have lt: "k < WORD_BITS" using 1(2) by (subst (asm) first_set.simps) (simp split: if_splits)
  then have k32: "unat k < 32" by (simp add: WORD_BITS_def word_less_nat_alt)
  show ?case
  proof (cases "bit w (unat k)")
    case True
    then have "first_set w k = Some k" using lt k32 by (subst first_set.simps) (simp add: mask_bit)
    then show ?thesis using 1(2) True k32 by auto
  next
    case False
    then have m: "w AND push_bit (unat k) 1 = 0" using k32 by (simp add: mask_bit)
    then have "first_set w (k + 1) = Some n" using 1(2) lt by (subst (asm) first_set.simps) simp
    then have ih: "k + 1 \<le> n \<and> unat n < 32 \<and> bit w (unat n) \<and> (\<forall>i. unat (k + 1) \<le> i \<and> i < unat n \<longrightarrow> \<not> bit w i)"
      using 1(1) lt m by blast
    have k1: "unat (k + 1) = unat k + 1" using k32 by (simp add: unat_word_ariths)
    have kn: "k \<le> n" using ih k1 by (simp add: word_le_nat_alt)
    have "\<not> bit w i" if i: "unat k \<le> i" "i < unat n" for i
      using False ih k1 i by (cases "i = unat k") auto
    then show ?thesis using ih kn by blast
  qed
qed

lemma first_set_None: "first_set w k = None \<Longrightarrow> unat k \<le> i \<Longrightarrow> i < 32 \<Longrightarrow> \<not> bit w i"
proof (induction w k rule: first_set.induct)
  case (1 w k)
  have lt: "k < WORD_BITS" using 1(3,4) by (simp add: WORD_BITS_def word_less_nat_alt)
  have k32: "unat k < 32" using 1(3,4) by simp
  have f: "first_set w k = (if w AND push_bit (unat k) 1 \<noteq> 0 then Some k else first_set w (k + 1))"
    using lt by (subst first_set.simps) simp
  have m: "w AND push_bit (unat k) 1 = 0" using 1(2) f by (auto split: if_splits)
  then have nb: "\<not> bit w (unat k)" using k32 by (simp add: mask_bit)
  have k1: "unat (k + 1) = unat k + 1" using k32 by (simp add: unat_word_ariths)
  have n1: "first_set w (k + 1) = None" using 1(2) f m by simp
  show ?case
  proof (cases "i = unat k")
    case False
    then have "unat (k + 1) \<le> i" using 1(3) k1 by simp
    then show ?thesis using 1(1) lt m n1 1(4) by blast
  qed (use nb in simp)
qed

lemma first_set_nonzero: "w \<noteq> 0 \<Longrightarrow> first_set w 0 \<noteq> None"
proof
  assume "w \<noteq> 0" "first_set w 0 = None"
  then have "\<not> bit w i" if "i < 32" for i using first_set_None [of w 0 i] that by simp
  then have "w = 0" by (intro bit_word_eqI) simp
  with \<open>w \<noteq> 0\<close> show False by simp
qed

lemma bitmap_alloc_loop_spec:
  assumes "length (words b) = unat (nwords b)" and "32 * unat (nwords b) < 2 ^ 32"
    and "\<forall>i \<in> free_bits b. 32 * unat ix \<le> i"
  shows "bitmap_alloc_loop b ix =
    (if free_bits b = {} then Ok (Inl E_NO_MEM, b)
     else (let k = Min (free_bits b) in
       Ok (Inr (of_nat k), b\<lparr>words := (words b)[k div 32 := words b ! (k div 32) XOR push_bit (k mod 32) 1]\<rparr>)))"
  using assms
proof (induction b ix rule: bitmap_alloc_loop.induct)
  case (1 b ix)
  show ?case
  proof (cases "ix < nwords b")
    case False
    have "free_bits b = {}"
      using False 1(2,4) by (fastforce simp: free_bits_def word_less_nat_alt)
    then show ?thesis using False by (subst bitmap_alloc_loop.simps) simp
  next
    case True
    let ?w = "words b ! unat ix"
    have ixl: "unat ix < length (words b)" using True 1(2) by (simp add: word_less_nat_alt)
    have here: "32 * unat ix + j \<in> free_bits b \<longleftrightarrow> bit ?w j" if "j < 32" for j
      using that ixl by (auto simp: free_bits_def word_bit_def)
    show ?thesis
    proof (cases "?w = 0")
      case True0: True
      have "32 * unat (ix + 1) \<le> i" if i: "i \<in> free_bits b" for i
      proof -
        have "32 * unat ix \<le> i" using i 1(4) by blast
        moreover have "i \<noteq> 32 * unat ix + j" if "j < 32" for j using here [OF that] True0 i by auto
        moreover have "i = 32 * unat ix + (i - 32 * unat ix)" using calculation(1) by simp
        ultimately have "32 \<le> i - 32 * unat ix" by (metis not_le_imp_less)
        moreover have "unat (ix + 1) = unat ix + 1"
          using True unat_u32_less [of "nwords b"] by (simp add: unat_add_u32 word_less_nat_alt)
        ultimately show ?thesis using \<open>32 * unat ix \<le> i\<close> by simp
      qed
      then have "\<forall>i \<in> free_bits b. 32 * unat (ix + 1) \<le> i" by blast
      then show ?thesis using 1(1) [OF True refl _ 1(2,3)] True True0
        by (subst bitmap_alloc_loop.simps) simp
    next
      case False
      obtain off where off: "first_set ?w 0 = Some off" using first_set_nonzero [OF False] by blast
      note sp = first_set_spec [OF off]
      let ?k = "32 * unat ix + unat off"
      have kin: "?k \<in> free_bits b" using here sp by blast
      have kmin: "Min (free_bits b) = ?k"
      proof (rule Min_eqI)
        show "?k \<le> i" if i: "i \<in> free_bits b" for i
        proof (rule ccontr)
          assume "\<not> ?k \<le> i"
          moreover have "32 * unat ix \<le> i" using i 1(4) by blast
          ultimately have "i - 32 * unat ix < unat off" "i = 32 * unat ix + (i - 32 * unat ix)" by auto
          then show False using sp here [of "i - 32 * unat ix"] i by auto
        qed
      qed (use kin in auto)
      have idx: "ix * WORD_BITS + off = of_nat ?k"
        by (simp add: WORD_BITS_def)
      have "free_bits b \<noteq> {}" using kin by blast
      moreover have "?k div 32 = unat ix" "?k mod 32 = unat off" using sp by auto
      ultimately show ?thesis using True False off
        by (subst bitmap_alloc_loop.simps) (simp add: kmin idx Let_def)
    qed
  qed
qed

section \<open>The operations on the set\<close>

lemma bitmap_alloc_empty: "bitmap_ok b \<Longrightarrow> free_bits b = {} \<Longrightarrow> bitmap_alloc b = Ok (Inl E_NO_MEM, b)"
  by (simp add: bitmap_alloc_def bitmap_alloc_loop_spec bitmap_ok_def)

lemma bitmap_alloc_least:
  assumes ok: "bitmap_ok b" and ne: "free_bits b \<noteq> {}"
  shows "\<exists>b'. bitmap_alloc b = Ok (Inr (of_nat (Min (free_bits b))), b') \<and> bitmap_ok b' \<and>
    free_bits b' = free_bits b - {Min (free_bits b)} \<and> nbits b' = nbits b \<and> nwords b' = nwords b"
proof -
  define k where "k = Min (free_bits b)"
  define b' where "b' = b\<lparr>words := (words b)[k div 32 := words b ! (k div 32) XOR push_bit (k mod 32) 1]\<rparr>"
  have kin: "k \<in> free_bits b" using ne by (simp add: k_def)
  then have kl: "k < 32 * length (words b)" "bit (words b ! (k div 32)) (k mod 32)"
    by (simp_all add: free_bits_def word_bit_def)
  have fb: "free_bits b' = free_bits b - {k}"
    unfolding b'_def using free_bits_update [OF kl(1), of _ False] kl(2) by (auto simp: mask_xor)
  have "bitmap_alloc b = Ok (Inr (of_nat k), b')"
    using ok ne by (simp add: bitmap_alloc_def bitmap_alloc_loop_spec bitmap_ok_def k_def b'_def Let_def)
  moreover have "bitmap_ok b'" using ok fb by (auto simp: bitmap_ok_def b'_def)
  ultimately show ?thesis using fb by (auto simp: k_def b'_def)
qed

lemma translate_ok:
  assumes "bitmap_ok b" and "unat i < unat (nbits b)"
  shows "bitmap_translate b i = Ok (of_nat (unat i div 32), 2 ^ (unat i mod 32))"
    and "unat (of_nat (unat i div 32) :: u32) = unat i div 32" and "unat i < 32 * length (words b)"
proof -
  have u: "unat (i div WORD_BITS) = unat i div 32" "unat (i mod WORD_BITS) = unat i mod 32"
    by (simp_all add: WORD_BITS_def unat_div unat_mod)
  then show "bitmap_translate b i = Ok (of_nat (unat i div 32), 2 ^ (unat i mod 32))"
    using assms(2) by (simp add: bitmap_translate_def word_less_nat_alt flip: u(1))
  show "unat (of_nat (unat i div 32) :: u32) = unat i div 32" by (simp flip: u(1))
  show "unat i < 32 * length (words b)" using assms by (simp add: bitmap_ok_def)
qed

lemma bitmap_test_ok:
  assumes "bitmap_ok b" and "unat i < unat (nbits b)"
  shows "bitmap_test b i = Ok (unat i \<in> free_bits b)"
  using translate_ok [OF assms]
  by (simp add: bitmap_test_def mask_bit free_bits_def word_bit_def)

lemma bitmap_free_ok:
  assumes ok: "bitmap_ok b" and i: "unat i < unat (nbits b)" and used: "unat i \<notin> free_bits b"
  shows "\<exists>b'. bitmap_free b i = Ok b' \<and> bitmap_ok b' \<and> free_bits b' = insert (unat i) (free_bits b) \<and>
    nbits b' = nbits b \<and> nwords b' = nwords b"
proof -
  note tr = translate_ok [OF ok i]
  define b' where "b' = b\<lparr>words := (words b)[unat i div 32 := words b ! (unat i div 32) OR push_bit (unat i mod 32) 1]\<rparr>"
  have nb: "\<not> bit (words b ! (unat i div 32)) (unat i mod 32)"
    using used tr(3) by (simp add: free_bits_def word_bit_def)
  have fb: "free_bits b' = insert (unat i) (free_bits b)"
    unfolding b'_def using free_bits_update [OF tr(3), of _ True] by (auto simp: mask_or)
  have "bitmap_free b i = Ok b'" using tr nb by (simp add: bitmap_free_def mask_bit b'_def)
  moreover have "bitmap_ok b'" using ok fb i by (auto simp: bitmap_ok_def b'_def)
  ultimately show ?thesis using fb by (auto simp: b'_def)
qed

lemma bitmap_free_free:
  assumes "bitmap_ok b" and "unat i < unat (nbits b)" and "unat i \<in> free_bits b"
  shows "bitmap_free b i = Panic"
  using translate_ok [OF assms(1,2)] assms(3)
  by (simp add: bitmap_free_def mask_bit free_bits_def word_bit_def)

section \<open>Creation\<close>

lemma clear_leftover_bit:
  "bit (clear_leftover w k) i \<longleftrightarrow> (if unat k \<le> i \<and> i < 32 then \<not> bit w i else bit w i)"
proof (induction w k rule: clear_leftover.induct)
  case (1 w k)
  show ?case
  proof (cases "k < WORD_BITS")
    case True
    then have k32: "unat k < 32" by (simp add: WORD_BITS_def word_less_nat_alt)
    have k1: "unat (k + 1) = unat k + 1" using k32 by (simp add: unat_word_ariths)
    have x: "bit (w XOR push_bit (unat k) 1) i \<longleftrightarrow> bit w i \<noteq> (i = unat k)"
      using mask_xor [OF k32, of w i] by simp
    have "clear_leftover w k = clear_leftover (w XOR push_bit (unat k) 1) (k + 1)"
      using True by (subst clear_leftover.simps) simp
    then show ?thesis unfolding 1 [OF True] k1 x using 1 [OF True] k1 x k32
      by (cases "i = unat k") auto
  next
    case False
    then have "clear_leftover w k = w" by (subst clear_leftover.simps) simp
    moreover have "32 \<le> unat k" using False by (simp add: WORD_BITS_def word_less_nat_alt)
    ultimately show ?thesis by auto
  qed
qed

lemma words_for_bits:
  assumes "0 < unat n" and "unat n + 32 < 2 ^ 32"
  shows "unat (ROUNDUP_DIV n WORD_BITS) = (unat n + 31) div 32"
proof -
  have "n + WORD_BITS - 1 = n + 31" by (simp add: WORD_BITS_def)
  moreover have "unat (n + 31) = unat n + 31" using assms by (simp add: unat_add_u32)
  ultimately have "unat (n + WORD_BITS - 1) = unat n + 31" by (simp only:)
  then show ?thesis by (simp only: ROUNDUP_DIV_def unat_div) (simp add: WORD_BITS_def)
qed

text \<open>The free bits of a map of ones whose last word, number \<open>k\<close>, lost the bits from \<open>o\<close> on.\<close>

lemma leftover_free_bits:
  assumes ws: "words b = (replicate nw (- 1))[k := clear_leftover (- 1) ov]" "nw = Suc k" and ov: "unat ov < 32"
  shows "free_bits b = {..<32 * k + unat ov}"
proof -
  have "i \<in> free_bits b \<longleftrightarrow> i < 32 * k + unat ov" for i
  proof (cases "i div 32 = k")
    case True
    have "k < nw" using ws(2) by simp
    with True have "i \<in> free_bits b \<longleftrightarrow> i mod 32 < unat ov"
      by (auto simp: free_bits_def word_bit_def ws(1) clear_leftover_bit)
    moreover have "i = 32 * k + i mod 32" using True by (metis mult_div_mod_eq)
    ultimately show ?thesis by arith
  next
    case False
    then have "i \<in> free_bits b \<longleftrightarrow> i div 32 < nw"
      by (auto simp: free_bits_def word_bit_def ws(1))
    then show ?thesis using False ov ws(2) by auto
  qed
  then show ?thesis by blast
qed

lemma bitmap_create_ok:
  assumes n: "0 < unat n" "unat n + 32 < 2 ^ 32" and m: "m1 = Some a1" "m2 = Some a2"
  shows "\<exists>b. bitmap_create n m1 m2 = Ok (Some b, []) \<and> bitmap_ok b \<and> free_bits b = {..<unat n} \<and> nbits b = n"
proof -
  define nw where "nw = ROUNDUP_DIV n WORD_BITS"
  have unw: "unat nw = (unat n + 31) div 32" unfolding nw_def by (rule words_for_bits [OF n])
  have nwb: "unat n \<le> 32 * unat nw" "32 * unat nw < 2 ^ 32" "0 < unat nw" "32 * (unat nw - 1) < unat n"
    using n unw by auto
  have mul: "unat (nw * WORD_BITS) = unat nw * 32"
    using nwb(2) by (simp add: WORD_BITS_def unat_word_ariths)
  have pre: "n \<noteq> 0" using n by auto
  have "unat (n + 32) = unat n + 32" using n(2) by (simp add: unat_add_u32)
  then have pre2: "n < n + WORD_BITS" by (simp only: WORD_BITS_def word_less_nat_alt)
  show ?thesis
  proof (cases "n = nw * WORD_BITS")
    case True
    then have un: "unat n = 32 * unat nw" using mul by (simp only: mult.commute)
    let ?b = "\<lparr>nbits = n, nwords = nw, words = replicate (unat nw) (- 1)\<rparr>"
    have "bitmap_create n m1 m2 = Ok (Some ?b, [])"
      unfolding bitmap_create_def nw_def [symmetric] Let_def m using pre pre2 by (simp add: True [symmetric])
    moreover have "free_bits ?b = {..<unat n}" by (auto simp: free_bits_def word_bit_def un)
    ultimately show ?thesis using nwb by (auto simp: bitmap_ok_def)
  next
    case False
    then have ne: "unat n \<noteq> unat nw * 32" unfolding mul [symmetric] by (auto dest: unsigned_word_eqI)
    define ix where "ix = nw - 1"
    define ov where "ov = n - ix * WORD_BITS"
    have uix: "unat ix = unat nw - 1" using nwb(3) by (simp add: ix_def unat_minus_one unat_gt_0)
    then have uixm: "unat (ix * WORD_BITS) = 32 * (unat nw - 1)"
      using nwb by (simp add: WORD_BITS_def unat_word_ariths)
    then have uov: "unat ov = unat n - 32 * (unat nw - 1)"
      unfolding ov_def using nwb(4) by (simp add: unat_sub word_le_nat_alt)
    then have ovb: "0 < unat ov" "unat ov < 32" using nwb ne by auto
    have d: "n div WORD_BITS = ix"
      by (rule word_unat_eq_iff [THEN iffD2]) (use nwb ne uix in \<open>simp add: unat_div, simp add: WORD_BITS_def\<close>)
    let ?b = "\<lparr>nbits = n, nwords = nw, words = (replicate (unat nw) (- 1))[unat ix := clear_leftover (- 1) ov]\<rparr>"
    have "unat ix < unat nw" using uix nwb by simp
    moreover have "ov > 0 \<and> ov < WORD_BITS" using ovb by (simp add: WORD_BITS_def word_less_nat_alt)
    ultimately have "bitmap_create n m1 m2 = Ok (Some ?b, [])"
      unfolding bitmap_create_def nw_def [symmetric] Let_def ix_def [symmetric] ov_def [symmetric] m d
      using pre pre2 False by simp
    moreover have "unat nw = Suc (unat ix)" "32 * unat ix + unat ov = unat n" using uix uov nwb by auto
    then have "free_bits ?b = {..<unat n}" using leftover_free_bits [of ?b "unat nw" "unat ix" ov] ovb by simp
    ultimately show ?thesis using nwb by (auto simp: bitmap_ok_def)
  qed
qed

section \<open>The allocator the file system relies on\<close>

locale block_set =
  fixes alloc :: "'s \<Rightarrow> ((errno + u32) \<times> 's) res"
    and free :: "'s \<Rightarrow> u32 \<Rightarrow> 's res"
    and test :: "'s \<Rightarrow> u32 \<Rightarrow> bool res"
    and inv :: "'s \<Rightarrow> bool"
    and avail :: "'s \<Rightarrow> nat set"
    and limit :: "'s \<Rightarrow> nat"
  assumes avail_below: "inv s \<Longrightarrow> avail s \<subseteq> {..<limit s}"
    and limit_word: "inv s \<Longrightarrow> limit s < 2 ^ 32"
    and alloc_none: "inv s \<Longrightarrow> avail s = {} \<Longrightarrow> alloc s = Ok (Inl E_NO_MEM, s)"
    and alloc_some: "inv s \<Longrightarrow> avail s \<noteq> {} \<Longrightarrow> \<exists>s'. alloc s = Ok (Inr (of_nat (Min (avail s))), s') \<and>
        inv s' \<and> avail s' = avail s - {Min (avail s)} \<and> limit s' = limit s"
    and free_used: "inv s \<Longrightarrow> unat i < limit s \<Longrightarrow> unat i \<notin> avail s \<Longrightarrow>
        \<exists>s'. free s i = Ok s' \<and> inv s' \<and> avail s' = insert (unat i) (avail s) \<and> limit s' = limit s"
    and test_avail: "inv s \<Longrightarrow> unat i < limit s \<Longrightarrow> test s i = Ok (unat i \<in> avail s)"
begin

lemma avail_finite: "inv s \<Longrightarrow> finite (avail s)"
  using avail_below finite_subset by blast

text \<open>A block that is handed out was free, is in range, and is in use afterwards.\<close>

lemma alloc_gives:
  assumes inv: "inv s" and ne: "avail s \<noteq> {}"
  shows "\<exists>i s'. alloc s = Ok (Inr i, s') \<and> inv s' \<and> limit s' = limit s \<and> unat i = Min (avail s) \<and>
    unat i \<in> avail s \<and> unat i < limit s \<and> avail s' = avail s - {unat i} \<and> test s' i = Ok False"
proof -
  obtain s' where s': "alloc s = Ok (Inr (of_nat (Min (avail s))), s')" "inv s'"
      "avail s' = avail s - {Min (avail s)}" "limit s' = limit s"
    using alloc_some [OF inv ne] by blast
  have m: "Min (avail s) \<in> avail s" using Min_in [OF avail_finite [OF inv] ne] .
  then have lt: "Min (avail s) < limit s" using avail_below [OF inv] by blast
  then have u: "unat (of_nat (Min (avail s)) :: u32) = Min (avail s)"
    using limit_word [OF inv] by (simp add: unat_of_nat_u32)
  then have "test s' (of_nat (Min (avail s))) = Ok False"
    using test_avail [OF s'(2), of "of_nat (Min (avail s))"] lt s'(3,4) by simp
  then show ?thesis using s' u m lt by (intro exI [of _ "of_nat (Min (avail s))"] exI [of _ s']) simp
qed

text \<open>Giving back what was handed out restores the set.\<close>

lemma alloc_free:
  assumes inv: "inv s" and a: "alloc s = Ok (Inr i, s')"
  shows "\<exists>s''. free s' i = Ok s'' \<and> inv s'' \<and> avail s'' = avail s \<and> limit s'' = limit s"
proof -
  have ne: "avail s \<noteq> {}" using alloc_none [OF inv] a by auto
  obtain j t where g: "alloc s = Ok (Inr j, t)" "inv t" "limit t = limit s" "unat j \<in> avail s"
      "unat j < limit s" "avail t = avail s - {unat j}"
    using alloc_gives [OF inv ne] by blast
  have eq: "j = i" "t = s'" using g(1) a by simp_all
  have "unat i < limit s'" "unat i \<notin> avail s'" using g eq by simp_all
  then obtain s'' where "free s' i = Ok s''" "inv s''" "avail s'' = insert (unat i) (avail s')" "limit s'' = limit s'"
    using free_used g(2) eq by blast
  moreover have "insert (unat i) (avail s') = avail s" using g(4,6) eq by blast
  ultimately show ?thesis using g(3) eq by simp
qed

end

interpretation bm: block_set bitmap_alloc bitmap_free bitmap_test bitmap_ok free_bits "\<lambda>b. unat (nbits b)"
proof unfold_locales
  show "bitmap_ok b \<Longrightarrow> free_bits b \<subseteq> {..<unat (nbits b)}" for b by (simp add: bitmap_ok_def)
  show "bitmap_ok b \<Longrightarrow> unat (nbits b) < 2 ^ 32" for b by (rule unat_u32_less)
  show "bitmap_ok b \<Longrightarrow> free_bits b = {} \<Longrightarrow> bitmap_alloc b = Ok (Inl E_NO_MEM, b)" for b
    by (rule bitmap_alloc_empty)
  show "\<exists>b'. bitmap_alloc b = Ok (Inr (of_nat (Min (free_bits b))), b') \<and> bitmap_ok b' \<and>
      free_bits b' = free_bits b - {Min (free_bits b)} \<and> unat (nbits b') = unat (nbits b)"
    if "bitmap_ok b" "free_bits b \<noteq> {}" for b
    using bitmap_alloc_least [OF that] by auto
  show "\<exists>b'. bitmap_free b i = Ok b' \<and> bitmap_ok b' \<and> free_bits b' = insert (unat i) (free_bits b) \<and>
      unat (nbits b') = unat (nbits b)"
    if "bitmap_ok b" "unat i < unat (nbits b)" "unat i \<notin> free_bits b" for b i
    using bitmap_free_ok [OF that] by auto
  show "bitmap_ok b \<Longrightarrow> unat i < unat (nbits b) \<Longrightarrow> bitmap_test b i = Ok (unat i \<in> free_bits b)" for b i
    by (rule bitmap_test_ok)
qed

text \<open>C32: The free map as an allocator: on a well-formed map \<open>bitmap_alloc\<close> reports lack of space
  exactly when no bit is set; otherwise it hands out the least free block, takes exactly that block
  from the free ones, and \<open>bitmap_free\<close> of it restores the set of free blocks.\<close>

theorem bitmap_alloc_first_free:
  assumes "bitmap_ok b"
  shows "if free_bits b = {} then bitmap_alloc b = Ok (Inl E_NO_MEM, b)
    else \<exists>i b' b''. bitmap_alloc b = Ok (Inr i, b') \<and> bitmap_ok b' \<and> unat i = Min (free_bits b) \<and>
      free_bits b' = free_bits b - {unat i} \<and> bitmap_test b' i = Ok False \<and>
      bitmap_free b' i = Ok b'' \<and> bitmap_ok b'' \<and> free_bits b'' = free_bits b"
proof (cases "free_bits b = {}")
  case True
  then show ?thesis using bm.alloc_none [OF assms] by simp
next
  case False
  obtain i b' where a: "bitmap_alloc b = Ok (Inr i, b')" "bitmap_ok b'" "unat i = Min (free_bits b)"
      "free_bits b' = free_bits b - {unat i}" "bitmap_test b' i = Ok False"
    using bm.alloc_gives [OF assms False] by blast
  then show ?thesis using False bm.alloc_free [OF assms a(1)] by auto
qed

theorem bitmap_alloc_first_free_witness:
  "\<exists>b i b'. bitmap_create 40 (Some 0) (Some 1) = Ok (Some b, []) \<and> bitmap_alloc b = Ok (Inr i, b') \<and>
     unat i = 0 \<and> free_bits b' = {..<40} - {0}"
proof -
  obtain b where b: "bitmap_create 40 (Some 0) (Some 1) = Ok (Some b, [])" "bitmap_ok b" "free_bits b = {..<40}"
    using bitmap_create_ok [of 40 "Some 0" 0 "Some 1" 1] by auto
  have "Min {..<40 :: nat} = 0" "{..<40 :: nat} \<noteq> {}" by (auto intro!: Min_eqI simp: lessThan_empty_iff)
  then obtain i b' where "bitmap_alloc b = Ok (Inr i, b')" "unat i = 0" "free_bits b' = {..<40} - {0}"
    using bitmap_alloc_first_free [OF b(2)] unfolding b(3) by auto
  then show ?thesis using b(1) by blast
qed

end
