(* ===== verification/Iobuf.thy ===== *)
theory Iobuf
  imports Prelude
begin

text \<open>
  Transfer buffers of \<open>kern/fs/iobuf.c\<close>. The memory that an \<open>iobuf\<close> describes is the byte list
  \<open>io_mem\<close>; \<open>io_base\<close> is the position in it that the pointer of the same name has reached. Copies
  between such a buffer and another block of memory move values, since the kernel's buffers never
  overlap.
\<close>

record iobuf =
  io_mem :: "u8 list"
  io_base :: nat
  io_offset :: u32
  io_len :: u32
  io_resid :: u32

definition iobuf_init :: "u8 list \<Rightarrow> u32 \<Rightarrow> u32 \<Rightarrow> iobuf" where
  "iobuf_init base len offset = \<lparr>io_mem = base, io_base = 0, io_offset = offset, io_len = len, io_resid = len\<rparr>"

definition iobuf_used :: "iobuf \<Rightarrow> u32" where
  "iobuf_used iob = io_len iob - io_resid iob"

definition iobuf_skip :: "iobuf \<Rightarrow> u32 \<Rightarrow> iobuf res" where
  "iobuf_skip iob n =
     assert_c (n \<le> io_resid iob)
       (Ok (iob\<lparr>io_base := io_base iob + unat n, io_offset := io_offset iob + n, io_resid := io_resid iob - n\<rparr>))"

text \<open>\<open>take n\<close> bytes of \<open>src\<close> from \<open>i\<close> replace those of \<open>dst\<close> from \<open>j\<close>.\<close>

definition splice :: "u8 list \<Rightarrow> nat \<Rightarrow> u8 list \<Rightarrow> u8 list" where
  "splice dst j bytes = take j dst @ bytes @ drop (j + length bytes) dst"

definition slice :: "u8 list \<Rightarrow> nat \<Rightarrow> nat \<Rightarrow> u8 list" where
  "slice src i n = take n (drop i src)"

text \<open>\<open>iobuf_move\<close> returns the error or 0, the number of bytes copied, the other block and the buffer.\<close>

definition iobuf_move :: "iobuf \<Rightarrow> u8 list \<Rightarrow> u32 \<Rightarrow> bool \<Rightarrow> ((errno + unit) \<times> u32 \<times> u8 list \<times> iobuf) res" where
  "iobuf_move iob data len m2b =
     (let alen = (if len < io_resid iob then len else io_resid iob) in
      if 0 < alen then
        (let bytes = (if m2b then slice data 0 (unat alen) else slice (io_mem iob) (io_base iob) (unat alen));
             data' = (if m2b then data else splice data 0 bytes);
             iob' = (if m2b then iob\<lparr>io_mem := splice (io_mem iob) (io_base iob) bytes\<rparr> else iob)
         in res_bind (iobuf_skip iob' alen) (\<lambda>iob''.
            Ok (if len - alen = 0 then Inr () else Inl E_NO_MEM, alen, data', iob'')))
      else Ok (if len = 0 then Inr () else Inl E_NO_MEM, alen, data, iob))"

definition iobuf_move_zeros :: "iobuf \<Rightarrow> u32 \<Rightarrow> ((errno + unit) \<times> u32 \<times> iobuf) res" where
  "iobuf_move_zeros iob len =
     (let alen = (if len < io_resid iob then len else io_resid iob) in
      if 0 < alen then
        res_bind (iobuf_skip (iob\<lparr>io_mem := splice (io_mem iob) (io_base iob) (replicate (unat alen) 0)\<rparr>) alen) (\<lambda>iob'.
        Ok (if len - alen = 0 then Inr () else Inl E_NO_MEM, alen, iob'))
      else Ok (if len = 0 then Inr () else Inl E_NO_MEM, alen, iob))"

section \<open>Slices\<close>

lemma slice_length [simp]: "i + n \<le> length xs \<Longrightarrow> length (slice xs i n) = n"
  by (simp add: slice_def)

lemma splice_length [simp]: "j + length bs \<le> length xs \<Longrightarrow> length (splice xs j bs) = length xs"
  by (simp add: splice_def)

lemma splice_nth:
  assumes "j + length bs \<le> length xs" and "i < length xs"
  shows "splice xs j bs ! i = (if j \<le> i \<and> i < j + length bs then bs ! (i - j) else xs ! i)"
  using assms by (auto simp: splice_def nth_append)

lemma slice_nth: "k < n \<Longrightarrow> i + n \<le> length xs \<Longrightarrow> slice xs i n ! k = xs ! (i + k)"
  by (simp add: slice_def add.commute)

lemma slice_splice: "j + length bs \<le> length xs \<Longrightarrow> slice (splice xs j bs) j (length bs) = bs"
  by (intro nth_equalityI) (simp_all add: slice_nth splice_nth)

lemma slice_all: "n = length xs \<Longrightarrow> slice xs 0 n = xs"
  by (simp add: slice_def)

lemma splice_all: "length bs = length xs \<Longrightarrow> splice xs 0 bs = bs"
  by (simp add: splice_def)

text \<open>What a write at \<open>j\<close> does to a slice: outside nothing, inside the written bytes.\<close>

lemma slice_splice_disjoint:
  assumes "j + length bs \<le> length xs" and "i + n \<le> length xs" and "i + n \<le> j \<or> j + length bs \<le> i"
  shows "slice (splice xs j bs) i n = slice xs i n"
  using assms by (intro nth_equalityI) (auto simp: slice_nth splice_nth)

section \<open>Moving data\<close>

lemma iobuf_skip_ok: "n \<le> io_resid iob \<Longrightarrow> iobuf_skip iob n =
   Ok (iob\<lparr>io_base := io_base iob + unat n, io_offset := io_offset iob + n, io_resid := io_resid iob - n\<rparr>)"
  by (simp add: iobuf_skip_def)

lemma iobuf_move_ok:
  assumes "n = (if len < io_resid iob then len else io_resid iob)" and "0 < n"
  shows "iobuf_move iob data len False = Ok (if n = len then Inr () else Inl E_NO_MEM, n,
      splice data 0 (slice (io_mem iob) (io_base iob) (unat n)),
      iob\<lparr>io_base := io_base iob + unat n, io_offset := io_offset iob + n, io_resid := io_resid iob - n\<rparr>)"
    and "iobuf_move iob data len True = Ok (if n = len then Inr () else Inl E_NO_MEM, n, data,
      iob\<lparr>io_mem := splice (io_mem iob) (io_base iob) (slice data 0 (unat n)),
          io_base := io_base iob + unat n, io_offset := io_offset iob + n, io_resid := io_resid iob - n\<rparr>)"
proof -
  have "n \<le> io_resid iob" using assms(1) by (auto split: if_splits)
  then show "iobuf_move iob data len False = Ok (if n = len then Inr () else Inl E_NO_MEM, n,
      splice data 0 (slice (io_mem iob) (io_base iob) (unat n)),
      iob\<lparr>io_base := io_base iob + unat n, io_offset := io_offset iob + n, io_resid := io_resid iob - n\<rparr>)"
    "iobuf_move iob data len True = Ok (if n = len then Inr () else Inl E_NO_MEM, n, data,
      iob\<lparr>io_mem := splice (io_mem iob) (io_base iob) (slice data 0 (unat n)),
          io_base := io_base iob + unat n, io_offset := io_offset iob + n, io_resid := io_resid iob - n\<rparr>)"
    using assms(2) unfolding iobuf_move_def assms(1) [symmetric] by (auto simp: Let_def iobuf_skip_def)
qed

end
