(* ===== verification/Disk0.thy ===== *)
theory Disk0
  imports Iobuf
begin

text \<open>
  The disk below the file system: the sector transfers of \<open>kern/driver/ide.c\<close> and the block device
  \<open>disk0\<close> of \<open>kern/fs/devs/dev_disk0.c\<close>. The drive is a store of 512-byte sectors behind the data
  port. \<open>ide_ready\<close> is what \<open>ide_wait_ready\<close> with error checking finds before a sector is moved,
  an answer of the hardware; the port writes that start a command are not modelled further. The
  semaphore \<open>disk0_sem\<close> makes a transfer one step.
\<close>

section \<open>Sector transfers\<close>

definition SECTSIZE :: nat where "SECTSIZE = 512"

definition MAX_NSECS :: u32 where "MAX_NSECS = 128"

definition MAX_DISK_NSECS :: u32 where "MAX_DISK_NSECS = 0x10000000"

record ide_device =
  ide_valid :: bool
  ide_size :: u32
  ide_ready :: "bool \<Rightarrow> nat \<Rightarrow> bool"
  sectors :: "nat \<Rightarrow> u8 list"

definition ide_device_valid :: "ide_device \<Rightarrow> bool" where
  "ide_device_valid d = ide_valid d"

definition ide_device_size :: "ide_device \<Rightarrow> u32" where
  "ide_device_size d = (if ide_device_valid d then ide_size d else 0)"

text \<open>The loops over the sectors: \<open>False\<close> is the return value -1. \<open>pos\<close> is how far the buffer
  pointer has moved.\<close>

fun read_secs_loop :: "ide_device \<Rightarrow> nat \<Rightarrow> u8 list \<Rightarrow> nat \<Rightarrow> nat \<Rightarrow> bool \<times> u8 list" where
  "read_secs_loop d secno dst pos 0 = (True, dst)"
| "read_secs_loop d secno dst pos (Suc n) =
     (if \<not> ide_ready d False secno then (False, dst)
      else read_secs_loop d (Suc secno) (splice dst pos (sectors d secno)) (pos + SECTSIZE) n)"

fun write_secs_loop :: "ide_device \<Rightarrow> nat \<Rightarrow> u8 list \<Rightarrow> nat \<Rightarrow> nat \<Rightarrow> bool \<times> ide_device" where
  "write_secs_loop d secno src pos 0 = (True, d)"
| "write_secs_loop d secno src pos (Suc n) =
     (if \<not> ide_ready d True secno then (False, d)
      else write_secs_loop (d\<lparr>sectors := (sectors d)(secno := slice src pos SECTSIZE)\<rparr>) (Suc secno) src (pos + SECTSIZE) n)"

definition ide_read_secs :: "ide_device \<Rightarrow> u32 \<Rightarrow> u8 list \<Rightarrow> u32 \<Rightarrow> (bool \<times> u8 list) res" where
  "ide_read_secs d secno dst nsecs =
     assert_c (nsecs \<le> MAX_NSECS \<and> ide_valid d)
     (assert_c (secno < MAX_DISK_NSECS \<and> secno + nsecs \<le> MAX_DISK_NSECS)
       (Ok (read_secs_loop d (unat secno) dst 0 (unat nsecs))))"

definition ide_write_secs :: "ide_device \<Rightarrow> u32 \<Rightarrow> u8 list \<Rightarrow> u32 \<Rightarrow> (bool \<times> ide_device) res" where
  "ide_write_secs d secno src nsecs =
     assert_c (nsecs \<le> MAX_NSECS \<and> ide_valid d)
     (assert_c (secno < MAX_DISK_NSECS \<and> secno + nsecs \<le> MAX_DISK_NSECS)
       (Ok (write_secs_loop d (unat secno) src 0 (unat nsecs))))"

section \<open>The device disk0\<close>

definition DISK0_BLKSIZE :: u32 where "DISK0_BLKSIZE = 4096"

definition DISK0_BUFSIZE :: u32 where "DISK0_BUFSIZE = 4 * DISK0_BLKSIZE"

definition DISK0_BLK_NSECT :: u32 where "DISK0_BLK_NSECT = DISK0_BLKSIZE div of_nat SECTSIZE"

record disk0 =
  drive :: ide_device
  d_blocks :: u32
  d_blocksize :: u32
  disk0_buffer :: "u8 list"

definition disk0_device_init :: "ide_device \<Rightarrow> u8 list option \<Rightarrow> disk0 res" where
  "disk0_device_init d m_buffer =
     (if \<not> ide_device_valid d then Panic
      else case m_buffer of None \<Rightarrow> Panic
      | Some buffer \<Rightarrow> Ok \<lparr>drive = d, d_blocks = ide_device_size d div DISK0_BLK_NSECT,
          d_blocksize = DISK0_BLKSIZE, disk0_buffer = buffer\<rparr>)"

definition disk0_read_blks_nolock :: "disk0 \<Rightarrow> u32 \<Rightarrow> u32 \<Rightarrow> disk0 res" where
  "disk0_read_blks_nolock d blkno nblks =
     res_bind (ide_read_secs (drive d) (blkno * DISK0_BLK_NSECT) (disk0_buffer d) (nblks * DISK0_BLK_NSECT)) (\<lambda>(ok, buf).
     if ok then Ok (d\<lparr>disk0_buffer := buf\<rparr>) else Panic)"

definition disk0_write_blks_nolock :: "disk0 \<Rightarrow> u32 \<Rightarrow> u32 \<Rightarrow> disk0 res" where
  "disk0_write_blks_nolock d blkno nblks =
     res_bind (ide_write_secs (drive d) (blkno * DISK0_BLK_NSECT) (disk0_buffer d) (nblks * DISK0_BLK_NSECT)) (\<lambda>(ok, dr).
     if ok then Ok (d\<lparr>drive := dr\<rparr>) else Panic)"

text \<open>One round of the loop of \<open>disk0_io\<close>: at most a buffer's worth moves.\<close>

definition disk0_round :: "disk0 \<Rightarrow> iobuf \<Rightarrow> u32 \<Rightarrow> u32 \<Rightarrow> bool \<Rightarrow> (disk0 \<times> iobuf \<times> u32 \<times> u32) res" where
  "disk0_round d iob resid blkno wr =
     (if wr then
        res_bind (iobuf_move iob (disk0_buffer d) DISK0_BUFSIZE False) (\<lambda>(_, copied, buf, iob').
        assert_c (copied \<noteq> 0 \<and> copied \<le> resid \<and> copied mod DISK0_BLKSIZE = 0)
        (let nblks = copied div DISK0_BLKSIZE in
         res_bind (disk0_write_blks_nolock (d\<lparr>disk0_buffer := buf\<rparr>) blkno nblks) (\<lambda>d'.
         Ok (d', iob', resid - copied, blkno + nblks))))
      else
        (let alen = (if DISK0_BUFSIZE > resid then resid else DISK0_BUFSIZE); nblks = alen div DISK0_BLKSIZE in
         res_bind (disk0_read_blks_nolock d blkno nblks) (\<lambda>d'.
         res_bind (iobuf_move iob (disk0_buffer d') alen True) (\<lambda>(_, copied, _, iob').
         assert_c (copied = alen \<and> copied mod DISK0_BLKSIZE = 0)
           (Ok (d', iob', resid - copied, blkno + nblks))))))"

partial_function (option) disk0_loop :: "disk0 \<Rightarrow> iobuf \<Rightarrow> u32 \<Rightarrow> u32 \<Rightarrow> bool \<Rightarrow> (disk0 \<times> iobuf) res option" where
  "disk0_loop d iob resid blkno wr =
     (if resid \<noteq> 0 then
        step_res (disk0_round d iob resid blkno wr) (\<lambda>(d', iob', resid', blkno'). disk0_loop d' iob' resid' blkno' wr)
      else Some (Ok (d, iob)))"

text \<open>\<open>off_t\<close> is signed and C division truncates towards 0.\<close>

definition block_of_offset :: "u32 \<Rightarrow> u32" where
  "block_of_offset offset =
     (if 0 \<le> sint offset then of_int (sint offset div 4096) else of_int (- ((- sint offset) div 4096)))"

definition disk0_io :: "disk0 \<Rightarrow> iobuf \<Rightarrow> bool \<Rightarrow> ((errno + unit) \<times> disk0 \<times> iobuf) res" where
  "disk0_io d iob wr =
     (let offset = io_offset iob; resid = io_resid iob;
          blkno = block_of_offset offset; nblks = resid div DISK0_BLKSIZE in
      if sint offset mod 4096 \<noteq> 0 \<or> resid mod DISK0_BLKSIZE \<noteq> 0 then Ok (Inl E_INVAL, d, iob)
      else if blkno + nblks > d_blocks d then Ok (Inl E_INVAL, d, iob)
      else if nblks = 0 then Ok (Inr (), d, iob)
      else res_bind (run_loop (disk0_loop d iob resid blkno wr)) (\<lambda>(d', iob'). Ok (Inr (), d', iob')))"

definition disk0_ioctl :: "disk0 \<Rightarrow> int \<Rightarrow> errno + unit" where
  "disk0_ioctl d op = Inl E_UNIMP"

section \<open>What sector transfers move\<close>

definition sect_range :: "(nat \<Rightarrow> u8 list) \<Rightarrow> nat \<Rightarrow> nat \<Rightarrow> u8 list" where
  "sect_range S a n = concat (map S [a..<a + n])"

definition sects_ok :: "ide_device \<Rightarrow> bool" where
  "sects_ok d \<longleftrightarrow> (\<forall>s. length (sectors d s) = SECTSIZE)"

lemma sect_range_0 [simp]: "sect_range S a 0 = []"
  by (simp add: sect_range_def)

lemma sect_range_Suc: "sect_range S a (Suc n) = S a @ sect_range S (Suc a) n"
  by (simp add: sect_range_def upt_rec)

lemma sect_range_add: "sect_range S a (m + n) = sect_range S a m @ sect_range S (a + m) n"
  by (induction m arbitrary: a) (simp_all add: sect_range_Suc)

lemma sect_range_cong: "(\<And>s. a \<le> s \<Longrightarrow> s < a + n \<Longrightarrow> S s = T s) \<Longrightarrow> sect_range S a n = sect_range T a n"
  by (induction n arbitrary: a) (simp_all add: sect_range_Suc)

lemma sect_range_length: "\<forall>s. length (S s) = SECTSIZE \<Longrightarrow> length (sect_range S a n) = n * SECTSIZE"
  by (induction n arbitrary: a) (simp_all add: sect_range_Suc)

lemma splice_app: "j + length (xs @ ys) \<le> length d \<Longrightarrow> splice (splice d j xs) (j + length xs) ys = splice d j (xs @ ys)"
  by (intro nth_equalityI) (auto simp: splice_nth nth_append)

lemma splice_nil [simp]: "splice d j [] = d"
  by (simp add: splice_def)

lemma read_secs_loop_ok:
  assumes "sects_ok d" and "\<forall>s. secno \<le> s \<and> s < secno + n \<longrightarrow> ide_ready d False s"
    and "pos + n * SECTSIZE \<le> length dst"
  shows "read_secs_loop d secno dst pos n = (True, splice dst pos (sect_range (sectors d) secno n))"
  using assms
proof (induction n arbitrary: secno dst pos)
  case (Suc n)
  have l: "length (sectors d secno) = SECTSIZE" using Suc(2) by (simp add: sects_ok_def)
  have "length (sect_range (sectors d) (Suc secno) n) = n * SECTSIZE"
    using Suc(2) by (simp add: sect_range_length sects_ok_def)
  then have "splice (splice dst pos (sectors d secno)) (pos + SECTSIZE) (sect_range (sectors d) (Suc secno) n) =
      splice dst pos (sect_range (sectors d) secno (Suc n))"
    using splice_app [of pos "sectors d secno"] Suc(4) l by (simp add: sect_range_Suc)
  then show ?case using Suc(1) [OF Suc(2), of "Suc secno" "pos + SECTSIZE" "splice dst pos (sectors d secno)"] Suc(3,4) l
    by simp
qed simp

definition stored :: "(nat \<Rightarrow> u8 list) \<Rightarrow> nat \<Rightarrow> nat \<Rightarrow> u8 list \<Rightarrow> nat \<Rightarrow> nat \<Rightarrow> u8 list" where
  "stored S a n src pos s = (if a \<le> s \<and> s < a + n then slice src (pos + (s - a) * SECTSIZE) SECTSIZE else S s)"

lemma stored_add: "stored (stored S a m src pos) (a + m) n src (pos + m * SECTSIZE) = stored S a (m + n) src pos"
proof
  fix s
  show "stored (stored S a m src pos) (a + m) n src (pos + m * SECTSIZE) s = stored S a (m + n) src pos s"
  proof (cases "a + m \<le> s")
    case True
    then obtain k where "s = a + m + k" using le_Suc_ex by blast
    then show ?thesis by (simp add: stored_def algebra_simps)
  qed (auto simp: stored_def)
qed

lemma write_secs_loop_ok:
  assumes "\<forall>s. secno \<le> s \<and> s < secno + n \<longrightarrow> ide_ready d True s"
  shows "write_secs_loop d secno src pos n = (True, d\<lparr>sectors := stored (sectors d) secno n src pos\<rparr>)"
  using assms
proof (induction n arbitrary: d secno pos)
  case 0
  have "stored (sectors d) secno 0 src pos = sectors d" by (rule ext) (auto simp: stored_def)
  then show ?case by simp
next
  case (Suc n)
  have "(sectors d)(secno := slice src pos SECTSIZE) = stored (sectors d) secno 1 src pos"
  proof
    show "((sectors d)(secno := slice src pos SECTSIZE)) s = stored (sectors d) secno 1 src pos s" for s
      by (cases "s < secno"; cases "s = secno") (simp_all add: stored_def)
  qed
  then show ?case
    using Suc(1) [of "Suc secno" "d\<lparr>sectors := (sectors d)(secno := slice src pos SECTSIZE)\<rparr>" "pos + SECTSIZE"] Suc(2)
      stored_add [of "sectors d" secno 1 src pos n]
    by simp
qed

section \<open>What a transfer through the buffer moves\<close>

definition disk_ok :: "disk0 \<Rightarrow> bool" where
  "disk_ok d \<longleftrightarrow> ide_valid (drive d) \<and> sects_ok (drive d) \<and> length (disk0_buffer d) = unat DISK0_BUFSIZE \<and>
     8 * unat (d_blocks d) \<le> unat MAX_DISK_NSECS \<and>
     (\<forall>w s. s < 8 * unat (d_blocks d) \<longrightarrow> ide_ready (drive d) w s)"

lemmas disk0_consts = DISK0_BLKSIZE_def DISK0_BUFSIZE_def DISK0_BLK_NSECT_def SECTSIZE_def MAX_NSECS_def MAX_DISK_NSECS_def

lemma sector_numbers:
  assumes "disk_ok d" and "0 < m" and "m \<le> 4" and "unat blkno + m \<le> unat (d_blocks d)"
  shows "unat (blkno * DISK0_BLK_NSECT) = 8 * unat blkno" and "unat (of_nat m * DISK0_BLK_NSECT :: u32) = 8 * m"
    and "of_nat m * DISK0_BLK_NSECT \<le> MAX_NSECS" and "blkno * DISK0_BLK_NSECT < MAX_DISK_NSECS"
    and "blkno * DISK0_BLK_NSECT + of_nat m * DISK0_BLK_NSECT \<le> MAX_DISK_NSECS"
proof -
  have b: "8 * (unat blkno + m) \<le> 0x10000000" using assms by (simp add: disk_ok_def MAX_DISK_NSECS_def)
  have n: "DISK0_BLK_NSECT = 8" by (simp add: disk0_consts)
  show u1: "unat (blkno * DISK0_BLK_NSECT) = 8 * unat blkno" using b by (simp add: n unat_word_ariths)
  show u2: "unat (of_nat m * DISK0_BLK_NSECT :: u32) = 8 * m"
    using assms(3) by (simp add: n unat_word_ariths unat_of_nat_u32)
  show "of_nat m * DISK0_BLK_NSECT \<le> MAX_NSECS"
    using assms(3) unfolding word_le_nat_alt u2 by (simp add: MAX_NSECS_def)
  show "blkno * DISK0_BLK_NSECT < MAX_DISK_NSECS"
    using assms(2) b unfolding word_less_nat_alt u1 by (simp add: MAX_DISK_NSECS_def)
  have "unat (blkno * DISK0_BLK_NSECT + of_nat m * DISK0_BLK_NSECT) = 8 * unat blkno + 8 * m"
    using b u1 u2 unat_add_u32 [of "blkno * DISK0_BLK_NSECT" "of_nat m * DISK0_BLK_NSECT"] by simp
  then show "blkno * DISK0_BLK_NSECT + of_nat m * DISK0_BLK_NSECT \<le> MAX_DISK_NSECS"
    using b unfolding word_le_nat_alt by (simp add: MAX_DISK_NSECS_def)
qed

lemma read_blks_ok:
  assumes "disk_ok d" and "0 < m" and "m \<le> 4" and "unat blkno + m \<le> unat (d_blocks d)"
  shows "disk0_read_blks_nolock d blkno (of_nat m) =
    Ok (d\<lparr>disk0_buffer := splice (disk0_buffer d) 0 (sect_range (sectors (drive d)) (8 * unat blkno) (8 * m))\<rparr>)"
proof -
  note n = sector_numbers [OF assms]
  have "read_secs_loop (drive d) (8 * unat blkno) (disk0_buffer d) 0 (8 * m) =
      (True, splice (disk0_buffer d) 0 (sect_range (sectors (drive d)) (8 * unat blkno) (8 * m)))"
    using assms by (intro read_secs_loop_ok) (auto simp: disk_ok_def disk0_consts)
  then show ?thesis using n assms(1) by (simp add: disk0_read_blks_nolock_def ide_read_secs_def disk_ok_def)
qed

lemma write_blks_ok:
  assumes "disk_ok d" and "0 < m" and "m \<le> 4" and "unat blkno + m \<le> unat (d_blocks d)"
  shows "disk0_write_blks_nolock d blkno (of_nat m) =
    Ok (d\<lparr>drive := (drive d)\<lparr>sectors := stored (sectors (drive d)) (8 * unat blkno) (8 * m) (disk0_buffer d) 0\<rparr>\<rparr>)"
proof -
  note n = sector_numbers [OF assms]
  have "write_secs_loop (drive d) (8 * unat blkno) (disk0_buffer d) 0 (8 * m) =
      (True, (drive d)\<lparr>sectors := stored (sectors (drive d)) (8 * unat blkno) (8 * m) (disk0_buffer d) 0\<rparr>)"
    using assms by (intro write_secs_loop_ok) (auto simp: disk_ok_def)
  then show ?thesis using n assms(1) by (simp add: disk0_write_blks_nolock_def ide_write_secs_def disk_ok_def)
qed

text \<open>A request of \<open>n\<close> blocks that lies on the disk and in the caller's buffer.\<close>

definition request :: "disk0 \<Rightarrow> iobuf \<Rightarrow> u32 \<Rightarrow> u32 \<Rightarrow> nat \<Rightarrow> bool" where
  "request d iob resid blkno n \<longleftrightarrow> disk_ok d \<and> unat resid = 4096 * n \<and> io_resid iob = resid \<and>
     unat blkno + n \<le> unat (d_blocks d) \<and> io_base iob + 4096 * n \<le> length (io_mem iob)"

lemma chunk_numbers:
  assumes "request d iob resid blkno n" and "0 < n" and "m = min n 4"
  shows "(if DISK0_BUFSIZE < resid then DISK0_BUFSIZE else resid) = of_nat (4096 * m)"
    and "(if DISK0_BUFSIZE > resid then resid else DISK0_BUFSIZE) = of_nat (4096 * m)"
    and "unat (of_nat (4096 * m) :: u32) = 4096 * m" and "of_nat (4096 * m) div DISK0_BLKSIZE = (of_nat m :: u32)"
    and "of_nat (4096 * m) mod DISK0_BLKSIZE = (0 :: u32)" and "of_nat (4096 * m) \<noteq> (0 :: u32)"
    and "of_nat (4096 * m) \<le> resid" and "unat (resid - of_nat (4096 * m)) = 4096 * (n - m)"
    and "unat (blkno + of_nat m) = unat blkno + m"
proof -
  have r: "unat resid = 4096 * n" and bl: "unat blkno + n \<le> unat (d_blocks d)" using assms(1) by (auto simp: request_def)
  have m: "0 < m" "m \<le> 4" "m \<le> n" using assms(2,3) by auto
  show u: "unat (of_nat (4096 * m) :: u32) = 4096 * m" using m by (intro unat_of_nat_u32) simp
  have bs: "unat DISK0_BUFSIZE = 16384" by (simp add: disk0_consts)
  show "(if DISK0_BUFSIZE < resid then DISK0_BUFSIZE else resid) = of_nat (4096 * m)"
    by (rule word_unat_eq_iff [THEN iffD2], unfold u) (use r bs assms(3) in \<open>auto simp: word_less_nat_alt\<close>)
  show "(if DISK0_BUFSIZE > resid then resid else DISK0_BUFSIZE) = of_nat (4096 * m)"
    by (rule word_unat_eq_iff [THEN iffD2], unfold u) (use r bs assms(3) in \<open>auto simp: word_less_nat_alt\<close>)
  show "of_nat (4096 * m) div DISK0_BLKSIZE = (of_nat m :: u32)"
    by (rule word_unat_eq_iff [THEN iffD2], unfold unat_div u) (use m in \<open>simp add: DISK0_BLKSIZE_def unat_of_nat_u32\<close>)
  show "of_nat (4096 * m) mod DISK0_BLKSIZE = (0 :: u32)"
    by (rule word_unat_eq_iff [THEN iffD2], unfold unat_mod u) (simp add: DISK0_BLKSIZE_def)
  show "of_nat (4096 * m) \<noteq> (0 :: u32)" using u m by (metis mult_is_0 unat_0 zero_neq_numeral less_irrefl)
  show le: "of_nat (4096 * m) \<le> resid" unfolding word_le_nat_alt u r using m by simp
  show "unat (resid - of_nat (4096 * m)) = 4096 * (n - m)"
    unfolding unat_sub [OF le] u r by (simp add: diff_mult_distrib2)
  show "unat (blkno + of_nat m) = unat blkno + m"
    using bl m unat_u32_less [of "d_blocks d"] by (subst unat_add_u32) (simp_all add: unat_of_nat_u32)
qed

definition moved :: "iobuf \<Rightarrow> nat \<Rightarrow> iobuf" where
  "moved iob n = iob\<lparr>io_base := io_base iob + n, io_offset := io_offset iob + of_nat n, io_resid := io_resid iob - of_nat n\<rparr>"

lemma block_bytes_length: "disk_ok d \<Longrightarrow> length (sect_range (sectors (drive d)) a (8 * m)) = 4096 * m"
  by (simp add: sect_range_length disk_ok_def sects_ok_def SECTSIZE_def)

lemma round_read:
  assumes rq: "request d iob resid blkno n" and n: "0 < n" and m: "m = min n 4"
  shows "\<exists>d'. disk0_round d iob resid blkno False = Ok (d', (moved iob (4096 * m))\<lparr>io_mem :=
      splice (io_mem iob) (io_base iob) (sect_range (sectors (drive d)) (8 * unat blkno) (8 * m))\<rparr>,
      resid - of_nat (4096 * m), blkno + of_nat m) \<and>
    disk_ok d' \<and> drive d' = drive d \<and> d_blocks d' = d_blocks d"
proof -
  note c = chunk_numbers [OF rq n m]
  have dk: "disk_ok d" and ir: "io_resid iob = resid" and b: "unat blkno + m \<le> unat (d_blocks d)"
    using rq m by (auto simp: request_def)
  let ?R = "sect_range (sectors (drive d)) (8 * unat blkno) (8 * m)"
  let ?d = "d\<lparr>disk0_buffer := splice (disk0_buffer d) 0 ?R\<rparr>"
  have lR: "length ?R = 4096 * m" by (rule block_bytes_length [OF dk])
  have lb: "length (disk0_buffer d) = 16384" using dk by (simp add: disk_ok_def disk0_consts)
  have rd: "disk0_read_blks_nolock d blkno (of_nat m) = Ok ?d"
    by (rule read_blks_ok [OF dk _ _ b]) (use n m in auto)
  have sl: "slice (disk0_buffer ?d) 0 (4096 * m) = ?R"
    using slice_splice [of 0 ?R "disk0_buffer d"] lR lb m by simp
  have min: "of_nat (4096 * m) = (if of_nat (4096 * m) < io_resid iob then of_nat (4096 * m) else io_resid iob)"
    using c(7) ir by auto
  have pos: "(0 :: u32) < of_nat (4096 * m)" using c(6) by (simp only: word_greater_zero_iff) simp
  have mv: "iobuf_move iob (disk0_buffer ?d) (of_nat (4096 * m)) True = Ok (Inr (), of_nat (4096 * m), disk0_buffer ?d,
      (moved iob (4096 * m))\<lparr>io_mem := splice (io_mem iob) (io_base iob) ?R\<rparr>)"
    unfolding iobuf_move_ok(2) [OF min pos] c(3) sl by (simp add: moved_def)
  have "disk0_round d iob resid blkno False = Ok (?d, (moved iob (4096 * m))\<lparr>io_mem := splice (io_mem iob) (io_base iob) ?R\<rparr>,
      resid - of_nat (4096 * m), blkno + of_nat m)"
    unfolding disk0_round_def Let_def c(2) c(4) if_False rd res_bind.simps mv using c(5) by simp
  moreover have "disk_ok ?d" using dk lR lb m by (simp add: disk_ok_def disk0_consts)
  ultimately show ?thesis by auto
qed

lemma round_write:
  assumes rq: "request d iob resid blkno n" and n: "0 < n" and m: "m = min n 4"
  shows "\<exists>d'. disk0_round d iob resid blkno True = Ok (d', moved iob (4096 * m), resid - of_nat (4096 * m), blkno + of_nat m) \<and>
    disk_ok d' \<and> d_blocks d' = d_blocks d \<and>
    sectors (drive d') = stored (sectors (drive d)) (8 * unat blkno) (8 * m) (io_mem iob) (io_base iob)"
proof -
  note c = chunk_numbers [OF rq n m]
  have dk: "disk_ok d" and ir: "io_resid iob = resid" and b: "unat blkno + m \<le> unat (d_blocks d)"
    and fit: "io_base iob + 4096 * m \<le> length (io_mem iob)"
    using rq m by (auto simp: request_def)
  let ?X = "slice (io_mem iob) (io_base iob) (4096 * m)"
  let ?d = "d\<lparr>disk0_buffer := splice (disk0_buffer d) 0 ?X\<rparr>"
  have lX: "length ?X = 4096 * m" using fit by simp
  have lb: "length (disk0_buffer d) = 16384" using dk by (simp add: disk_ok_def disk0_consts)
  have dk': "disk_ok ?d" using dk lX lb m by (simp add: disk_ok_def disk0_consts)
  let ?S = "stored (sectors (drive d)) (8 * unat blkno) (8 * m)"
  have wr: "disk0_write_blks_nolock ?d blkno (of_nat m) = Ok (?d\<lparr>drive := (drive ?d)\<lparr>sectors := ?S (disk0_buffer ?d) 0\<rparr>\<rparr>)"
    using write_blks_ok [OF dk', of m blkno] n m b by simp
  have st: "?S (disk0_buffer ?d) 0 = ?S (io_mem iob) (io_base iob)"
  proof
    show "?S (disk0_buffer ?d) 0 s = ?S (io_mem iob) (io_base iob) s" for s
    proof (cases "8 * unat blkno \<le> s \<and> s < 8 * unat blkno + 8 * m")
      case True
      define k where "k = s - 8 * unat blkno"
      have "k < 8 * m" using True by (simp add: k_def less_diff_conv2)
      then have k: "k * 512 + 512 \<le> 4096 * m" by simp
      have "slice (splice (disk0_buffer d) 0 ?X) (k * 512) 512 = slice (io_mem iob) (io_base iob + k * 512) 512"
        using k lb lX m fit by (intro nth_equalityI) (simp_all add: slice_nth splice_nth add.assoc)
      then show ?thesis using True by (simp add: stored_def SECTSIZE_def k_def)
    qed (auto simp: stored_def)
  qed
  have min: "of_nat (4096 * m) = (if DISK0_BUFSIZE < io_resid iob then DISK0_BUFSIZE else io_resid iob)"
    unfolding ir by (rule c(1) [symmetric])
  have pos: "(0 :: u32) < of_nat (4096 * m)" using c(6) by (simp only: word_greater_zero_iff) simp
  obtain e where mv: "iobuf_move iob (disk0_buffer d) DISK0_BUFSIZE False = Ok (e, of_nat (4096 * m), disk0_buffer ?d, moved iob (4096 * m))"
    unfolding iobuf_move_ok(1) [OF min pos] c(3) by (auto simp: moved_def)
  have "disk0_round d iob resid blkno True = Ok (?d\<lparr>drive := (drive d)\<lparr>sectors := ?S (io_mem iob) (io_base iob)\<rparr>\<rparr>,
      moved iob (4096 * m), resid - of_nat (4096 * m), blkno + of_nat m)"
    unfolding disk0_round_def if_True mv res_bind.simps prod.case Let_def c(4) using c(5-7) wr st by simp
  moreover have "sects_ok ((drive d)\<lparr>sectors := ?S (io_mem iob) (io_base iob)\<rparr>)"
  proof -
    have "length (?S (io_mem iob) (io_base iob) s) = SECTSIZE" for s
      using dk fit by (auto simp: stored_def disk_ok_def sects_ok_def SECTSIZE_def)
    then show ?thesis by (simp add: sects_ok_def)
  qed
  then have "disk_ok (?d\<lparr>drive := (drive d)\<lparr>sectors := ?S (io_mem iob) (io_base iob)\<rparr>\<rparr>)"
    using dk' by (simp add: disk_ok_def)
  ultimately show ?thesis by (intro exI [of _ "?d\<lparr>drive := (drive d)\<lparr>sectors := ?S (io_mem iob) (io_base iob)\<rparr>\<rparr>"]) simp
qed

lemma request_rest:
  assumes "request d iob resid blkno n" and "0 < n" and "m = min n 4" and "disk_ok d'" and "d_blocks d' = d_blocks d"
    and "io_base iob' = io_base iob + 4096 * m" and "io_resid iob' = io_resid iob - of_nat (4096 * m)"
    and "length (io_mem iob') = length (io_mem iob)"
  shows "request d' iob' (resid - of_nat (4096 * m)) (blkno + of_nat m) (n - m)"
proof -
  have "m \<le> n" using assms(3) by simp
  then show ?thesis using assms(1,4-8) chunk_numbers(8,9) [OF assms(1-3)] by (auto simp: request_def)
qed

text \<open>The loop returns, and has moved all blocks in order.\<close>

lemma loop_read:
  assumes "request d iob resid blkno n"
  shows "\<exists>d' iob'. disk0_loop d iob resid blkno False = Some (Ok (d', iob')) \<and>
    io_mem iob' = splice (io_mem iob) (io_base iob) (sect_range (sectors (drive d)) (8 * unat blkno) (8 * n)) \<and>
    disk_ok d' \<and> drive d' = drive d \<and> d_blocks d' = d_blocks d"
  using assms
proof (induction n arbitrary: d iob resid blkno rule: less_induct)
  case (less n)
  show ?case
  proof (cases "n = 0")
    case True
    then have "resid = 0" using less(2) by (simp add: request_def unat_eq_zero)
    then show ?thesis using True less(2) by (subst disk0_loop.simps) (simp add: request_def)
  next
    case False
    define m where "m = min n 4"
    let ?R = "sect_range (sectors (drive d)) (8 * unat blkno) (8 * m)"
    let ?iob = "(moved iob (4096 * m))\<lparr>io_mem := splice (io_mem iob) (io_base iob) ?R\<rparr>"
    obtain d1 where r: "disk0_round d iob resid blkno False = Ok (d1, ?iob, resid - of_nat (4096 * m), blkno + of_nat m)"
        and d1: "disk_ok d1" "drive d1 = drive d" "d_blocks d1 = d_blocks d"
      using round_read [OF less(2) _ m_def] False by blast
    have fit: "io_base iob + 4096 * n \<le> length (io_mem iob)" and dk: "disk_ok d" using less(2) by (auto simp: request_def)
    have lR: "length ?R = 4096 * m" by (rule block_bytes_length [OF dk])
    have mn: "m \<le> n" "0 < m" using False by (auto simp: m_def)
    have n8: "8 * m + 8 * (n - m) = 8 * n" using mn by simp
    have rq: "request d1 ?iob (resid - of_nat (4096 * m)) (blkno + of_nat m) (n - m)"
      by (rule request_rest [OF less(2) _ m_def d1(1,3)]) (use False fit lR mn in \<open>auto simp: moved_def\<close>)
    have "n - m < n" using mn by simp
    then obtain d' iob' where l: "disk0_loop d1 ?iob (resid - of_nat (4096 * m)) (blkno + of_nat m) False = Some (Ok (d', iob'))"
        "io_mem iob' = splice (io_mem ?iob) (io_base ?iob) (sect_range (sectors (drive d1)) (8 * unat (blkno + of_nat m)) (8 * (n - m)))"
        "disk_ok d'" "drive d' = drive d1" "d_blocks d' = d_blocks d1"
      using less(1) [OF _ rq] by blast
    have rest: "sect_range (sectors (drive d)) (8 * unat blkno) (8 * n) = ?R @ sect_range (sectors (drive d)) (8 * unat (blkno + of_nat m)) (8 * (n - m))"
      using sect_range_add [of "sectors (drive d)" "8 * unat blkno" "8 * m" "8 * (n - m)", unfolded n8] mn
        chunk_numbers(9) [OF less(2) _ m_def] by (simp add: distrib_left)
    have "io_mem iob' = splice (io_mem iob) (io_base iob) (sect_range (sectors (drive d)) (8 * unat blkno) (8 * n))"
      unfolding rest l(2) d1(2) using splice_app [of "io_base iob" ?R] lR fit mn block_bytes_length [OF dk]
      by (simp add: moved_def)
    moreover have "resid \<noteq> 0" using less(2) False by (auto simp: request_def)
    then have "disk0_loop d iob resid blkno False = Some (Ok (d', iob'))"
      using l(1) r by (subst disk0_loop.simps) simp
    ultimately show ?thesis using l(3-5) d1(2,3) by auto
  qed
qed

lemma loop_write:
  assumes "request d iob resid blkno n"
  shows "\<exists>d' iob'. disk0_loop d iob resid blkno True = Some (Ok (d', iob')) \<and> io_mem iob' = io_mem iob \<and>
    sectors (drive d') = stored (sectors (drive d)) (8 * unat blkno) (8 * n) (io_mem iob) (io_base iob) \<and>
    disk_ok d' \<and> d_blocks d' = d_blocks d"
  using assms
proof (induction n arbitrary: d iob resid blkno rule: less_induct)
  case (less n)
  show ?case
  proof (cases "n = 0")
    case True
    then have "resid = 0" using less(2) by (simp add: request_def unat_eq_zero)
    moreover have "stored (sectors (drive d)) (8 * unat blkno) 0 (io_mem iob) (io_base iob) = sectors (drive d)"
      by (rule ext) (auto simp: stored_def)
    ultimately show ?thesis using True less(2) by (subst disk0_loop.simps) (simp add: request_def)
  next
    case False
    define m where "m = min n 4"
    obtain d1 where r: "disk0_round d iob resid blkno True = Ok (d1, moved iob (4096 * m), resid - of_nat (4096 * m), blkno + of_nat m)"
        and d1: "disk_ok d1" "d_blocks d1 = d_blocks d"
          "sectors (drive d1) = stored (sectors (drive d)) (8 * unat blkno) (8 * m) (io_mem iob) (io_base iob)"
      using round_write [OF less(2) _ m_def] False by blast
    have mn: "m \<le> n" "0 < m" using False by (auto simp: m_def)
    have n8: "8 * m + 8 * (n - m) = 8 * n" using mn by simp
    have rq: "request d1 (moved iob (4096 * m)) (resid - of_nat (4096 * m)) (blkno + of_nat m) (n - m)"
      by (rule request_rest [OF less(2) _ m_def d1(1,2)]) (use False in \<open>auto simp: moved_def\<close>)
    have "n - m < n" using mn by simp
    then obtain d' iob' where l: "disk0_loop d1 (moved iob (4096 * m)) (resid - of_nat (4096 * m)) (blkno + of_nat m) True = Some (Ok (d', iob'))"
        "io_mem iob' = io_mem iob"
        "sectors (drive d') = stored (sectors (drive d1)) (8 * unat (blkno + of_nat m)) (8 * (n - m)) (io_mem iob) (io_base iob + 4096 * m)"
        "disk_ok d'" "d_blocks d' = d_blocks d1"
      using less(1) [OF _ rq] by (auto simp: moved_def)
    have "sectors (drive d') = stored (sectors (drive d)) (8 * unat blkno) (8 * n) (io_mem iob) (io_base iob)"
      unfolding l(3) d1(3)
      using stored_add [of "sectors (drive d)" "8 * unat blkno" "8 * m" "io_mem iob" "io_base iob" "8 * (n - m)", unfolded n8]
        mn chunk_numbers(9) [OF less(2) _ m_def] by (simp add: SECTSIZE_def distrib_left)
    moreover have "resid \<noteq> 0" using less(2) False by (auto simp: request_def)
    then have "disk0_loop d iob resid blkno True = Some (Ok (d', iob'))"
      using l(1) r by (subst disk0_loop.simps) simp
    ultimately show ?thesis using l(2,4,5) d1(2) by auto
  qed
qed

section \<open>Requests\<close>

definition on_disk :: "disk0 \<Rightarrow> iobuf \<Rightarrow> nat \<Rightarrow> nat \<Rightarrow> bool" where
  "on_disk d iob b n \<longleftrightarrow> disk_ok d \<and> unat (io_offset iob) = 4096 * b \<and> 4096 * b < 2 ^ 31 \<and>
     unat (io_resid iob) = 4096 * n \<and> b + n \<le> unat (d_blocks d) \<and> io_base iob + 4096 * n \<le> length (io_mem iob)"

lemma on_disk_request:
  assumes "on_disk d iob b n"
  shows "request d iob (io_resid iob) (block_of_offset (io_offset iob)) n"
    and "unat (block_of_offset (io_offset iob)) = b"
    and "sint (io_offset iob) mod 4096 = 0" and "io_resid iob mod DISK0_BLKSIZE = 0"
    and "unat (io_resid iob div DISK0_BLKSIZE) = n"
    and "block_of_offset (io_offset iob) + io_resid iob div DISK0_BLKSIZE \<le> d_blocks d"
proof -
  have a: "unat (io_offset iob) = 4096 * b" "4096 * b < 2 ^ 31" "unat (io_resid iob) = 4096 * n" "b + n \<le> unat (d_blocks d)"
    using assms by (auto simp: on_disk_def)
  have si: "sint (io_offset iob) = int (4096 * b)" using a(1,2) sint_small [of "io_offset iob"] by simp
  then show "sint (io_offset iob) mod 4096 = 0" by simp
  have "block_of_offset (io_offset iob) = of_nat b" using si by (simp add: block_of_offset_def)
  then show b: "unat (block_of_offset (io_offset iob)) = b" using a(2) by (simp add: unat_of_nat_u32)
  show "request d iob (io_resid iob) (block_of_offset (io_offset iob)) n"
    using assms b by (simp add: request_def on_disk_def)
  show "io_resid iob mod DISK0_BLKSIZE = 0"
    by (rule word_unat_eq_iff [THEN iffD2], unfold unat_mod a(3)) (simp add: DISK0_BLKSIZE_def)
  show n: "unat (io_resid iob div DISK0_BLKSIZE) = n"
    unfolding unat_div a(3) by (simp add: DISK0_BLKSIZE_def)
  have "unat (block_of_offset (io_offset iob) + io_resid iob div DISK0_BLKSIZE) = b + n"
    using b n a(4) unat_u32_less [of "d_blocks d"] by (simp add: unat_add_u32)
  then show "block_of_offset (io_offset iob) + io_resid iob div DISK0_BLKSIZE \<le> d_blocks d"
    using a(4) by (simp add: word_le_nat_alt)
qed

lemma disk0_io_read:
  assumes "on_disk d iob b n"
  shows "\<exists>d' iob'. disk0_io d iob False = Ok (Inr (), d', iob') \<and>
    io_mem iob' = splice (io_mem iob) (io_base iob) (sect_range (sectors (drive d)) (8 * b) (8 * n)) \<and>
    disk_ok d' \<and> drive d' = drive d \<and> d_blocks d' = d_blocks d"
proof (cases "n = 0")
  case True
  then have "io_resid iob div DISK0_BLKSIZE = 0" using on_disk_request(5) [OF assms] by (simp add: unat_eq_zero)
  then show ?thesis using on_disk_request(3,4,6) [OF assms] True assms by (auto simp: disk0_io_def Let_def on_disk_def)
next
  case False
  note r = on_disk_request [OF assms]
  have nz: "io_resid iob div DISK0_BLKSIZE \<noteq> 0" using r(5) False by (auto simp del: div_word_less)
  obtain d' iob' where l: "disk0_loop d iob (io_resid iob) (block_of_offset (io_offset iob)) False = Some (Ok (d', iob'))"
      "io_mem iob' = splice (io_mem iob) (io_base iob) (sect_range (sectors (drive d)) (8 * b) (8 * n))"
      "disk_ok d'" "drive d' = drive d" "d_blocks d' = d_blocks d"
    using loop_read [OF r(1)] unfolding r(2) by blast
  have "disk0_io d iob False = Ok (Inr (), d', iob')"
    using r(3,4,6) nz by (simp add: disk0_io_def Let_def run_loop_def l(1))
  then show ?thesis using l by blast
qed

lemma disk0_io_write:
  assumes "on_disk d iob b n"
  shows "\<exists>d' iob'. disk0_io d iob True = Ok (Inr (), d', iob') \<and> io_mem iob' = io_mem iob \<and>
    sectors (drive d') = stored (sectors (drive d)) (8 * b) (8 * n) (io_mem iob) (io_base iob) \<and>
    disk_ok d' \<and> d_blocks d' = d_blocks d"
proof (cases "n = 0")
  case True
  then have "io_resid iob div DISK0_BLKSIZE = 0" using on_disk_request(5) [OF assms] by (simp add: unat_eq_zero)
  moreover have "stored (sectors (drive d)) (8 * b) 0 (io_mem iob) (io_base iob) = sectors (drive d)"
    by (rule ext) (auto simp: stored_def)
  ultimately show ?thesis using on_disk_request(3,4,6) [OF assms] True assms by (auto simp: disk0_io_def Let_def on_disk_def)
next
  case False
  note r = on_disk_request [OF assms]
  have nz: "io_resid iob div DISK0_BLKSIZE \<noteq> 0" using r(5) False by (auto simp del: div_word_less)
  obtain d' iob' where l: "disk0_loop d iob (io_resid iob) (block_of_offset (io_offset iob)) True = Some (Ok (d', iob'))"
      "io_mem iob' = io_mem iob"
      "sectors (drive d') = stored (sectors (drive d)) (8 * b) (8 * n) (io_mem iob) (io_base iob)"
      "disk_ok d'" "d_blocks d' = d_blocks d"
    using loop_write [OF r(1)] unfolding r(2) by blast
  have "disk0_io d iob True = Ok (Inr (), d', iob')"
    using r(3,4,6) nz by (simp add: disk0_io_def Let_def run_loop_def l(1))
  then show ?thesis using l by blast
qed

text \<open>Sectors that were stored from a buffer hold its bytes.\<close>

lemma sect_range_stored:
  assumes "pos + n * SECTSIZE \<le> length src"
  shows "sect_range (stored S a n src pos) a n = slice src pos (n * SECTSIZE)"
  using assms
proof (induction n arbitrary: S a pos)
  case (Suc n)
  have "sect_range (stored S a (Suc n) src pos) (Suc a) n = sect_range (stored S (Suc a) n src (pos + SECTSIZE)) (Suc a) n"
    by (rule sect_range_cong) (auto simp: stored_def Suc_diff_le algebra_simps Suc_diff_Suc [symmetric])
  also have "\<dots> = slice src (pos + SECTSIZE) (n * SECTSIZE)" using Suc by simp
  finally have r: "sect_range (stored S a (Suc n) src pos) (Suc a) n = slice src (pos + SECTSIZE) (n * SECTSIZE)" .
  have h: "stored S a (Suc n) src pos a = slice src pos SECTSIZE" by (simp add: stored_def)
  show ?case unfolding sect_range_Suc r h by (simp add: slice_def take_add add.commute)
qed (simp add: slice_def)

text \<open>C31: What is written to the disk is read back: a block-aligned write of a buffer succeeds, a
  following read of the same blocks into any buffer of that size delivers exactly the written bytes,
  and all other sectors keep their contents, however many buffer-sized rounds the transfers take.\<close>

theorem disk0_write_read:
  assumes w: "on_disk d iob b n" and r: "on_disk d iob2 b n"
  shows "\<exists>d1 iob1 d2 iob3. disk0_io d iob True = Ok (Inr (), d1, iob1) \<and> disk0_io d1 iob2 False = Ok (Inr (), d2, iob3) \<and>
    io_mem iob3 = splice (io_mem iob2) (io_base iob2) (slice (io_mem iob) (io_base iob) (4096 * n)) \<and>
    (\<forall>s. s < 8 * b \<or> 8 * (b + n) \<le> s \<longrightarrow> sectors (drive d2) s = sectors (drive d) s)"
proof -
  obtain d1 iob1 where d1: "disk0_io d iob True = Ok (Inr (), d1, iob1)"
      "sectors (drive d1) = stored (sectors (drive d)) (8 * b) (8 * n) (io_mem iob) (io_base iob)"
      "disk_ok d1" "d_blocks d1 = d_blocks d"
    using disk0_io_write [OF w] by blast
  have "on_disk d1 iob2 b n" using r d1(3,4) by (simp add: on_disk_def)
  then obtain d2 iob3 where d2: "disk0_io d1 iob2 False = Ok (Inr (), d2, iob3)" "drive d2 = drive d1"
      "io_mem iob3 = splice (io_mem iob2) (io_base iob2) (sect_range (sectors (drive d1)) (8 * b) (8 * n))"
    using disk0_io_read by blast
  have "sect_range (sectors (drive d1)) (8 * b) (8 * n) = slice (io_mem iob) (io_base iob) (4096 * n)"
    unfolding d1(2) using sect_range_stored [of "io_base iob" "8 * n"] w by (simp add: on_disk_def SECTSIZE_def)
  moreover have "\<forall>s. s < 8 * b \<or> 8 * (b + n) \<le> s \<longrightarrow> sectors (drive d2) s = sectors (drive d) s"
    unfolding d2(2) d1(2) by (auto simp: stored_def)
  ultimately show ?thesis using d1(1) d2(1,3) by auto
qed

definition demo_disk :: disk0 where
  "demo_disk = \<lparr>drive = \<lparr>ide_valid = True, ide_size = 512, ide_ready = (\<lambda>_ _. True), sectors = (\<lambda>_. replicate 512 0)\<rparr>,
     d_blocks = 64, d_blocksize = 4096, disk0_buffer = replicate 16384 0\<rparr>"

lemma demo_disk_ok: "disk_ok demo_disk"
  by (simp add: demo_disk_def disk_ok_def sects_ok_def disk0_consts)

theorem disk0_write_read_witness:
  "\<exists>d1 iob1 d2 iob3. disk0_io demo_disk (iobuf_init (replicate 8192 7) 8192 4096) True = Ok (Inr (), d1, iob1) \<and>
     disk0_io d1 (iobuf_init (replicate 8192 0) 8192 4096) False = Ok (Inr (), d2, iob3) \<and> io_mem iob3 = replicate 8192 7"
proof -
  have o: "on_disk demo_disk (iobuf_init (replicate 8192 v) 8192 4096) 1 2" for v
    using demo_disk_ok by (simp add: on_disk_def iobuf_init_def) (simp add: demo_disk_def)
  show ?thesis using disk0_write_read [OF o [of 7] o [of 0]]
    by (auto simp: iobuf_init_def slice_all splice_all)
qed

end
