(* ===== verification/Sfs_State.thy ===== *)
theory Sfs_State
  imports DList Bitmap Disk0
begin

text \<open>
  The simple file system: the on-disk structures of \<open>kern/fs/sfs/sfs.h\<close>, the state of a mounted
  volume and the block transfers of \<open>kern/fs/sfs/sfs_io.c\<close>. A volume holds the device \<open>disk0\<close>
  itself; everything on disk is bytes, little-endian as on the machine. Read operations return the
  bytes they deliver to the caller's buffer. The semaphores \<open>io_sem\<close>, \<open>fs_sem\<close> and the one of each
  inode make the bracketed sections single steps and are not part of the state.
\<close>

section \<open>Words as bytes\<close>

definition le16 :: "u16 \<Rightarrow> u8 list" where
  "le16 w = [ucast w, ucast (drop_bit 8 w)]"

definition le32 :: "u32 \<Rightarrow> u8 list" where
  "le32 w = [ucast w, ucast (drop_bit 8 w), ucast (drop_bit 16 w), ucast (drop_bit 24 w)]"

definition of_le16 :: "u8 list \<Rightarrow> u16" where
  "of_le16 bs = ucast (bs ! 0) OR push_bit 8 (ucast (bs ! 1))"

definition of_le32 :: "u8 list \<Rightarrow> u32" where
  "of_le32 bs = ucast (bs ! 0) OR push_bit 8 (ucast (bs ! 1)) OR push_bit 16 (ucast (bs ! 2)) OR push_bit 24 (ucast (bs ! 3))"

section \<open>Structures\<close>

definition SFS_MAGIC :: u32 where "SFS_MAGIC = 0x2f8dbe2a"
definition SFS_BLKSIZE :: u32 where "SFS_BLKSIZE = 4096"
definition SFS_NDIRECT :: u32 where "SFS_NDIRECT = 12"
definition SFS_MAX_FNAME_LEN :: nat where "SFS_MAX_FNAME_LEN = 255"
definition SFS_MAX_FILE_SIZE :: u32 where "SFS_MAX_FILE_SIZE = 1024 * 1024 * 128"
definition SFS_BLKN_SUPER :: u32 where "SFS_BLKN_SUPER = 0"
definition SFS_BLKN_ROOT :: u32 where "SFS_BLKN_ROOT = 1"
definition SFS_BLKN_FREEMAP :: u32 where "SFS_BLKN_FREEMAP = 2"
definition SFS_BLKBITS :: u32 where "SFS_BLKBITS = SFS_BLKSIZE * 8"
definition SFS_BLK_NENTRY :: u32 where "SFS_BLK_NENTRY = SFS_BLKSIZE div 4"

definition SFS_TYPE_FILE :: u16 where "SFS_TYPE_FILE = 1"
definition SFS_TYPE_DIR :: u16 where "SFS_TYPE_DIR = 2"
definition SFS_TYPE_LINK :: u16 where "SFS_TYPE_LINK = 3"

record sfs_super =
  sb_magic :: u32
  sb_blocks :: u32
  unused_blocks :: u32
  sb_info :: "u8 list"

record sfs_disk_inode =
  din_size :: u32
  din_type :: u16
  din_nlinks :: u16
  din_blocks :: u32
  din_direct :: "u32 list"
  din_indirect :: u32

record sfs_disk_entry =
  ent_ino :: u32
  ent_name :: "u8 list"

record sfs_inode =
  din :: sfs_disk_inode
  ino :: u32
  dirty :: bool
  reclaim_count :: int

text \<open>The fields that \<open>struct inode\<close> adds around a \<open>sfs_inode\<close>: its operations and counts.\<close>

datatype node_ops = sfs_node_dirops | sfs_node_fileops

record inode =
  in_ops :: node_ops
  ref_count :: int
  open_count :: int

text \<open>List entries: the head of the list of all inodes and the heads of the hash lists, and the
  \<open>inode_link\<close> and \<open>hash_link\<close> of inode \<open>p\<close>.\<close>

datatype snode = InodeList | InodeLink nat
datatype hnode = HashList u32 | HashLink nat

record sfs_fs =
  super :: sfs_super
  dev :: disk0
  freemap :: bitmap
  super_dirty :: bool
  sfs_buffer :: "u8 list"
  inode_list :: "snode links"
  hash_list :: "hnode links"
  sins :: "nat \<Rightarrow> sfs_inode"
  vnodes :: "nat \<Rightarrow> inode"
  killed :: "nat list"

definition sfs_freemap_bits :: "sfs_super \<Rightarrow> u32" where
  "sfs_freemap_bits sb = ROUNDUP (sb_blocks sb) SFS_BLKBITS"

definition sfs_freemap_blocks :: "sfs_super \<Rightarrow> u32" where
  "sfs_freemap_blocks sb = ROUNDUP_DIV (sb_blocks sb) SFS_BLKBITS"

text \<open>\<open>libs/hash.c\<close>.\<close>

definition hash32 :: "u32 \<Rightarrow> nat \<Rightarrow> u32" where
  "hash32 val bits = drop_bit (32 - bits) (val * 0x9e370001)"

definition sin_hashfn :: "u32 \<Rightarrow> u32" where
  "sin_hashfn x = hash32 x 10"

text \<open>The bytes of the structures.\<close>

definition super_bytes :: "sfs_super \<Rightarrow> u8 list" where
  "super_bytes sb = le32 (sb_magic sb) @ le32 (sb_blocks sb) @ le32 (unused_blocks sb) @ sb_info sb"

definition bytes_super :: "u8 list \<Rightarrow> sfs_super" where
  "bytes_super bs = \<lparr>sb_magic = of_le32 bs, sb_blocks = of_le32 (drop 4 bs), unused_blocks = of_le32 (drop 8 bs),
     sb_info = slice bs 12 32\<rparr>"

definition din_bytes :: "sfs_disk_inode \<Rightarrow> u8 list" where
  "din_bytes d = le32 (din_size d) @ le16 (din_type d) @ le16 (din_nlinks d) @ le32 (din_blocks d) @
     concat (map le32 (din_direct d)) @ le32 (din_indirect d)"

definition bytes_din :: "u8 list \<Rightarrow> sfs_disk_inode" where
  "bytes_din bs = \<lparr>din_size = of_le32 bs, din_type = of_le16 (drop 4 bs), din_nlinks = of_le16 (drop 6 bs),
     din_blocks = of_le32 (drop 8 bs), din_direct = map (\<lambda>k. of_le32 (drop (12 + 4 * k) bs)) [0..<12],
     din_indirect = of_le32 (drop 60 bs)\<rparr>"

definition bytes_entry :: "u8 list \<Rightarrow> sfs_disk_entry" where
  "bytes_entry bs = \<lparr>ent_ino = of_le32 bs, ent_name = slice bs 4 (SFS_MAX_FNAME_LEN + 1)\<rparr>"

section \<open>Block transfers\<close>

text \<open>The error or 0, the buffer of one block afterwards, and the volume.\<close>

definition sfs_rwblock_nolock ::
  "sfs_fs \<Rightarrow> u8 list \<Rightarrow> u32 \<Rightarrow> bool \<Rightarrow> bool \<Rightarrow> ((errno + unit) \<times> u8 list \<times> sfs_fs) res" where
  "sfs_rwblock_nolock s buf blkno wr check =
     assert_c ((blkno \<noteq> 0 \<or> \<not> check) \<and> blkno < sb_blocks (super s))
       (res_bind (disk0_io (dev s) (iobuf_init buf SFS_BLKSIZE (blkno * SFS_BLKSIZE)) wr) (\<lambda>(r, d, iob).
        Ok (r, io_mem iob, s\<lparr>dev := d\<rparr>)))"

text \<open>\<open>pos\<close> is how far \<open>buf\<close> has moved in the caller's buffer.\<close>

fun rwblock_loop :: "sfs_fs \<Rightarrow> u8 list \<Rightarrow> nat \<Rightarrow> u32 \<Rightarrow> nat \<Rightarrow> bool \<Rightarrow> ((errno + unit) \<times> u8 list \<times> sfs_fs) res" where
  "rwblock_loop s buf pos blkno 0 wr = Ok (Inr (), buf, s)"
| "rwblock_loop s buf pos blkno (Suc n) wr =
     res_bind (sfs_rwblock_nolock s (slice buf pos 4096) blkno wr True) (\<lambda>(r, blk, s1).
     case r of Inl e \<Rightarrow> Ok (Inl e, splice buf pos blk, s1)
     | Inr _ \<Rightarrow> rwblock_loop s1 (splice buf pos blk) (pos + 4096) (blkno + 1) n wr)"

definition sfs_rwblock :: "sfs_fs \<Rightarrow> u8 list \<Rightarrow> u32 \<Rightarrow> u32 \<Rightarrow> bool \<Rightarrow> ((errno + unit) \<times> u8 list \<times> sfs_fs) res" where
  "sfs_rwblock s buf blkno nblks wr = rwblock_loop s buf 0 blkno (unat nblks) wr"

definition sfs_rblock :: "sfs_fs \<Rightarrow> u8 list \<Rightarrow> u32 \<Rightarrow> u32 \<Rightarrow> ((errno + unit) \<times> u8 list \<times> sfs_fs) res" where
  "sfs_rblock s buf blkno nblks = sfs_rwblock s buf blkno nblks False"

definition sfs_wblock :: "sfs_fs \<Rightarrow> u8 list \<Rightarrow> u32 \<Rightarrow> u32 \<Rightarrow> ((errno + unit) \<times> u8 list \<times> sfs_fs) res" where
  "sfs_wblock s buf blkno nblks = sfs_rwblock s buf blkno nblks True"

definition in_block :: "u32 \<Rightarrow> u32 \<Rightarrow> bool" where
  "in_block offset len \<longleftrightarrow> 0 \<le> sint offset \<and> sint offset < 4096 \<and> offset + len \<le> SFS_BLKSIZE"

text \<open>\<open>sfs_rbuf\<close> returns the \<open>len\<close> bytes that it copies to the caller.\<close>

definition sfs_rbuf :: "sfs_fs \<Rightarrow> u32 \<Rightarrow> u32 \<Rightarrow> u32 \<Rightarrow> ((errno + u8 list) \<times> sfs_fs) res" where
  "sfs_rbuf s len blkno offset =
     assert_c (in_block offset len)
       (res_bind (sfs_rwblock_nolock s (sfs_buffer s) blkno False True) (\<lambda>(r, blk, s1).
        let s2 = s1\<lparr>sfs_buffer := blk\<rparr> in
        Ok (case r of Inl e \<Rightarrow> Inl e | Inr _ \<Rightarrow> Inr (slice blk (unat offset) (unat len)), s2)))"

definition sfs_wbuf :: "sfs_fs \<Rightarrow> u8 list \<Rightarrow> u32 \<Rightarrow> u32 \<Rightarrow> u32 \<Rightarrow> ((errno + unit) \<times> sfs_fs) res" where
  "sfs_wbuf s buf len blkno offset =
     assert_c (in_block offset len)
       (res_bind (sfs_rwblock_nolock s (sfs_buffer s) blkno False True) (\<lambda>(r, blk, s1).
        let s2 = s1\<lparr>sfs_buffer := blk\<rparr> in
        case r of Inl e \<Rightarrow> Ok (Inl e, s2)
        | Inr _ \<Rightarrow>
          let s3 = s2\<lparr>sfs_buffer := splice blk (unat offset) (slice buf 0 (unat len))\<rparr> in
          res_bind (sfs_rwblock_nolock s3 (sfs_buffer s3) blkno True True) (\<lambda>(r', blk', s4).
          Ok (r', s4\<lparr>sfs_buffer := blk'\<rparr>))))"

definition sfs_sync_super :: "sfs_fs \<Rightarrow> ((errno + unit) \<times> sfs_fs) res" where
  "sfs_sync_super s =
     (let s1 = s\<lparr>sfs_buffer := splice (replicate 4096 0) 0 (super_bytes (super s))\<rparr> in
      res_bind (sfs_rwblock_nolock s1 (sfs_buffer s1) SFS_BLKN_SUPER True False) (\<lambda>(r, blk, s2).
      Ok (r, s2\<lparr>sfs_buffer := blk\<rparr>)))"

definition sfs_sync_freemap :: "sfs_fs \<Rightarrow> ((errno + unit) \<times> sfs_fs) res" where
  "sfs_sync_freemap s =
     (let nblks = sfs_freemap_blocks (super s); data = concat (map le32 (fst (bitmap_getdata (freemap s)))) in
      res_bind (sfs_wblock s data SFS_BLKN_FREEMAP nblks) (\<lambda>(r, _, s1). Ok (r, s1)))"

text \<open>\<open>ret\<close> is the indeterminate value that the variable has before the loop.\<close>

fun clear_loop :: "sfs_fs \<Rightarrow> u32 \<Rightarrow> nat \<Rightarrow> errno + unit \<Rightarrow> ((errno + unit) \<times> sfs_fs) res" where
  "clear_loop s blkno 0 ret = Ok (ret, s)"
| "clear_loop s blkno (Suc n) ret =
     res_bind (sfs_rwblock_nolock s (sfs_buffer s) blkno True True) (\<lambda>(r, blk, s1).
     let s2 = s1\<lparr>sfs_buffer := blk\<rparr> in
     case r of Inl e \<Rightarrow> Ok (Inl e, s2) | Inr _ \<Rightarrow> clear_loop s2 (blkno + 1) n r)"

definition sfs_clear_block :: "errno + unit \<Rightarrow> sfs_fs \<Rightarrow> u32 \<Rightarrow> u32 \<Rightarrow> ((errno + unit) \<times> sfs_fs) res" where
  "sfs_clear_block ret s blkno nblks = clear_loop (s\<lparr>sfs_buffer := replicate 4096 0\<rparr>) blkno (unat nblks) ret"

section \<open>Bytes and words\<close>

lemma le32_length [simp]: "length (le32 w) = 4"
  by (simp add: le32_def)

lemma le16_length [simp]: "length (le16 w) = 2"
  by (simp add: le16_def)

lemma of_le32_le32: "of_le32 (le32 w @ bs) = w"
proof (rule bit_word_eqI)
  fix n
  assume "n < LENGTH(32)"
  then have "n < 8 \<or> (8 \<le> n \<and> n < 16) \<or> (16 \<le> n \<and> n < 24) \<or> (24 \<le> n \<and> n < 32)" by auto
  then show "bit (of_le32 (le32 w @ bs)) n = bit w n"
    by (auto simp: of_le32_def le32_def bit_or_iff bit_push_bit_iff bit_ucast_iff bit_drop_bit_eq)
qed

lemma of_le16_le16: "of_le16 (le16 w @ bs) = w"
proof (rule bit_word_eqI)
  fix n
  assume "n < LENGTH(16)"
  then have "n < 8 \<or> (8 \<le> n \<and> n < 16)" by auto
  then show "bit (of_le16 (le16 w @ bs)) n = bit w n"
    by (auto simp: of_le16_def le16_def bit_or_iff bit_push_bit_iff bit_ucast_iff bit_drop_bit_eq)
qed

lemma of_le32_cong: "take 4 xs = take 4 ys \<Longrightarrow> 4 \<le> length xs \<Longrightarrow> 4 \<le> length ys \<Longrightarrow> of_le32 xs = of_le32 ys"
proof -
  assume a: "take 4 xs = take 4 ys" "4 \<le> length xs" "4 \<le> length ys"
  have "xs ! i = ys ! i" if "i < 4" for i using a that by (metis nth_take)
  then show ?thesis by (simp add: of_le32_def)
qed

lemma of_le32_exact [simp]: "of_le32 (le32 w) = w"
  using of_le32_le32 [of w "[]"] by simp

lemma of_le32_zeros [simp]: "of_le32 (replicate n 0) = 0" if "4 \<le> n" for n
  using that by (simp add: of_le32_def)

end
