(* ===== verification/Sfs.thy ===== *)
theory Sfs
  imports Sfs_State
begin

text \<open>
  The inodes of the simple file system, \<open>kern/fs/sfs/sfs_inode.c\<close>: blocks, the map from the index
  of a block in a file to its number on the disk, directories, reading, writing and resizing of
  files. An operation that returns 0 or an error code returns a value of \<open>errno + 'a\<close>, where \<open>'a\<close>
  is what the C code stores through its result pointers. The inode that a pointer names is
  addressed by a number. Answers of \<open>kmalloc\<close> are arguments.
\<close>

definition upd_sin :: "sfs_fs \<Rightarrow> nat \<Rightarrow> (sfs_inode \<Rightarrow> sfs_inode) \<Rightarrow> sfs_fs" where
  "upd_sin s p f = s\<lparr>sins := (sins s)(p := f (sins s p))\<rparr>"

definition upd_din :: "sfs_fs \<Rightarrow> nat \<Rightarrow> (sfs_disk_inode \<Rightarrow> sfs_disk_inode) \<Rightarrow> sfs_fs" where
  "upd_din s p f = upd_sin s p (\<lambda>i. i\<lparr>din := f (din i)\<rparr>)"

definition upd_vnode :: "sfs_fs \<Rightarrow> nat \<Rightarrow> (inode \<Rightarrow> inode) \<Rightarrow> sfs_fs" where
  "upd_vnode s p f = s\<lparr>vnodes := (vnodes s)(p := f (vnodes s p))\<rparr>"

definition set_dirty :: "bool \<Rightarrow> sfs_inode \<Rightarrow> sfs_inode" where
  "set_dirty b i = i\<lparr>dirty := b\<rparr>"

section \<open>Blocks\<close>

definition sfs_block_inuse :: "sfs_fs \<Rightarrow> u32 \<Rightarrow> bool res" where
  "sfs_block_inuse s i =
     (if i \<noteq> 0 \<and> i < sb_blocks (super s) then res_bind (bitmap_test (freemap s) i) (\<lambda>b. Ok (\<not> b)) else Panic)"

definition assert_inuse :: "sfs_fs \<Rightarrow> u32 \<Rightarrow> 'a res \<Rightarrow> 'a res" where
  "assert_inuse s i k = res_bind (sfs_block_inuse s i) (\<lambda>b. assert_c b k)"

definition sfs_block_alloc :: "sfs_fs \<Rightarrow> ((errno + u32) \<times> sfs_fs) res" where
  "sfs_block_alloc s =
     res_bind (bitmap_alloc (freemap s)) (\<lambda>(r, fm).
     let s1 = s\<lparr>freemap := fm\<rparr> in
     case r of Inl e \<Rightarrow> Ok (Inl e, s1)
     | Inr i \<Rightarrow>
       assert_c (unused_blocks (super s1) > 0)
       (let s2 = s1\<lparr>super := (super s1)\<lparr>unused_blocks := unused_blocks (super s1) - 1\<rparr>, super_dirty := True\<rparr> in
        assert_inuse s2 i
          (res_bind (sfs_clear_block (Inr ()) s2 i 1) (\<lambda>(r', s3).
           Ok (case r' of Inl e \<Rightarrow> Inl e | Inr _ \<Rightarrow> Inr i, s3)))))"

definition sfs_block_free :: "sfs_fs \<Rightarrow> u32 \<Rightarrow> sfs_fs res" where
  "sfs_block_free s i =
     assert_inuse s i
       (res_bind (bitmap_free (freemap s) i) (\<lambda>fm.
        Ok (s\<lparr>freemap := fm, super := (super s)\<lparr>unused_blocks := unused_blocks (super s) + 1\<rparr>, super_dirty := True\<rparr>)))"

section \<open>The blocks of a file\<close>

text \<open>The label \<open>failed_cleanup\<close> of \<open>sfs_bmap_get_sub_nolock\<close>, and what it does from the second
  allocation on. \<open>entp\<close> is the value behind the pointer of that name, \<open>ent\<close> the entry block.\<close>

definition sub_cleanup :: "sfs_fs \<Rightarrow> u32 \<Rightarrow> u32 \<Rightarrow> errno \<Rightarrow> ((errno + u32 \<times> u32) \<times> sfs_fs) res" where
  "sub_cleanup s entp ent e =
     (if ent \<noteq> entp then res_bind (sfs_block_free s ent) (\<lambda>s'. Ok (Inl e, s')) else Ok (Inl e, s))"

definition sub_create :: "sfs_fs \<Rightarrow> u32 \<Rightarrow> u32 \<Rightarrow> u32 \<Rightarrow> ((errno + u32 \<times> u32) \<times> sfs_fs) res" where
  "sub_create s entp ent offset =
     res_bind (sfs_block_alloc s) (\<lambda>(r, s1).
     case r of Inl e \<Rightarrow> sub_cleanup s1 entp ent e
     | Inr i \<Rightarrow>
       res_bind (sfs_wbuf s1 (le32 i) 4 ent offset) (\<lambda>(r', s2).
       case r' of Inl e \<Rightarrow> res_bind (sfs_block_free s2 i) (\<lambda>s3. sub_cleanup s3 entp ent e)
       | Inr _ \<Rightarrow> Ok (Inr (ent, i), s2)))"

definition sfs_bmap_get_sub_nolock ::
  "sfs_fs \<Rightarrow> u32 \<Rightarrow> u32 \<Rightarrow> bool \<Rightarrow> ((errno + u32 \<times> u32) \<times> sfs_fs) res" where
  "sfs_bmap_get_sub_nolock s entp index create =
     assert_c (index < SFS_BLK_NENTRY)
       (let offset = index * 4 in
        if entp \<noteq> 0 then
          res_bind (sfs_rbuf s 4 entp offset) (\<lambda>(r, s1).
          case r of Inl e \<Rightarrow> Ok (Inl e, s1)
          | Inr bs \<Rightarrow> if of_le32 bs \<noteq> 0 \<or> \<not> create then Ok (Inr (entp, of_le32 bs), s1)
                      else sub_create s1 entp entp offset)
        else if \<not> create then Ok (Inr (entp, 0), s)
        else res_bind (sfs_block_alloc s) (\<lambda>(r, s1).
          case r of Inl e \<Rightarrow> Ok (Inl e, s1) | Inr ent \<Rightarrow> sub_create s1 entp ent offset))"

text \<open>The label \<open>out\<close> of \<open>sfs_bmap_get_nolock\<close>.\<close>

definition bmap_out :: "sfs_fs \<Rightarrow> u32 \<Rightarrow> ((errno + u32) \<times> sfs_fs) res" where
  "bmap_out s i = (if i = 0 then Ok (Inr i, s) else assert_inuse s i (Ok (Inr i, s)))"

definition sfs_bmap_get_nolock :: "sfs_fs \<Rightarrow> nat \<Rightarrow> u32 \<Rightarrow> bool \<Rightarrow> ((errno + u32) \<times> sfs_fs) res" where
  "sfs_bmap_get_nolock s p index create =
     (let d = din (sins s p) in
      if index < SFS_NDIRECT then
        let i = din_direct d ! unat index in
        if i = 0 \<and> create then
          res_bind (sfs_block_alloc s) (\<lambda>(r, s1).
          case r of Inl e \<Rightarrow> Ok (Inl e, s1)
          | Inr i' \<Rightarrow>
            let s2 = upd_din s1 p (\<lambda>d. d\<lparr>din_direct := (din_direct d)[unat index := i']\<rparr>)
            in bmap_out (upd_sin s2 p (set_dirty True)) i')
        else bmap_out s i
      else
        let index' = index - SFS_NDIRECT in
        if index' < SFS_BLK_NENTRY then
          res_bind (sfs_bmap_get_sub_nolock s (din_indirect d) index' create) (\<lambda>(r, s1).
          case r of Inl e \<Rightarrow> Ok (Inl e, s1)
          | Inr (ent, i) \<Rightarrow>
            if ent \<noteq> din_indirect (din (sins s1 p)) then
              assert_c (din_indirect (din (sins s1 p)) = 0)
                (bmap_out (upd_sin (upd_din s1 p (\<lambda>d. d\<lparr>din_indirect := ent\<rparr>)) p (set_dirty True)) i)
            else bmap_out s1 i)
        else Panic)"

definition sfs_bmap_free_sub_nolock :: "sfs_fs \<Rightarrow> u32 \<Rightarrow> u32 \<Rightarrow> ((errno + unit) \<times> sfs_fs) res" where
  "sfs_bmap_free_sub_nolock s ent index =
     assert_inuse s ent (assert_c (index < SFS_BLK_NENTRY)
       (let offset = index * 4 in
        res_bind (sfs_rbuf s 4 ent offset) (\<lambda>(r, s1).
        case r of Inl e \<Rightarrow> Ok (Inl e, s1)
        | Inr bs \<Rightarrow>
          if of_le32 bs \<noteq> 0 then
            res_bind (sfs_wbuf s1 (le32 0) 4 ent offset) (\<lambda>(r', s2).
            case r' of Inl e \<Rightarrow> Ok (Inl e, s2)
            | Inr _ \<Rightarrow> res_bind (sfs_block_free s2 (of_le32 bs)) (\<lambda>s3. Ok (Inr (), s3)))
          else Ok (Inr (), s1))))"

definition sfs_bmap_free_nolock :: "sfs_fs \<Rightarrow> nat \<Rightarrow> u32 \<Rightarrow> ((errno + unit) \<times> sfs_fs) res" where
  "sfs_bmap_free_nolock s p index =
     (let d = din (sins s p) in
      if index < SFS_NDIRECT then
        let i = din_direct d ! unat index in
        if i \<noteq> 0 then
          res_bind (sfs_block_free s i) (\<lambda>s1.
          let s2 = upd_din s1 p (\<lambda>d. d\<lparr>din_direct := (din_direct d)[unat index := 0]\<rparr>)
          in Ok (Inr (), upd_sin s2 p (set_dirty True)))
        else Ok (Inr (), s)
      else
        let index' = index - SFS_NDIRECT in
        if index' < SFS_BLK_NENTRY then
          if din_indirect d \<noteq> 0 then sfs_bmap_free_sub_nolock s (din_indirect d) index'
          else Ok (Inr (), s)
        else Ok (Inr (), s))"

definition sfs_bmap_load_nolock :: "sfs_fs \<Rightarrow> nat \<Rightarrow> u32 \<Rightarrow> ((errno + u32) \<times> sfs_fs) res" where
  "sfs_bmap_load_nolock s p index =
     assert_c (index \<le> din_blocks (din (sins s p)))
       (let create = (index = din_blocks (din (sins s p))) in
        res_bind (sfs_bmap_get_nolock s p index create) (\<lambda>(r, s1).
        case r of Inl e \<Rightarrow> Ok (Inl e, s1)
        | Inr i \<Rightarrow>
          assert_inuse s1 i
            (Ok (Inr i, if create then upd_din s1 p (\<lambda>d. d\<lparr>din_blocks := din_blocks d + 1\<rparr>) else s1))))"

definition sfs_bmap_truncate_nolock :: "sfs_fs \<Rightarrow> nat \<Rightarrow> ((errno + unit) \<times> sfs_fs) res" where
  "sfs_bmap_truncate_nolock s p =
     assert_c (din_blocks (din (sins s p)) \<noteq> 0)
       (res_bind (sfs_bmap_free_nolock s p (din_blocks (din (sins s p)) - 1)) (\<lambda>(r, s1).
        case r of Inl e \<Rightarrow> Ok (Inl e, s1)
        | Inr _ \<Rightarrow> Ok (Inr (), upd_sin (upd_din s1 p (\<lambda>d. d\<lparr>din_blocks := din_blocks d - 1\<rparr>)) p (set_dirty True))))"

section \<open>Reading and writing\<close>

text \<open>One part of a transfer inside block \<open>blkno\<close> of the file: \<open>sfs_bmap_load_nolock\<close> and the
  buffer operation. \<open>pos\<close> is how far \<open>buf\<close> has moved.\<close>

definition io_part ::
  "sfs_fs \<Rightarrow> nat \<Rightarrow> u8 list \<Rightarrow> nat \<Rightarrow> u32 \<Rightarrow> u32 \<Rightarrow> u32 \<Rightarrow> bool \<Rightarrow> ((errno + unit) \<times> u8 list \<times> sfs_fs) res" where
  "io_part s p buf pos sz blkno blkoff wr =
     res_bind (sfs_bmap_load_nolock s p blkno) (\<lambda>(r, s1).
     case r of Inl e \<Rightarrow> Ok (Inl e, buf, s1)
     | Inr i \<Rightarrow>
       if wr then res_bind (sfs_wbuf s1 (drop pos buf) sz i blkoff) (\<lambda>(r', s2). Ok (r', buf, s2))
       else res_bind (sfs_rbuf s1 sz i blkoff) (\<lambda>(r', s2).
         Ok (case r' of Inl e \<Rightarrow> (Inl e, buf, s2) | Inr bs \<Rightarrow> (Inr (), splice buf pos bs, s2))))"

definition io_block ::
  "sfs_fs \<Rightarrow> nat \<Rightarrow> u8 list \<Rightarrow> nat \<Rightarrow> u32 \<Rightarrow> bool \<Rightarrow> ((errno + unit) \<times> u8 list \<times> sfs_fs) res" where
  "io_block s p buf pos blkno wr =
     res_bind (sfs_bmap_load_nolock s p blkno) (\<lambda>(r, s1).
     case r of Inl e \<Rightarrow> Ok (Inl e, buf, s1)
     | Inr i \<Rightarrow>
       res_bind ((if wr then sfs_wblock else sfs_rblock) s1 (slice buf pos 4096) i 1) (\<lambda>(r', blk, s2).
       Ok (r', splice buf pos blk, s2)))"

text \<open>The loop over whole blocks; besides error, buffer and volume the number of bytes moved so
  far and the number of the next block.\<close>

fun io_loop ::
  "sfs_fs \<Rightarrow> nat \<Rightarrow> u8 list \<Rightarrow> u32 \<Rightarrow> u32 \<Rightarrow> nat \<Rightarrow> bool \<Rightarrow> ((errno + unit) \<times> u8 list \<times> u32 \<times> u32 \<times> sfs_fs) res" where
  "io_loop s p buf alen blkno 0 wr = Ok (Inr (), buf, alen, blkno, s)"
| "io_loop s p buf alen blkno (Suc n) wr =
     res_bind (io_block s p buf (unat alen) blkno wr) (\<lambda>(r, buf1, s1).
     case r of Inl e \<Rightarrow> Ok (Inl e, buf1, alen, blkno, s1)
     | Inr _ \<Rightarrow> io_loop s1 p buf1 (alen + SFS_BLKSIZE) (blkno + 1) n wr)"

text \<open>From the loop on: whole blocks, then the beginning of the last one.\<close>

definition io_rest ::
  "sfs_fs \<Rightarrow> nat \<Rightarrow> u8 list \<Rightarrow> u32 \<Rightarrow> u32 \<Rightarrow> u32 \<Rightarrow> u32 \<Rightarrow> bool \<Rightarrow> ((errno + unit) \<times> u8 list \<times> u32 \<times> sfs_fs) res" where
  "io_rest s p buf alen blkno nblks endpos wr =
     res_bind (io_loop s p buf alen blkno (unat nblks) wr) (\<lambda>(r, buf1, alen1, blkno1, s1).
     case r of Inl e \<Rightarrow> Ok (Inl e, buf1, alen1, s1)
     | Inr _ \<Rightarrow>
       let sz = endpos mod SFS_BLKSIZE in
       if sz \<noteq> 0 then
         res_bind (io_part s1 p buf1 (unat alen1) sz blkno1 0 wr) (\<lambda>(r', buf2, s2).
         case r' of Inl e \<Rightarrow> Ok (Inl e, buf2, alen1, s2) | Inr _ \<Rightarrow> Ok (Inr (), buf2, alen1 + sz, s2))
       else Ok (Inr (), buf1, alen1, s1))"

text \<open>The three parts between the computation of the range and the label \<open>out\<close>.\<close>

definition io_body ::
  "sfs_fs \<Rightarrow> nat \<Rightarrow> u8 list \<Rightarrow> u32 \<Rightarrow> u32 \<Rightarrow> bool \<Rightarrow> ((errno + unit) \<times> u8 list \<times> u32 \<times> sfs_fs) res" where
  "io_body s p buf offset endpos wr =
     (let blkno = offset div SFS_BLKSIZE; nblks = endpos div SFS_BLKSIZE - blkno; blkoff = offset mod SFS_BLKSIZE in
      if blkoff \<noteq> 0 then
        let sz = (if nblks \<noteq> 0 then SFS_BLKSIZE - blkoff else endpos - offset) in
        res_bind (io_part s p buf 0 sz blkno blkoff wr) (\<lambda>(r, buf1, s1).
        case r of Inl e \<Rightarrow> Ok (Inl e, buf1, 0, s1)
        | Inr _ \<Rightarrow>
          if nblks = 0 then Ok (Inr (), buf1, sz, s1)
          else io_rest s1 p buf1 sz (blkno + 1) (nblks - 1) endpos wr)
      else io_rest s p buf 0 blkno nblks endpos wr)"

text \<open>The error or 0, the buffer, the number of bytes moved and the volume. Offsets are signed.\<close>

definition sfs_io_nolock ::
  "sfs_fs \<Rightarrow> nat \<Rightarrow> u8 list \<Rightarrow> u32 \<Rightarrow> u32 \<Rightarrow> bool \<Rightarrow> ((errno + unit) \<times> u8 list \<times> u32 \<times> sfs_fs) res" where
  "sfs_io_nolock s p buf offset len wr =
     assert_c (din_type (din (sins s p)) \<noteq> SFS_TYPE_DIR)
       (let endpos = offset + len in
        if sint offset < 0 \<or> SFS_MAX_FILE_SIZE \<le> offset \<or> sint endpos < sint offset then Ok (Inl E_INVAL, buf, 0, s)
        else if offset = endpos then Ok (Inr (), buf, 0, s)
        else
          let endpos1 = (if SFS_MAX_FILE_SIZE < endpos then SFS_MAX_FILE_SIZE else endpos);
              fsize = din_size (din (sins s p)) in
          if \<not> wr \<and> fsize \<le> offset then Ok (Inr (), buf, 0, s)
          else
            let endpos2 = (if \<not> wr \<and> fsize < endpos1 then fsize else endpos1) in
            res_bind (io_body s p buf offset endpos2 wr) (\<lambda>(r, buf1, alen, s1).
            Ok (r, buf1, alen,
              if din_size (din (sins s1 p)) < offset + alen
              then upd_sin (upd_din s1 p (\<lambda>d. d\<lparr>din_size := offset + alen\<rparr>)) p (set_dirty True) else s1)))"

definition sfs_io :: "sfs_fs \<Rightarrow> nat \<Rightarrow> iobuf \<Rightarrow> bool \<Rightarrow> ((errno + unit) \<times> iobuf \<times> sfs_fs) res" where
  "sfs_io s p iob wr =
     res_bind (sfs_io_nolock s p (drop (io_base iob) (io_mem iob)) (io_offset iob) (io_resid iob) wr) (\<lambda>(r, buf, alen, s1).
     let iob1 = iob\<lparr>io_mem := take (io_base iob) (io_mem iob) @ buf\<rparr> in
     if alen \<noteq> 0 then res_bind (iobuf_skip iob1 alen) (\<lambda>iob2. Ok (r, iob2, s1)) else Ok (r, iob1, s1))"

definition sfs_read :: "sfs_fs \<Rightarrow> nat \<Rightarrow> iobuf \<Rightarrow> ((errno + unit) \<times> iobuf \<times> sfs_fs) res" where
  "sfs_read s p iob = sfs_io s p iob False"

definition sfs_write :: "sfs_fs \<Rightarrow> nat \<Rightarrow> iobuf \<Rightarrow> ((errno + unit) \<times> iobuf \<times> sfs_fs) res" where
  "sfs_write s p iob = sfs_io s p iob True"

end
