(* ===== verification/Sfs_Node.thy ===== *)
theory Sfs_Node
  imports Sfs
begin

text \<open>
  The other operations of the simple file system: resizing, directories, the inodes in memory with
  their reference counts (\<open>kern/fs/vfs/inode.c\<close>), and the volume as a whole (\<open>kern/fs/sfs/sfs_fs.c\<close>).
  File names are the bytes before the terminating 0; \<open>strcmp\<close> of two names is 0 when they are equal.
\<close>

section \<open>Calls through the operation table\<close>

definition MAX_INODE_COUNT :: int where "MAX_INODE_COUNT = 0x10000"

definition inode_check :: "sfs_fs \<Rightarrow> nat \<Rightarrow> bool" where
  "inode_check s p \<longleftrightarrow> (let v = vnodes s p in
     open_count v \<le> ref_count v \<and> 0 \<le> open_count v \<and> ref_count v < MAX_INODE_COUNT \<and> open_count v < MAX_INODE_COUNT)"

definition inode_ref_inc :: "sfs_fs \<Rightarrow> nat \<Rightarrow> int \<times> sfs_fs" where
  "inode_ref_inc s p =
     (let s1 = upd_vnode s p (\<lambda>v. v\<lparr>ref_count := ref_count v + 1\<rparr>) in (ref_count (vnodes s1 p), s1))"

definition inode_init :: "sfs_fs \<Rightarrow> nat \<Rightarrow> node_ops \<Rightarrow> sfs_fs" where
  "inode_init s p ops =
     snd (inode_ref_inc (upd_vnode s p (\<lambda>v. v\<lparr>ref_count := 0, open_count := 0, in_ops := ops\<rparr>)) p)"

definition inode_kill :: "sfs_fs \<Rightarrow> nat \<Rightarrow> sfs_fs res" where
  "inode_kill s p =
     assert_c (ref_count (vnodes s p) = 0) (assert_c (open_count (vnodes s p) = 0) (Ok (s\<lparr>killed := p # killed s\<rparr>)))"

definition inode_open_inc :: "sfs_fs \<Rightarrow> nat \<Rightarrow> int \<times> sfs_fs" where
  "inode_open_inc s p =
     (let s1 = upd_vnode s p (\<lambda>v. v\<lparr>open_count := open_count v + 1\<rparr>) in (open_count (vnodes s1 p), s1))"

section \<open>Resizing\<close>

fun trunc_grow :: "sfs_fs \<Rightarrow> nat \<Rightarrow> u32 \<Rightarrow> nat \<Rightarrow> ((errno + unit) \<times> sfs_fs) res" where
  "trunc_grow s p nblks 0 = Ok (Inr (), s)"
| "trunc_grow s p nblks (Suc n) =
     res_bind (sfs_bmap_load_nolock s p nblks) (\<lambda>(r, s1).
     case r of Inl e \<Rightarrow> Ok (Inl e, s1) | Inr _ \<Rightarrow> trunc_grow s1 p (nblks + 1) n)"

fun trunc_shrink :: "sfs_fs \<Rightarrow> nat \<Rightarrow> nat \<Rightarrow> ((errno + unit) \<times> sfs_fs) res" where
  "trunc_shrink s p 0 = Ok (Inr (), s)"
| "trunc_shrink s p (Suc n) =
     res_bind (sfs_bmap_truncate_nolock s p) (\<lambda>(r, s1).
     case r of Inl e \<Rightarrow> Ok (Inl e, s1) | Inr _ \<Rightarrow> trunc_shrink s1 p n)"

definition sfs_truncfile :: "sfs_fs \<Rightarrow> nat \<Rightarrow> u32 \<Rightarrow> ((errno + unit) \<times> sfs_fs) res" where
  "sfs_truncfile s p len =
     (if sint len < 0 \<or> SFS_MAX_FILE_SIZE < len then Ok (Inl E_INVAL, s)
      else
        let d = din (sins s p); tblks = ROUNDUP_DIV len SFS_BLKSIZE; nblks = din_blocks d in
        if din_size d = len then assert_c (tblks = nblks) (Ok (Inr (), s))
        else
          res_bind (if nblks < tblks then trunc_grow s p nblks (unat (tblks - nblks))
                    else if tblks < nblks then trunc_shrink s p (unat (nblks - tblks))
                    else Ok (Inr (), s)) (\<lambda>(r, s1).
          case r of Inl e \<Rightarrow> Ok (Inl e, s1)
          | Inr _ \<Rightarrow>
            assert_c (din_blocks (din (sins s1 p)) = tblks)
              (Ok (Inr (), upd_sin (upd_din s1 p (\<lambda>d. d\<lparr>din_size := len\<rparr>)) p (set_dirty True)))))"

text \<open>Directories have no \<open>vop_truncate\<close>.\<close>

definition vop_truncate :: "sfs_fs \<Rightarrow> nat \<Rightarrow> u32 \<Rightarrow> ((errno + unit) \<times> sfs_fs) res" where
  "vop_truncate s p len =
     (case in_ops (vnodes s p) of sfs_node_dirops \<Rightarrow> Panic
      | sfs_node_fileops \<Rightarrow> assert_c (inode_check s p) (sfs_truncfile s p len))"

definition sfs_tryseek :: "sfs_fs \<Rightarrow> nat \<Rightarrow> u32 \<Rightarrow> ((errno + unit) \<times> sfs_fs) res" where
  "sfs_tryseek s p pos =
     (if sint pos < 0 \<or> SFS_MAX_FILE_SIZE \<le> pos then Ok (Inl E_INVAL, s)
      else if din_size (din (sins s p)) < pos then vop_truncate s p pos
      else Ok (Inr (), s))"

section \<open>Writing back and reclaiming inodes\<close>

definition sfs_fsync :: "sfs_fs \<Rightarrow> nat \<Rightarrow> ((errno + unit) \<times> sfs_fs) res" where
  "sfs_fsync s p =
     (if dirty (sins s p) then
        res_bind (sfs_wbuf (upd_sin s p (set_dirty False)) (din_bytes (din (sins s p))) 64 (ino (sins s p)) 0) (\<lambda>(r, s1).
        Ok (case r of Inl e \<Rightarrow> (Inl e, upd_sin s1 p (set_dirty True)) | Inr _ \<Rightarrow> (Inr (), s1)))
      else Ok (Inr (), s))"

definition vop_fsync :: "sfs_fs \<Rightarrow> nat \<Rightarrow> ((errno + unit) \<times> sfs_fs) res" where
  "vop_fsync s p = assert_c (inode_check s p) (sfs_fsync s p)"

definition sfs_close :: "sfs_fs \<Rightarrow> nat \<Rightarrow> ((errno + unit) \<times> sfs_fs) res" where
  "sfs_close s p = vop_fsync s p"

definition sfs_set_links :: "sfs_fs \<Rightarrow> nat \<Rightarrow> sfs_fs" where
  "sfs_set_links s p =
     s\<lparr>inode_list := list_add (inode_list s) InodeList (InodeLink p),
       hash_list := list_add (hash_list s) (HashList (sin_hashfn (ino (sins s p)))) (HashLink p)\<rparr>"

definition sfs_remove_links :: "sfs_fs \<Rightarrow> nat \<Rightarrow> sfs_fs" where
  "sfs_remove_links s p =
     s\<lparr>inode_list := list_del (inode_list s) (InodeLink p), hash_list := list_del (hash_list s) (HashLink p)\<rparr>"

text \<open>After \<open>unlock_sfs_fs\<close>: the blocks of an inode without links, and the inode itself, go.\<close>

definition reclaim_finish :: "sfs_fs \<Rightarrow> nat \<Rightarrow> sfs_fs res" where
  "reclaim_finish s p =
     (let d = din (sins s p) in
      res_bind (if din_nlinks d = 0 then
          res_bind (sfs_block_free s (ino (sins s p))) (\<lambda>s1.
          if din_indirect d \<noteq> 0 then sfs_block_free s1 (din_indirect d) else Ok s1)
        else Ok s) (\<lambda>s2. inode_kill s2 p))"

definition sfs_reclaim :: "sfs_fs \<Rightarrow> nat \<Rightarrow> ((errno + unit) \<times> sfs_fs) res" where
  "sfs_reclaim s p =
     assert_c (0 < reclaim_count (sins s p))
       (let s1 = upd_sin s p (\<lambda>i. i\<lparr>reclaim_count := reclaim_count i - 1\<rparr>) in
        if reclaim_count (sins s1 p) \<noteq> 0 \<or> ref_count (vnodes s1 p) \<noteq> 0 then Ok (Inl E_BUSY, s1)
        else
          res_bind (if din_nlinks (din (sins s1 p)) = 0 then vop_truncate s1 p 0 else Ok (Inr (), s1)) (\<lambda>(r, s2).
          case r of Inl e \<Rightarrow> Ok (Inl e, s2)
          | Inr _ \<Rightarrow>
            res_bind (if dirty (sins s2 p) then vop_fsync s2 p else Ok (Inr (), s2)) (\<lambda>(r', s3).
            case r' of Inl e \<Rightarrow> Ok (Inl e, s3)
            | Inr _ \<Rightarrow> res_bind (reclaim_finish (sfs_remove_links s3 p) p) (\<lambda>s4. Ok (Inr (), s4)))))"

definition inode_ref_dec :: "sfs_fs \<Rightarrow> nat \<Rightarrow> (int \<times> sfs_fs) res" where
  "inode_ref_dec s p =
     assert_c (0 < ref_count (vnodes s p))
       (let s1 = upd_vnode s p (\<lambda>v. v\<lparr>ref_count := ref_count v - 1\<rparr>); n = ref_count (vnodes s1 p) in
        if n = 0 then assert_c (inode_check s1 p) (res_bind (sfs_reclaim s1 p) (\<lambda>(_, s2). Ok (n, s2)))
        else Ok (n, s1))"

definition inode_open_dec :: "sfs_fs \<Rightarrow> nat \<Rightarrow> (int \<times> sfs_fs) res" where
  "inode_open_dec s p =
     assert_c (0 < open_count (vnodes s p))
       (let s1 = upd_vnode s p (\<lambda>v. v\<lparr>open_count := open_count v - 1\<rparr>); n = open_count (vnodes s1 p) in
        if n = 0 then assert_c (inode_check s1 p) (res_bind (sfs_close s1 p) (\<lambda>(_, s2). Ok (n, s2)))
        else Ok (n, s1))"

section \<open>Loading inodes\<close>

definition sfs_get_ops :: "u16 \<Rightarrow> node_ops res" where
  "sfs_get_ops t =
     (if t = SFS_TYPE_DIR then Ok sfs_node_dirops else if t = SFS_TYPE_FILE then Ok sfs_node_fileops else Panic)"

definition sfs_create_inode ::
  "sfs_fs \<Rightarrow> sfs_disk_inode \<Rightarrow> u32 \<Rightarrow> nat option \<Rightarrow> ((errno + nat) \<times> sfs_fs) res" where
  "sfs_create_inode s d i m_node =
     (case m_node of None \<Rightarrow> Ok (Inl E_NO_MEM, s)
      | Some p \<Rightarrow>
        res_bind (sfs_get_ops (din_type d)) (\<lambda>ops.
        Ok (Inr p, upd_sin (inode_init s p ops) p (\<lambda>_. \<lparr>din = d, ino = i, dirty = False, reclaim_count = 1\<rparr>))))"

definition le2sin :: "hnode \<Rightarrow> nat" where
  "le2sin le = (case le of HashLink p \<Rightarrow> p | HashList _ \<Rightarrow> 0)"

definition lookup_sfs_nolock :: "sfs_fs \<Rightarrow> u32 \<Rightarrow> (nat option \<times> sfs_fs) res" where
  "lookup_sfs_nolock s i =
     (let l = HashList (sin_hashfn i) in
      case list_walk (hash_list s) l (\<lambda>le. ino (sins s (le2sin le)) = i) l of None \<Rightarrow> Diverge
      | Some None \<Rightarrow> Ok (None, s)
      | Some (Some le) \<Rightarrow>
        let p = le2sin le; (n, s1) = inode_ref_inc s p in
        Ok (Some p, if n = 1 then upd_sin s1 p (\<lambda>i. i\<lparr>reclaim_count := reclaim_count i + 1\<rparr>) else s1))"

definition sfs_load_inode :: "sfs_fs \<Rightarrow> u32 \<Rightarrow> bool \<Rightarrow> nat option \<Rightarrow> ((errno + nat) \<times> sfs_fs) res" where
  "sfs_load_inode s i m_din m_node =
     res_bind (lookup_sfs_nolock s i) (\<lambda>(node, s1).
     case node of Some p \<Rightarrow> Ok (Inr p, s1)
     | None \<Rightarrow>
       if \<not> m_din then Ok (Inl E_NO_MEM, s1)
       else assert_inuse s1 i
         (res_bind (sfs_rbuf s1 64 i 0) (\<lambda>(r, s2).
          case r of Inl e \<Rightarrow> Ok (Inl e, s2)
          | Inr bs \<Rightarrow>
            assert_c (din_nlinks (bytes_din bs) \<noteq> 0)
              (res_bind (sfs_create_inode s2 (bytes_din bs) i m_node) (\<lambda>(r', s3).
               case r' of Inl e \<Rightarrow> Ok (Inl e, s3) | Inr p \<Rightarrow> Ok (Inr p, sfs_set_links s3 p))))))"

end
