(* ===== verification/Sfs_Blocks.thy ===== *)
theory Sfs_Blocks
  imports Sfs_Node
begin

text \<open>
  What the block operations of the file system do to the abstract volume: the set of free blocks
  and the contents of each block. \<open>becomes s s' F B\<close> says that \<open>s'\<close> is well formed, has free blocks \<open>F\<close>
  and contents \<open>B\<close>, and agrees with \<open>s\<close> on everything about inodes in memory.
\<close>

definition blk :: "sfs_fs \<Rightarrow> nat \<Rightarrow> u8 list" where
  "blk s b = sect_range (sectors (drive (dev s))) (8 * b) 8"

abbreviation fb :: "sfs_fs \<Rightarrow> nat set" where
  "fb s \<equiv> free_bits (freemap s)"

abbreviation nblocks :: "sfs_fs \<Rightarrow> nat" where
  "nblocks s \<equiv> unat (sb_blocks (super s))"

definition vol_ok :: "sfs_fs \<Rightarrow> bool" where
  "vol_ok s \<longleftrightarrow> disk_ok (dev s) \<and> nblocks s \<le> unat (d_blocks (dev s)) \<and> 4096 * nblocks s \<le> 2 ^ 31 \<and>
     length (sfs_buffer s) = 4096 \<and> bitmap_ok (freemap s) \<and> nblocks s \<le> unat (nbits (freemap s)) \<and>
     fb s \<subseteq> {0<..<nblocks s} \<and> card (fb s) = unat (unused_blocks (super s))"

definition same_nodes :: "sfs_fs \<Rightarrow> sfs_fs \<Rightarrow> bool" where
  "same_nodes s s' \<longleftrightarrow> sins s' = sins s \<and> vnodes s' = vnodes s \<and> inode_list s' = inode_list s \<and>
     hash_list s' = hash_list s \<and> killed s' = killed s \<and> sb_blocks (super s') = sb_blocks (super s)"

definition becomes :: "sfs_fs \<Rightarrow> sfs_fs \<Rightarrow> nat set \<Rightarrow> (nat \<Rightarrow> u8 list) \<Rightarrow> bool" where
  "becomes s s' F B \<longleftrightarrow> same_nodes s s' \<and> vol_ok s' \<and> fb s' = F \<and> blk s' = B"

definition used :: "sfs_fs \<Rightarrow> nat \<Rightarrow> bool" where
  "used s b \<longleftrightarrow> 0 < b \<and> b < nblocks s \<and> b \<notin> fb s"

lemma becomes_refl: "vol_ok s \<Longrightarrow> becomes s s (fb s) (blk s)"
  by (simp add: becomes_def same_nodes_def)

lemma becomes_trans: "becomes s s1 F1 B1 \<Longrightarrow> becomes s1 s2 F2 B2 \<Longrightarrow> becomes s s2 F2 B2"
  by (simp add: becomes_def same_nodes_def)

lemma becomesD:
  assumes "becomes s s' F B"
  shows "vol_ok s'" "fb s' = F" "blk s' = B" "sins s' = sins s" "vnodes s' = vnodes s" "nblocks s' = nblocks s"
    "sb_blocks (super s') = sb_blocks (super s)" "used s' b \<longleftrightarrow> 0 < b \<and> b < nblocks s \<and> b \<notin> F"
    "inode_list s' = inode_list s" "hash_list s' = hash_list s" "killed s' = killed s"
  using assms by (auto simp: becomes_def same_nodes_def used_def)

lemma becomes_used: "becomes s s' (fb s) B \<Longrightarrow> used s' b \<longleftrightarrow> used s b"
  by (auto simp: becomes_def same_nodes_def used_def)

lemma blk_length: "vol_ok s \<Longrightarrow> length (blk s b) = 4096"
  using block_bytes_length [of "dev s" "8 * b" 1] by (simp add: blk_def vol_ok_def)

lemma fb_finite [simp]: "finite (fb s)"
  by simp

section \<open>One block\<close>

lemma block_request:
  assumes "vol_ok s" and "unat blkno < nblocks s" and "length buf = 4096"
  shows "on_disk (dev s) (iobuf_init buf SFS_BLKSIZE (blkno * SFS_BLKSIZE)) (unat blkno) 1"
proof -
  have "4096 * unat blkno < 2 ^ 31" using assms(1,2) by (auto simp: vol_ok_def)
  then have "unat (blkno * SFS_BLKSIZE) = 4096 * unat blkno"
    by (simp add: SFS_BLKSIZE_def unat_word_ariths)
  then show ?thesis using assms \<open>4096 * unat blkno < 2 ^ 31\<close>
    by (simp add: on_disk_def vol_ok_def iobuf_init_def) (simp add: SFS_BLKSIZE_def)
qed

lemma rwblock_read:
  assumes v: "vol_ok s" and b: "unat blkno < nblocks s" and c: "blkno \<noteq> 0 \<or> \<not> check" and l: "length buf = 4096"
  shows "\<exists>d. sfs_rwblock_nolock s buf blkno False check = Ok (Inr (), blk s (unat blkno), s\<lparr>dev := d\<rparr>) \<and>
    disk_ok d \<and> drive d = drive (dev s) \<and> d_blocks d = d_blocks (dev s)"
proof -
  obtain d iob where r: "disk0_io (dev s) (iobuf_init buf SFS_BLKSIZE (blkno * SFS_BLKSIZE)) False = Ok (Inr (), d, iob)"
      "io_mem iob = splice buf 0 (sect_range (sectors (drive (dev s))) (8 * unat blkno) 8)"
      "disk_ok d" "drive d = drive (dev s)" "d_blocks d = d_blocks (dev s)"
    using disk0_io_read [OF block_request [OF v b l]] by (auto simp: iobuf_init_def)
  have "io_mem iob = blk s (unat blkno)" using r(2) l blk_length [OF v] by (simp add: splice_all blk_def)
  then have "sfs_rwblock_nolock s buf blkno False check = Ok (Inr (), blk s (unat blkno), s\<lparr>dev := d\<rparr>)"
    using r(1) b c by (simp add: sfs_rwblock_nolock_def word_less_nat_alt)
  then show ?thesis using r(3-5) by blast
qed

lemma rwblock_write:
  assumes v: "vol_ok s" and b: "unat blkno < nblocks s" and c: "blkno \<noteq> 0 \<or> \<not> check" and l: "length buf = 4096"
  shows "\<exists>d. sfs_rwblock_nolock s buf blkno True check = Ok (Inr (), buf, s\<lparr>dev := d\<rparr>) \<and>
    disk_ok d \<and> d_blocks d = d_blocks (dev s) \<and> blk (s\<lparr>dev := d\<rparr>) = (blk s)(unat blkno := buf)"
proof -
  obtain d iob where r: "disk0_io (dev s) (iobuf_init buf SFS_BLKSIZE (blkno * SFS_BLKSIZE)) True = Ok (Inr (), d, iob)"
      "io_mem iob = buf"
      "sectors (drive d) = stored (sectors (drive (dev s))) (8 * unat blkno) 8 buf 0"
      "disk_ok d" "d_blocks d = d_blocks (dev s)"
    using disk0_io_write [OF block_request [OF v b l]] by (auto simp: iobuf_init_def)
  have "blk (s\<lparr>dev := d\<rparr>) k = ((blk s)(unat blkno := buf)) k" for k
  proof (cases "k = unat blkno")
    case True
    then show ?thesis using sect_range_stored [of 0 8 buf] l by (simp add: blk_def r(3) SECTSIZE_def slice_all)
  next
    case False
    then show ?thesis unfolding blk_def by (simp add: r(3)) (rule sect_range_cong, auto simp: stored_def)
  qed
  then have "blk (s\<lparr>dev := d\<rparr>) = (blk s)(unat blkno := buf)" by blast
  moreover have "sfs_rwblock_nolock s buf blkno True check = Ok (Inr (), buf, s\<lparr>dev := d\<rparr>)"
    using r(1,2) b c by (simp add: sfs_rwblock_nolock_def word_less_nat_alt)
  ultimately show ?thesis using r(4,5) by blast
qed

text \<open>Changing the device and the buffer does not change what the volume is otherwise.\<close>

lemma becomes_dev:
  assumes "vol_ok s" and "disk_ok d" and "d_blocks d = d_blocks (dev s)" and "length buf = 4096"
  shows "becomes s (s\<lparr>dev := d, sfs_buffer := buf\<rparr>) (fb s) (blk (s\<lparr>dev := d\<rparr>))"
proof -
  have "blk (s\<lparr>dev := d, sfs_buffer := buf\<rparr>) = blk (s\<lparr>dev := d\<rparr>)" by (rule ext) (simp add: blk_def)
  then show ?thesis using assms by (simp add: becomes_def same_nodes_def vol_ok_def)
qed

section \<open>Parts of a block\<close>

lemma in_blockI:
  assumes "unat off + unat len \<le> 4096" and "unat off < 4096"
  shows "in_block off len"
proof -
  have si: "sint off = int (unat off)" using assms(2) by (intro sint_small) simp
  have "0 \<le> sint off" "sint off < 4096" unfolding si using assms(2) by linarith+
  moreover have "off + len \<le> SFS_BLKSIZE"
    unfolding word_le_nat_alt using assms(1) by (simp add: SFS_BLKSIZE_def unat_add_u32)
  ultimately show ?thesis by (simp add: in_block_def)
qed

lemma sfs_rbuf_ok:
  assumes v: "vol_ok s" and u: "used s (unat b)" and o: "unat off + unat len \<le> 4096" "unat off < 4096"
  shows "\<exists>s'. sfs_rbuf s len b off = Ok (Inr (slice (blk s (unat b)) (unat off) (unat len)), s') \<and> becomes s s' (fb s) (blk s)"
proof -
  have b: "unat b < nblocks s" "b \<noteq> 0 \<or> \<not> True" using u by (auto simp: used_def)
  have l: "length (sfs_buffer s) = 4096" using v by (simp add: vol_ok_def)
  obtain d where d: "sfs_rwblock_nolock s (sfs_buffer s) b False True = Ok (Inr (), blk s (unat b), s\<lparr>dev := d\<rparr>)"
      "disk_ok d" "drive d = drive (dev s)" "d_blocks d = d_blocks (dev s)"
    using rwblock_read [OF v b l] by blast
  have "blk (s\<lparr>dev := d\<rparr>) = blk s" by (rule ext) (simp add: blk_def d(3))
  then have "becomes s (s\<lparr>dev := d, sfs_buffer := blk s (unat b)\<rparr>) (fb s) (blk s)"
    using becomes_dev [OF v d(2,4) blk_length [OF v]] by simp
  then show ?thesis using d(1) in_blockI [OF o] by (simp add: sfs_rbuf_def)
qed

lemma sfs_wbuf_ok:
  assumes v: "vol_ok s" and u: "used s (unat b)" and o: "unat off + unat len \<le> 4096" "unat off < 4096"
    and l: "unat len \<le> length bs"
  shows "\<exists>s'. sfs_wbuf s bs len b off = Ok (Inr (), s') \<and>
    becomes s s' (fb s) ((blk s)(unat b := splice (blk s (unat b)) (unat off) (slice bs 0 (unat len))))"
proof -
  have b: "unat b < nblocks s" "b \<noteq> 0 \<or> \<not> True" using u by (auto simp: used_def)
  have lb: "length (sfs_buffer s) = 4096" using v by (simp add: vol_ok_def)
  obtain d where d: "sfs_rwblock_nolock s (sfs_buffer s) b False True = Ok (Inr (), blk s (unat b), s\<lparr>dev := d\<rparr>)"
      "disk_ok d" "drive d = drive (dev s)" "d_blocks d = d_blocks (dev s)"
    using rwblock_read [OF v b lb] by blast
  define new where "new = splice (blk s (unat b)) (unat off) (slice bs 0 (unat len))"
  define s3 where "s3 = s\<lparr>dev := d, sfs_buffer := new\<rparr>"
  have ln: "length new = 4096" using o l blk_length [OF v] by (simp add: new_def)
  have "blk (s\<lparr>dev := d\<rparr>) = blk s" by (rule ext) (simp add: blk_def d(3))
  then have b3: "becomes s s3 (fb s) (blk s)" unfolding s3_def using becomes_dev [OF v d(2,4) ln] by simp
  have b': "unat b < nblocks s3" using b becomesD(6) [OF b3] by simp
  obtain d' where d': "sfs_rwblock_nolock s3 new b True True = Ok (Inr (), new, s3\<lparr>dev := d'\<rparr>)"
      "disk_ok d'" "d_blocks d' = d_blocks (dev s3)" "blk (s3\<lparr>dev := d'\<rparr>) = (blk s3)(unat b := new)"
    using rwblock_write [OF becomesD(1) [OF b3] b' b(2) ln] by blast
  have "becomes s3 (s3\<lparr>dev := d', sfs_buffer := new\<rparr>) (fb s3) ((blk s3)(unat b := new))"
    using becomes_dev [OF becomesD(1) [OF b3] d'(2,3) ln] d'(4) by simp
  then have "becomes s (s3\<lparr>dev := d', sfs_buffer := new\<rparr>) (fb s) ((blk s)(unat b := new))"
    using becomes_trans [OF b3] becomesD(2,3) [OF b3] by simp
  moreover have "sfs_wbuf s bs len b off = Ok (Inr (), s3\<lparr>dev := d', sfs_buffer := new\<rparr>)"
    using d(1) d'(1) in_blockI [OF o] by (simp add: sfs_wbuf_def new_def s3_def Let_def)
  ultimately show ?thesis unfolding new_def by blast
qed

lemma sfs_clear_block_ok:
  assumes v: "vol_ok s" and b: "unat b < nblocks s" "b \<noteq> 0"
  shows "\<exists>s'. sfs_clear_block r s b 1 = Ok (Inr (), s') \<and> becomes s s' (fb s) ((blk s)(unat b := replicate 4096 0)) \<and>
    super s' = super s"
proof -
  let ?z = "replicate 4096 0 :: u8 list"
  define s1 where "s1 = s\<lparr>sfs_buffer := ?z\<rparr>"
  have b1: "becomes s s1 (fb s) (blk s)"
    using becomes_dev [OF v _ refl, of ?z] v by (simp add: s1_def vol_ok_def blk_def)
  obtain d where d: "sfs_rwblock_nolock s1 ?z b True True = Ok (Inr (), ?z, s1\<lparr>dev := d\<rparr>)"
      "disk_ok d" "d_blocks d = d_blocks (dev s1)" "blk (s1\<lparr>dev := d\<rparr>) = (blk s1)(unat b := ?z)"
    using rwblock_write [OF becomesD(1) [OF b1], of b True ?z] b becomesD(6) [OF b1] by auto
  have "becomes s1 (s1\<lparr>dev := d, sfs_buffer := ?z\<rparr>) (fb s1) ((blk s1)(unat b := ?z))"
    using becomes_dev [OF becomesD(1) [OF b1] d(2,3), of ?z] d(4) by simp
  then have "becomes s (s1\<lparr>dev := d, sfs_buffer := ?z\<rparr>) (fb s) ((blk s)(unat b := ?z))"
    using becomes_trans [OF b1] becomesD(2,3) [OF b1] by simp
  moreover have "sfs_clear_block r s b 1 = Ok (Inr (), s1\<lparr>dev := d, sfs_buffer := ?z\<rparr>)"
    using d(1) unfolding sfs_clear_block_def s1_def [symmetric] by (simp add: numeral_eq_Suc s1_def)
  ultimately show ?thesis by (auto simp: s1_def)
qed

lemma sfs_rblock_ok:
  assumes v: "vol_ok s" and u: "used s (unat b)" and l: "length buf = 4096"
  shows "\<exists>s'. sfs_rblock s buf b 1 = Ok (Inr (), blk s (unat b), s') \<and> becomes s s' (fb s) (blk s)"
proof -
  have b: "unat b < nblocks s" "b \<noteq> 0 \<or> \<not> True" using u by (auto simp: used_def)
  obtain d where d: "sfs_rwblock_nolock s buf b False True = Ok (Inr (), blk s (unat b), s\<lparr>dev := d\<rparr>)"
      "disk_ok d" "drive d = drive (dev s)" "d_blocks d = d_blocks (dev s)"
    using rwblock_read [OF v b l] by blast
  have "blk (s\<lparr>dev := d\<rparr>) = blk s" by (rule ext) (simp add: blk_def d(3))
  then have "becomes s (s\<lparr>dev := d\<rparr>) (fb s) (blk s)"
    using v d(2,4) by (simp add: becomes_def same_nodes_def vol_ok_def)
  moreover have "sfs_rblock s buf b 1 = Ok (Inr (), blk s (unat b), s\<lparr>dev := d\<rparr>)"
    using d(1) l blk_length [OF v] by (simp add: sfs_rblock_def sfs_rwblock_def slice_all splice_all numeral_eq_Suc)
  ultimately show ?thesis by blast
qed

lemma sfs_wblock_ok:
  assumes v: "vol_ok s" and u: "used s (unat b)" and l: "length buf = 4096"
  shows "\<exists>s'. sfs_wblock s buf b 1 = Ok (Inr (), buf, s') \<and> becomes s s' (fb s) ((blk s)(unat b := buf))"
proof -
  have b: "unat b < nblocks s" "b \<noteq> 0 \<or> \<not> True" using u by (auto simp: used_def)
  obtain d where d: "sfs_rwblock_nolock s buf b True True = Ok (Inr (), buf, s\<lparr>dev := d\<rparr>)"
      "disk_ok d" "d_blocks d = d_blocks (dev s)" "blk (s\<lparr>dev := d\<rparr>) = (blk s)(unat b := buf)"
    using rwblock_write [OF v b l] by blast
  have "becomes s (s\<lparr>dev := d\<rparr>) (fb s) ((blk s)(unat b := buf))"
    using v d(2-4) by (simp add: becomes_def same_nodes_def vol_ok_def)
  moreover have "sfs_wblock s buf b 1 = Ok (Inr (), buf, s\<lparr>dev := d\<rparr>)"
    using d(1) l by (simp add: sfs_wblock_def sfs_rwblock_def slice_all splice_all numeral_eq_Suc)
  ultimately show ?thesis by blast
qed

section \<open>Allocation\<close>

lemma block_inuse_ok: "vol_ok s \<Longrightarrow> 0 < unat b \<Longrightarrow> unat b < nblocks s \<Longrightarrow> sfs_block_inuse s b = Ok (unat b \<notin> fb s)"
  by (auto simp: sfs_block_inuse_def word_less_nat_alt vol_ok_def bm.test_avail)

lemma assert_inuse_ok: "vol_ok s \<Longrightarrow> used s (unat b) \<Longrightarrow> assert_inuse s b k = k"
  by (simp add: assert_inuse_def block_inuse_ok used_def)

lemma sfs_block_alloc_none: "vol_ok s \<Longrightarrow> fb s = {} \<Longrightarrow> sfs_block_alloc s = Ok (Inl E_NO_MEM, s)"
  by (simp add: sfs_block_alloc_def vol_ok_def bm.alloc_none)

lemma sfs_block_alloc_some:
  assumes v: "vol_ok s" and ne: "fb s \<noteq> {}"
  shows "\<exists>i s'. sfs_block_alloc s = Ok (Inr i, s') \<and> unat i \<in> fb s \<and>
    becomes s s' (fb s - {unat i}) ((blk s)(unat i := replicate 4096 0))"
proof -
  have bo: "bitmap_ok (freemap s)" and sub: "fb s \<subseteq> {0<..<nblocks s}" and cu: "card (fb s) = unat (unused_blocks (super s))"
    using v by (auto simp: vol_ok_def)
  obtain i fm where a: "bitmap_alloc (freemap s) = Ok (Inr i, fm)" "bitmap_ok fm" "unat (nbits fm) = unat (nbits (freemap s))"
      "unat i \<in> fb s" "free_bits fm = fb s - {unat i}"
    using bm.alloc_gives [OF bo ne] by blast
  have i: "0 < unat i" "unat i < nblocks s" using sub a(4) by auto
  have cpos: "0 < card (fb s)" using ne by (simp add: card_gt_0_iff)
  then have up: "unused_blocks (super s) > 0" using cu by (simp add: word_less_nat_alt)
  define s2 where "s2 = s\<lparr>freemap := fm, super := (super s)\<lparr>unused_blocks := unused_blocks (super s) - 1\<rparr>, super_dirty := True\<rparr>"
  have b2: "becomes s s2 (fb s - {unat i}) (blk s)"
  proof -
    have "blk s2 = blk s" by (rule ext) (simp add: blk_def s2_def)
    moreover have "unat (unused_blocks (super s) - 1) = card (fb s) - 1"
      using cu cpos by (simp add: unat_minus_one unat_gt_0)
    then have "card (fb s - {unat i}) = unat (unused_blocks (super s) - 1)" using a(4) by simp
    ultimately show ?thesis using v a sub
      by (auto simp: becomes_def same_nodes_def vol_ok_def s2_def)
  qed
  have u2: "used s2 (unat i)" using becomesD(8) [OF b2] i by simp
  obtain s3 where c: "sfs_clear_block (Inr ()) s2 i 1 = Ok (Inr (), s3)" "becomes s2 s3 (fb s2) ((blk s2)(unat i := replicate 4096 0))"
    using sfs_clear_block_ok [OF becomesD(1) [OF b2], of i "Inr ()"] i becomesD(6) [OF b2]
    by (auto simp: unat_gt_0)
  have "becomes s s3 (fb s - {unat i}) ((blk s)(unat i := replicate 4096 0))"
    using becomes_trans [OF b2 c(2)] becomesD(2,3) [OF b2] by simp
  moreover have "sfs_block_alloc s = Ok (Inr i, s3)"
    using a(1) up c(1) assert_inuse_ok [OF becomesD(1) [OF b2] u2]
    unfolding sfs_block_alloc_def by (simp add: Let_def s2_def)
  ultimately show ?thesis using a(4) by blast
qed

lemma sfs_block_free_ok:
  assumes v: "vol_ok s" and u: "used s (unat i)"
  shows "\<exists>s'. sfs_block_free s i = Ok s' \<and> becomes s s' (insert (unat i) (fb s)) (blk s)"
proof -
  have bo: "bitmap_ok (freemap s)" and sub: "fb s \<subseteq> {0<..<nblocks s}" and cu: "card (fb s) = unat (unused_blocks (super s))"
    and nb: "nblocks s \<le> unat (nbits (freemap s))"
    using v by (auto simp: vol_ok_def)
  have i: "0 < unat i" "unat i < nblocks s" "unat i \<notin> fb s" using u by (auto simp: used_def)
  obtain fm where a: "bitmap_free (freemap s) i = Ok fm" "bitmap_ok fm" "unat (nbits fm) = unat (nbits (freemap s))"
      "free_bits fm = insert (unat i) (fb s)"
    using bm.free_used [OF bo _ i(3)] i(2) nb by auto
  define s2 where "s2 = s\<lparr>freemap := fm, super := (super s)\<lparr>unused_blocks := unused_blocks (super s) + 1\<rparr>, super_dirty := True\<rparr>"
  have "becomes s s2 (insert (unat i) (fb s)) (blk s)"
  proof -
    have "blk s2 = blk s" by (rule ext) (simp add: blk_def s2_def)
    moreover have "card (insert (unat i) (fb s)) \<le> card {0<..<nblocks s}"
      using sub i by (intro card_mono) auto
    then have "card (fb s) + 1 < 2 ^ 32" using i unat_u32_less [of "sb_blocks (super s)"] by simp
    then have "card (insert (unat i) (fb s)) = unat (unused_blocks (super s) + 1)"
      using cu i by (simp add: unat_add_u32)
    ultimately show ?thesis using v a sub i
      by (auto simp: becomes_def same_nodes_def vol_ok_def s2_def)
  qed
  moreover have "sfs_block_free s i = Ok s2"
    using assert_inuse_ok [OF v u] a(1) by (simp add: sfs_block_free_def s2_def)
  ultimately show ?thesis by blast
qed

end
