(* ===== verification/Sfs_Bmap.thy ===== *)
theory Sfs_Bmap
  imports Sfs_Blocks
begin

text \<open>
  The block map of a file. \<open>bnum B d i\<close> is the number of block \<open>i\<close> of the file with on-disk inode
  \<open>d\<close> when the volume has contents \<open>B\<close>: a direct entry, or an entry of the indirect block. The
  invariant \<open>inode_ok\<close> says that the blocks below \<open>din_blocks\<close> are in use, distinct and different from
  the indirect block, and that all other entries are 0. The lemmas say what looking up, appending
  and removing a block do.
\<close>

definition NMAX :: nat where "NMAX = 1036"

definition bnum :: "(nat \<Rightarrow> u8 list) \<Rightarrow> sfs_disk_inode \<Rightarrow> nat \<Rightarrow> u32" where
  "bnum B d i =
     (if i < 12 then din_direct d ! i
      else if din_indirect d = 0 then 0
      else of_le32 (slice (B (unat (din_indirect d))) (4 * (i - 12)) 4))"

definition bused :: "nat \<Rightarrow> nat set \<Rightarrow> u32 \<Rightarrow> bool" where
  "bused N F b \<longleftrightarrow> 0 < unat b \<and> unat b < N \<and> unat b \<notin> F"

definition inode_ok :: "nat \<Rightarrow> nat set \<Rightarrow> (nat \<Rightarrow> u8 list) \<Rightarrow> sfs_disk_inode \<Rightarrow> bool" where
  "inode_ok N F B d \<longleftrightarrow> length (din_direct d) = 12 \<and> unat (din_blocks d) \<le> NMAX \<and>
     (\<forall>i < unat (din_blocks d). bused N F (bnum B d i)) \<and>
     (\<forall>i. unat (din_blocks d) \<le> i \<and> i < NMAX \<longrightarrow> bnum B d i = 0) \<and>
     inj_on (bnum B d) {..<unat (din_blocks d)} \<and>
     (din_indirect d \<noteq> 0 \<longrightarrow> bused N F (din_indirect d) \<and> din_indirect d \<notin> bnum B d ` {..<unat (din_blocks d)})"

definition file_ok :: "sfs_fs \<Rightarrow> nat \<Rightarrow> bool" where
  "file_ok s p \<longleftrightarrow> vol_ok s \<and> inode_ok (nblocks s) (fb s) (blk s) (din (sins s p))"

definition fblocks :: "(nat \<Rightarrow> u8 list) \<Rightarrow> sfs_disk_inode \<Rightarrow> nat list" where
  "fblocks B d = map (\<lambda>i. unat (bnum B d i)) [0..<unat (din_blocks d)]"

text \<open>All bytes of the blocks of the file, up to the end of the last block.\<close>

definition raw :: "(nat \<Rightarrow> u8 list) \<Rightarrow> sfs_disk_inode \<Rightarrow> u8 list" where
  "raw B d = concat (map B (fblocks B d))"

lemma used_bused: "used s (unat b) \<longleftrightarrow> bused (nblocks s) (fb s) b"
  by (simp add: used_def bused_def)

lemma bnum_used: "file_ok s p \<Longrightarrow> i < unat (din_blocks (din (sins s p))) \<Longrightarrow> used s (unat (bnum (blk s) (din (sins s p)) i))"
  by (simp add: file_ok_def inode_ok_def used_bused)

lemma indirect_used:
  assumes "file_ok s p" and "din_indirect (din (sins s p)) \<noteq> 0"
  shows "used s (unat (din_indirect (din (sins s p))))"
  using assms by (simp add: file_ok_def inode_ok_def used_bused)

lemma indirect_index:
  assumes "\<not> index < SFS_NDIRECT" and "unat index < NMAX"
  shows "unat (index - SFS_NDIRECT) = unat index - 12" and "index - SFS_NDIRECT < SFS_BLK_NENTRY"
    and "unat ((index - SFS_NDIRECT) * 4) = 4 * (unat index - 12)" and "12 \<le> unat index"
    and "unat ((index - SFS_NDIRECT) * 4) + 4 \<le> 4096"
proof -
  show i: "12 \<le> unat index" using assms(1) by (simp add: SFS_NDIRECT_def word_less_nat_alt)
  then show u: "unat (index - SFS_NDIRECT) = unat index - 12"
    by (simp add: SFS_NDIRECT_def unat_sub word_le_nat_alt)
  show "index - SFS_NDIRECT < SFS_BLK_NENTRY"
    unfolding word_less_nat_alt u using assms(2) by (simp add: SFS_BLK_NENTRY_def SFS_BLKSIZE_def NMAX_def)
  have lt: "unat (index - SFS_NDIRECT) * unat (4 :: u32) < 2 ^ LENGTH(32)" using u assms(2) by (simp add: NMAX_def)
  show v: "unat ((index - SFS_NDIRECT) * 4) = 4 * (unat index - 12)"
    unfolding unat_mult_lem [THEN iffD1, OF lt] u by simp
  show "unat ((index - SFS_NDIRECT) * 4) + 4 \<le> 4096" unfolding v using assms(2) i by (simp add: NMAX_def)
qed

lemma direct_index: "index < SFS_NDIRECT \<Longrightarrow> unat index < 12"
  by (simp add: SFS_NDIRECT_def word_less_nat_alt)

section \<open>Looking up\<close>

lemma bmap_out_ok: "vol_ok s \<Longrightarrow> used s (unat i) \<Longrightarrow> bmap_out s i = Ok (Inr i, s)"
  by (simp add: bmap_out_def assert_inuse_ok used_def)

lemma bmap_get_present:
  assumes f: "file_ok s p" and i: "unat index < unat (din_blocks (din (sins s p)))"
  shows "\<exists>s'. sfs_bmap_get_nolock s p index create = Ok (Inr (bnum (blk s) (din (sins s p)) (unat index)), s') \<and>
    becomes s s' (fb s) (blk s)"
proof -
  let ?d = "din (sins s p)" and ?b = "bnum (blk s) (din (sins s p)) (unat index)"
  have v: "vol_ok s" using f by (simp add: file_ok_def)
  have u: "used s (unat ?b)" by (rule bnum_used [OF f i])
  then have nz: "?b \<noteq> 0" by (auto simp: used_def)
  have N: "unat index < NMAX" using f i by (auto simp: file_ok_def inode_ok_def)
  show ?thesis
  proof (cases "index < SFS_NDIRECT")
    case True
    then have "?b = din_direct ?d ! unat index" by (simp add: bnum_def direct_index)
    then have "sfs_bmap_get_nolock s p index create = Ok (Inr ?b, s)"
      using True nz bmap_out_ok [OF v u] by (simp add: sfs_bmap_get_nolock_def Let_def)
    then show ?thesis using becomes_refl [OF v] by blast
  next
    case False
    note ix = indirect_index [OF False N]
    have ind: "din_indirect ?d \<noteq> 0" and b: "?b = of_le32 (slice (blk s (unat (din_indirect ?d))) (4 * (unat index - 12)) 4)"
      using nz ix(4) by (auto simp: bnum_def split: if_splits)
    obtain s1 where r: "sfs_rbuf s 4 (din_indirect ?d) ((index - SFS_NDIRECT) * 4) =
        Ok (Inr (slice (blk s (unat (din_indirect ?d))) (4 * (unat index - 12)) 4), s1)" "becomes s s1 (fb s) (blk s)"
      using sfs_rbuf_ok [OF v indirect_used [OF f ind], of "(index - SFS_NDIRECT) * 4" 4] ix(3,5) by auto
    have "sfs_bmap_get_sub_nolock s (din_indirect ?d) (index - SFS_NDIRECT) create = Ok (Inr (din_indirect ?d, ?b), s1)"
      using r(1) nz ind ix(2) unfolding sfs_bmap_get_sub_nolock_def b [symmetric] by (simp add: b)
    moreover have "used s1 (unat ?b)" using u becomes_used [OF r(2)] by simp
    ultimately have "sfs_bmap_get_nolock s p index create = Ok (Inr ?b, s1)"
      using False ix(2) becomesD(4) [OF r(2)] bmap_out_ok [OF becomesD(1) [OF r(2)]]
      by (simp add: sfs_bmap_get_nolock_def Let_def)
    then show ?thesis using r(2) by blast
  qed
qed

lemma bmap_load_present:
  assumes f: "file_ok s p" and i: "unat index < unat (din_blocks (din (sins s p)))"
  shows "\<exists>s'. sfs_bmap_load_nolock s p index = Ok (Inr (bnum (blk s) (din (sins s p)) (unat index)), s') \<and>
    becomes s s' (fb s) (blk s)"
proof -
  let ?b = "bnum (blk s) (din (sins s p)) (unat index)"
  obtain s' where g: "sfs_bmap_get_nolock s p index False = Ok (Inr ?b, s')" "becomes s s' (fb s) (blk s)"
    using bmap_get_present [OF f i] by blast
  have ne: "index \<noteq> din_blocks (din (sins s p))" "index \<le> din_blocks (din (sins s p))"
    using i by (auto simp: word_le_nat_alt)
  have "used s' (unat ?b)" using bnum_used [OF f i] becomes_used [OF g(2)] by simp
  then have "sfs_bmap_load_nolock s p index = Ok (Inr ?b, s')"
    using g(1) ne assert_inuse_ok [OF becomesD(1) [OF g(2)]] by (simp add: sfs_bmap_load_nolock_def)
  then show ?thesis using g(2) by blast
qed

section \<open>A file with one more block\<close>

lemma inode_ok_grow:
  assumes ok: "inode_ok N F B d" and n: "unat (din_blocks d) = n" "n < NMAX"
    and d': "length (din_direct d') = 12" "din_blocks d' = din_blocks d + 1"
    and map: "\<forall>j < NMAX. bnum B' d' j = (if j = n then i else bnum B d j)"
    and F': "F' \<subseteq> F" and i: "unat i \<in> F" "unat i \<notin> F'" "0 < unat i" "unat i < N"
    and ind: "din_indirect d' \<noteq> 0 \<longrightarrow> bused N F' (din_indirect d') \<and> din_indirect d' \<noteq> i \<and>
      din_indirect d' \<notin> bnum B d ` {..<n}"
  shows "inode_ok N F' B' d'" and "fblocks B' d' = fblocks B d @ [unat i]"
proof -
  have n': "unat (din_blocks d') = Suc n" using n d'(2) by (simp add: unat_add_u32 NMAX_def)
  have bn: "bnum B' d' j = bnum B d j" if "j < n" for j using map that n(2) by simp
  have bi: "bnum B' d' n = i" using map n(2) by simp
  have old: "bused N F (bnum B d j)" if "j < n" for j using ok that n(1) by (simp add: inode_ok_def)
  have new: "bused N F' (bnum B' d' j)" if "j < Suc n" for j
    using that old [of j] bn [of j] bi i F' by (cases "j = n") (auto simp: bused_def)
  have zero: "bnum B' d' j = 0" if "Suc n \<le> j" "j < NMAX" for j
    using ok map that n(1) by (simp add: inode_ok_def)
  have "i \<notin> bnum B d ` {..<n}" using old i(1) by (auto simp: bused_def)
  moreover have "inj_on (bnum B d) {..<n}" using ok n(1) by (simp add: inode_ok_def)
  moreover have img: "bnum B' d' ` {..<n} = bnum B d ` {..<n}" using bn by auto
  moreover have "inj_on (bnum B' d') {..<n} = inj_on (bnum B d) {..<n}" using bn by (intro inj_on_cong) simp
  ultimately have inj: "inj_on (bnum B' d') {..<Suc n}"
    using bi by (simp add: lessThan_Suc inj_on_insert)
  have "din_indirect d' \<notin> bnum B' d' ` {..<Suc n}" if "din_indirect d' \<noteq> 0"
    using ind that img bi by (simp add: lessThan_Suc)
  then show "inode_ok N F' B' d'"
    unfolding inode_ok_def n' using d'(1) n(2) new zero inj ind by auto
  show "fblocks B' d' = fblocks B d @ [unat i]"
    unfolding fblocks_def n' n(1) using bn bi by simp
qed

text \<open>The three ways in which the map gets a new entry.\<close>

lemma bnum_direct_new:
  assumes "n < 12" and "length (din_direct d) = 12" and "din_indirect d \<noteq> 0 \<longrightarrow> B' (unat (din_indirect d)) = B (unat (din_indirect d))"
  shows "bnum B' (d\<lparr>din_direct := (din_direct d)[n := i], din_blocks := m\<rparr>) j = (if j = n then i else bnum B d j)"
  using assms by (auto simp: bnum_def)

lemma entry_of_spliced:
  assumes "length x = 4096" and "k < 1024" and "j < 1024"
  shows "of_le32 (slice (splice x (4 * k) (le32 i)) (4 * j) 4) = (if j = k then i else of_le32 (slice x (4 * j) 4))"
proof (cases "j = k")
  case True
  then show ?thesis using slice_splice [of "4 * k" "le32 i" x] assms by simp
next
  case False
  then have "4 * j + 4 \<le> 4 * k \<or> 4 * k + 4 \<le> 4 * j" by arith
  then show ?thesis using slice_splice_disjoint [of "4 * k" "le32 i" x "4 * j" 4] assms False by simp
qed

lemma bnum_indirect_new:
  assumes "12 \<le> n" "n < NMAX" and "din_indirect d = e" "e \<noteq> 0" and "length (B (unat e)) = 4096"
    and "B' (unat e) = splice (B (unat e)) (4 * (n - 12)) (le32 i)" and "j < NMAX"
  shows "bnum B' (d\<lparr>din_blocks := m\<rparr>) j = (if j = n then i else bnum B d j)"
proof (cases "j < 12")
  case False
  then show ?thesis using assms entry_of_spliced [OF assms(5), of "n - 12" "j - 12" i]
    by (auto simp: bnum_def NMAX_def)
qed (use assms in \<open>auto simp: bnum_def\<close>)

lemma bnum_indirect_first:
  assumes "12 \<le> n" "n < NMAX" and "din_indirect d = 0" "e \<noteq> 0"
    and "B' (unat e) = splice (replicate 4096 0) (4 * (n - 12)) (le32 i)" and "j < NMAX"
  shows "bnum B' (d\<lparr>din_indirect := e, din_blocks := m\<rparr>) j = (if j = n then i else bnum B d j)"
proof (cases "j < 12")
  case False
  have "slice (replicate 4096 0) (4 * (j - 12)) 4 = (replicate 4 0 :: u8 list)"
    using assms(6) False by (simp add: slice_def NMAX_def)
  then show ?thesis using assms False entry_of_spliced [of "replicate 4096 0" "n - 12" "j - 12" i]
    by (auto simp: bnum_def NMAX_def)
qed (use assms in \<open>auto simp: bnum_def\<close>)

section \<open>Changes that belong to one file\<close>

lemma upd_sin_simps [simp]:
  "vol_ok (upd_sin s p f) = vol_ok s" "blk (upd_sin s p f) = blk s" "freemap (upd_sin s p f) = freemap s"
  "super (upd_sin s p f) = super s" "used (upd_sin s p f) b = used s b" "vnodes (upd_sin s p f) = vnodes s"
  "inode_list (upd_sin s p f) = inode_list s" "hash_list (upd_sin s p f) = hash_list s" "killed (upd_sin s p f) = killed s"
  "sins (upd_sin s p f) = (sins s)(p := f (sins s p))"
  by (auto simp: upd_sin_def vol_ok_def blk_def used_def fun_eq_iff)

lemma upd_din_simps [simp]:
  "vol_ok (upd_din s p g) = vol_ok s" "blk (upd_din s p g) = blk s" "freemap (upd_din s p g) = freemap s"
  "super (upd_din s p g) = super s" "used (upd_din s p g) b = used s b" "vnodes (upd_din s p g) = vnodes s"
  "inode_list (upd_din s p g) = inode_list s" "hash_list (upd_din s p g) = hash_list s" "killed (upd_din s p g) = killed s"
  "sins (upd_din s p g) = (sins s)(p := (sins s p)\<lparr>din := g (din (sins s p))\<rparr>)"
  by (simp_all add: upd_din_def)

lemma set_dirty_simps [simp]:
  "din (set_dirty b i) = din i" "ino (set_dirty b i) = ino i" "reclaim_count (set_dirty b i) = reclaim_count i"
  "dirty (set_dirty b i) = b"
  by (simp_all add: set_dirty_def)

definition own :: "sfs_fs \<Rightarrow> nat \<Rightarrow> nat set" where
  "own s p = (let d = din (sins s p) in
     set (fblocks (blk s) d) \<union> (if din_indirect d = 0 then {} else {unat (din_indirect d)}))"

text \<open>Everything but the block map, the size, and whether the inode is dirty, is as before.\<close>

definition same_but :: "sfs_fs \<Rightarrow> sfs_fs \<Rightarrow> nat \<Rightarrow> bool" where
  "same_but s s' p \<longleftrightarrow> (\<forall>q. q \<noteq> p \<longrightarrow> sins s' q = sins s q) \<and> ino (sins s' p) = ino (sins s p) \<and>
     reclaim_count (sins s' p) = reclaim_count (sins s p) \<and>
     din_type (din (sins s' p)) = din_type (din (sins s p)) \<and>
     din_nlinks (din (sins s' p)) = din_nlinks (din (sins s p)) \<and> vnodes s' = vnodes s \<and>
     inode_list s' = inode_list s \<and> hash_list s' = hash_list s \<and> killed s' = killed s \<and>
     sb_blocks (super s') = sb_blocks (super s)"

text \<open>The file stays well formed, and blocks in use elsewhere keep their contents and stay in use.\<close>

definition evolve :: "sfs_fs \<Rightarrow> sfs_fs \<Rightarrow> nat \<Rightarrow> bool" where
  "evolve s s' p \<longleftrightarrow> same_but s s' p \<and> file_ok s' p \<and>
     (\<forall>b. used s b \<and> b \<notin> own s p \<longrightarrow> used s' b \<and> b \<notin> own s' p \<and> blk s' b = blk s b)"

lemma evolve_trans: "evolve s s1 p \<Longrightarrow> evolve s1 s2 p \<Longrightarrow> evolve s s2 p"
  unfolding evolve_def same_but_def by simp

lemma inode_ok_cong:
  assumes ok: "inode_ok N F B d" and eq: "din_indirect d \<noteq> 0 \<longrightarrow> B' (unat (din_indirect d)) = B (unat (din_indirect d))"
  shows "inode_ok N F B' d" and "fblocks B' d = fblocks B d" and "bnum B' d = bnum B d"
proof -
  show b: "bnum B' d = bnum B d" using eq by (auto simp: bnum_def fun_eq_iff)
  show "inode_ok N F B' d" using ok unfolding inode_ok_def b .
  show "fblocks B' d = fblocks B d" unfolding fblocks_def b ..
qed

lemma fblocks_used: "inode_ok N F B d \<Longrightarrow> b \<in> set (fblocks B d) \<Longrightarrow> 0 < b \<and> b < N \<and> b \<notin> F"
  by (auto simp: fblocks_def inode_ok_def bused_def)

lemma fblocks_indirect:
  assumes "inode_ok N F B d" and "din_indirect d \<noteq> 0"
  shows "unat (din_indirect d) \<notin> set (fblocks B d)"
proof
  assume "unat (din_indirect d) \<in> set (fblocks B d)"
  then obtain j where "j < unat (din_blocks d)" "unat (din_indirect d) = unat (bnum B d j)"
    by (auto simp: fblocks_def)
  moreover from this(2) have "din_indirect d = bnum B d j" by (rule word_unat_eq_iff [THEN iffD2])
  ultimately show False using assms by (force simp: inode_ok_def)
qed

text \<open>A step that changes only free blocks.\<close>

lemma evolve_free:
  assumes f: "file_ok s p" and b: "becomes s s' (fb s) B'" and eq: "\<forall>b. b \<notin> fb s \<longrightarrow> B' b = blk s b"
  shows "evolve s s' p" and "raw (blk s') (din (sins s' p)) = raw (blk s) (din (sins s p))"
proof -
  note D = becomesD [OF b]
  let ?d = "din (sins s p)"
  have ok: "inode_ok (nblocks s) (fb s) (blk s) ?d" using f by (simp add: file_ok_def)
  have "din_indirect ?d \<noteq> 0 \<longrightarrow> B' (unat (din_indirect ?d)) = blk s (unat (din_indirect ?d))"
    using ok eq by (simp add: inode_ok_def bused_def)
  note c = inode_ok_cong [where B' = B', OF ok this]
  have "file_ok s' p" using D c(1) by (simp add: file_ok_def)
  moreover have "own s' p = own s p" using D(3,4) c(2) by (simp add: own_def)
  moreover have "used s' b \<longleftrightarrow> used s b" for b using becomes_used [OF b] .
  ultimately show "evolve s s' p"
    using D eq by (auto simp: evolve_def same_but_def used_def)
  have m: "map B' (fblocks (blk s) ?d) = map (blk s) (fblocks (blk s) ?d)"
    using fblocks_used [OF ok] eq by simp
  show "raw (blk s') (din (sins s' p)) = raw (blk s) ?d" unfolding raw_def D(3,4) c(2) m ..
qed

section \<open>Appending a block\<close>

definition grown :: "sfs_fs \<Rightarrow> sfs_fs \<Rightarrow> nat \<Rightarrow> u32 \<Rightarrow> bool" where
  "grown s s' p i \<longleftrightarrow> evolve s s' p \<and> fb s' \<subseteq> fb s \<and> card (fb s) \<le> card (fb s') + 2 \<and>
     fblocks (blk s') (din (sins s' p)) = fblocks (blk s) (din (sins s p)) @ [unat i] \<and>
     din_blocks (din (sins s' p)) = din_blocks (din (sins s p)) + 1 \<and>
     din_size (din (sins s' p)) = din_size (din (sins s p)) \<and>
     raw (blk s') (din (sins s' p)) = raw (blk s) (din (sins s p)) @ replicate 4096 0"

lemma grownI:
  assumes f: "file_ok s p" and d: "d = din (sins s p)" and n: "unat (din_blocks d) = n" "n < NMAX"
    and b: "becomes s s1 F' B'" and s': "vol_ok s'" "fb s' = F'" "blk s' = B'"
    and x: "sins s' = (sins s)(p := x)" "ino x = ino (sins s p)" "reclaim_count x = reclaim_count (sins s p)" "din x = d'"
    and rest: "vnodes s' = vnodes s" "inode_list s' = inode_list s" "hash_list s' = hash_list s" "killed s' = killed s"
      "sb_blocks (super s') = sb_blocks (super s)"
    and d': "length (din_direct d') = 12" "din_blocks d' = din_blocks d + 1" "din_size d' = din_size d"
      "din_type d' = din_type d" "din_nlinks d' = din_nlinks d"
    and map: "\<forall>j < NMAX. bnum B' d' j = (if j = n then i else bnum (blk s) d j)"
    and F': "F' \<subseteq> fb s" "card (fb s) \<le> card F' + 2" and i: "unat i \<in> fb s" "unat i \<notin> F'" "B' (unat i) = replicate 4096 0"
    and ind: "din_indirect d' \<noteq> 0 \<longrightarrow> din_indirect d' \<noteq> i \<and> unat (din_indirect d') \<notin> F' \<and>
      (din_indirect d' = din_indirect d \<or> unat (din_indirect d') \<in> fb s)"
    and keep: "\<forall>b. b \<notin> fb s \<and> (din_indirect d \<noteq> 0 \<longrightarrow> b \<noteq> unat (din_indirect d)) \<longrightarrow> B' b = blk s b"
    and dd: "din_indirect d \<noteq> 0 \<longrightarrow> din_indirect d' = din_indirect d"
  shows "grown s s' p i"
proof -
  have v: "vol_ok s" and ok: "inode_ok (nblocks s) (fb s) (blk s) d" using f d by (auto simp: file_ok_def)
  have sub: "fb s \<subseteq> {0<..<nblocks s}" using v by (simp add: vol_ok_def)
  have ind': "din_indirect d' \<noteq> 0 \<longrightarrow> bused (nblocks s) F' (din_indirect d') \<and> din_indirect d' \<noteq> i \<and>
      din_indirect d' \<notin> bnum (blk s) d ` {..<n}"
  proof
    assume nz: "din_indirect d' \<noteq> 0"
    have "bused (nblocks s) F' (din_indirect d') \<and> din_indirect d' \<notin> bnum (blk s) d ` {..<n}"
    proof (cases "din_indirect d' = din_indirect d")
      case True
      then have "bused (nblocks s) (fb s) (din_indirect d')" "din_indirect d' \<notin> bnum (blk s) d ` {..<n}"
        using ok nz n(1) by (simp_all add: inode_ok_def)
      then show ?thesis using F'(1) by (auto simp: bused_def)
    next
      case False
      then have e: "unat (din_indirect d') \<in> fb s" "unat (din_indirect d') \<notin> F'" using ind nz by blast+
      moreover have "unat (bnum (blk s) d j) \<notin> fb s" if "j < n" for j
        using ok that n(1) by (simp add: inode_ok_def bused_def)
      ultimately show ?thesis using sub by (auto simp: bused_def)
    qed
    then show "bused (nblocks s) F' (din_indirect d') \<and> din_indirect d' \<noteq> i \<and> din_indirect d' \<notin> bnum (blk s) d ` {..<n}"
      using ind nz by blast
  qed
  have ib: "0 < unat i" "unat i < nblocks s" using i(1) sub by auto
  note g = inode_ok_grow [OF ok n d'(1,2) map F'(1) i(1,2) ib ind']
  have sd: "din (sins s' p) = d'" using x by simp
  have fk: "file_ok s' p" using g(1) s' sd rest(5) by (simp add: file_ok_def)
  have own: "own s' p \<subseteq> own s p \<union> fb s"
    using g(2) i(1) ind unfolding own_def Let_def sd s'(3) d [symmetric] by auto
  have "used s' b \<and> b \<notin> own s' p \<and> blk s' b = blk s b" if "used s b" "b \<notin> own s p" for b
  proof -
    have "b \<notin> fb s" using that(1) by (simp add: used_def)
    moreover have "din_indirect d \<noteq> 0 \<longrightarrow> b \<noteq> unat (din_indirect d)" using that(2) by (auto simp: own_def d Let_def)
    ultimately show ?thesis using that keep own F'(1) s' rest(5) by (auto simp: used_def)
  qed
  then have ev: "evolve s s' p"
    using fk x rest d' d by (auto simp: evolve_def same_but_def)
  have nb: "b \<notin> fb s \<and> (din_indirect d \<noteq> 0 \<longrightarrow> b \<noteq> unat (din_indirect d))" if "b \<in> set (fblocks (blk s) d)" for b
    using that fblocks_used [OF ok that] fblocks_indirect [OF ok] by auto
  have m: "map B' (fblocks (blk s) d) = map (blk s) (fblocks (blk s) d)" using keep nb by simp
  have "raw (blk s') d' = raw (blk s) d @ replicate 4096 0"
    unfolding raw_def s'(3) g(2) map_append concat_append m using i(3) by simp
  then show ?thesis using ev F' s' g(2) d' sd d by (simp add: grown_def)
qed

text \<open>Running out of blocks: nothing but the contents of free blocks may have changed.\<close>

definition no_space :: "sfs_fs \<Rightarrow> sfs_fs \<Rightarrow> bool" where
  "no_space s s' \<longleftrightarrow> card (fb s) < 2 \<and> becomes s s' (fb s) (blk s') \<and> (\<forall>b. b \<notin> fb s \<longrightarrow> blk s' b = blk s b)"

lemma no_space_refl: "vol_ok s \<Longrightarrow> fb s = {} \<Longrightarrow> no_space s s"
  using becomes_refl [of s] by (simp add: no_space_def)

lemma load_of_get:
  assumes "index = din_blocks (din (sins s p))"
  shows "sfs_bmap_get_nolock s p index True = Ok (Inl e, s1) \<Longrightarrow> sfs_bmap_load_nolock s p index = Ok (Inl e, s1)"
    and "sfs_bmap_get_nolock s p index True = Ok (Inr i, s1) \<Longrightarrow> vol_ok s1 \<Longrightarrow> used s1 (unat i) \<Longrightarrow>
      sfs_bmap_load_nolock s p index = Ok (Inr i, upd_din s1 p (\<lambda>d. d\<lparr>din_blocks := din_blocks d + 1\<rparr>))"
  using assms by (simp_all add: sfs_bmap_load_nolock_def assert_inuse_ok)

lemma load_new_direct:
  assumes f: "file_ok s p" and ix: "index = din_blocks (din (sins s p))" "index < SFS_NDIRECT"
  shows "(\<exists>s'. sfs_bmap_load_nolock s p index = Ok (Inl E_NO_MEM, s') \<and> no_space s s') \<or>
    (\<exists>i s'. sfs_bmap_load_nolock s p index = Ok (Inr i, s') \<and> grown s s' p i)"
proof -
  define d where "d = din (sins s p)"
  define n where "n = unat index"
  have v: "vol_ok s" and ok: "inode_ok (nblocks s) (fb s) (blk s) d" using f by (auto simp: file_ok_def d_def)
  have n: "unat (din_blocks d) = n" "n < 12" "n < NMAX" using ix(1) direct_index [OF ix(2)] by (auto simp: d_def n_def NMAX_def)
  have z: "din_direct d ! n = 0" and l12: "length (din_direct d) = 12"
    using ok n by (auto simp: inode_ok_def bnum_def)
  show ?thesis
  proof (cases "fb s = {}")
    case True
    have "sfs_bmap_get_nolock s p index True = Ok (Inl E_NO_MEM, s)"
      using z ix(2) sfs_block_alloc_none [OF v True] by (simp add: sfs_bmap_get_nolock_def Let_def d_def n_def)
    then show ?thesis using load_of_get(1) [OF ix(1)] no_space_refl [OF v True] by blast
  next
    case False
    obtain i s1 where a: "sfs_block_alloc s = Ok (Inr i, s1)" "unat i \<in> fb s"
        "becomes s s1 (fb s - {unat i}) ((blk s)(unat i := replicate 4096 0))"
      using sfs_block_alloc_some [OF v False] by blast
    note D = becomesD [OF a(3)]
    define s2 where "s2 = upd_sin (upd_din s1 p (\<lambda>d. d\<lparr>din_direct := (din_direct d)[n := i]\<rparr>)) p (set_dirty True)"
    define s' where "s' = upd_din s2 p (\<lambda>d. d\<lparr>din_blocks := din_blocks d + 1\<rparr>)"
    have u: "used s2 (unat i)" using D(8) a(2) v by (auto simp: s2_def vol_ok_def)
    have v2: "vol_ok s2" using D(1) by (simp add: s2_def)
    have "sfs_bmap_get_nolock s p index True = Ok (Inr i, s2)"
      using z ix(2) a(1) bmap_out_ok [OF v2 u] by (simp add: sfs_bmap_get_nolock_def Let_def d_def n_def s2_def)
    then have ld: "sfs_bmap_load_nolock s p index = Ok (Inr i, s')"
      unfolding s'_def by (rule load_of_get(2) [OF ix(1) _ v2 u])
    have ie: "din_indirect d \<noteq> 0 \<longrightarrow> unat (din_indirect d) \<noteq> unat i \<and> unat (din_indirect d) \<notin> fb s"
      using ok a(2) by (auto simp: inode_ok_def bused_def)
    have "grown s s' p i"
    proof (rule grownI [OF f d_def n(1,3) a(3), where x = "sins s' p" and
          d' = "d\<lparr>din_direct := (din_direct d)[n := i], din_blocks := din_blocks d + 1\<rparr>"])
      show "\<forall>j<NMAX. bnum ((blk s)(unat i := replicate 4096 0))
          (d\<lparr>din_direct := (din_direct d)[n := i], din_blocks := din_blocks d + 1\<rparr>) j = (if j = n then i else bnum (blk s) d j)"
        using bnum_direct_new [OF n(2) l12] ie by simp
      show "card (fb s) \<le> card (fb s - {unat i}) + 2" using a(2) by simp
    qed (use ie a(2) l12 in \<open>auto simp: s'_def s2_def D d_def\<close>)
    then show ?thesis using ld by blast
  qed
qed

lemma sub_create_some:
  assumes v: "vol_ok s" and ne: "fb s \<noteq> {}" and e: "used s (unat ent)" and k: "unat off = 4 * k" "k < 1024"
  shows "\<exists>i s'. sub_create s entp ent off = Ok (Inr (ent, i), s') \<and> unat i \<in> fb s \<and> unat i \<noteq> unat ent \<and>
    becomes s s' (fb s - {unat i}) ((blk s)(unat i := replicate 4096 0, unat ent := splice (blk s (unat ent)) (4 * k) (le32 i)))"
proof -
  obtain i s1 where a: "sfs_block_alloc s = Ok (Inr i, s1)" "unat i \<in> fb s"
      "becomes s s1 (fb s - {unat i}) ((blk s)(unat i := replicate 4096 0))"
    using sfs_block_alloc_some [OF v ne] by blast
  note D = becomesD [OF a(3)]
  have ei: "unat i \<noteq> unat ent" using e a(2) by (auto simp: used_def)
  have "used s1 (unat ent)" using e D(8) by (auto simp: used_def)
  moreover have "unat off + unat (4 :: u32) \<le> 4096" "unat off < 4096" using k by auto
  ultimately obtain s' where w: "sfs_wbuf s1 (le32 i) 4 ent off = Ok (Inr (), s')"
      "becomes s1 s' (fb s1) ((blk s1)(unat ent := splice (blk s1 (unat ent)) (unat off) (slice (le32 i) 0 4)))"
    using sfs_wbuf_ok [OF D(1), of ent off 4 "le32 i"] by auto
  have "becomes s s' (fb s - {unat i}) ((blk s)(unat i := replicate 4096 0, unat ent := splice (blk s (unat ent)) (4 * k) (le32 i)))"
    using becomes_trans [OF a(3) w(2)] D(2,3) ei k(1) by (simp add: slice_all)
  moreover have "sub_create s entp ent off = Ok (Inr (ent, i), s')"
    using a(1) w(1) by (simp add: sub_create_def)
  ultimately show ?thesis using a(2) ei by blast
qed

lemma load_new_indirect:
  assumes f: "file_ok s p" and ix: "index = din_blocks (din (sins s p))" "\<not> index < SFS_NDIRECT" "unat index < NMAX"
    and nz: "din_indirect (din (sins s p)) \<noteq> 0"
  shows "(\<exists>s'. sfs_bmap_load_nolock s p index = Ok (Inl E_NO_MEM, s') \<and> no_space s s') \<or>
    (\<exists>i s'. sfs_bmap_load_nolock s p index = Ok (Inr i, s') \<and> grown s s' p i)"
proof -
  define d where "d = din (sins s p)"
  define n where "n = unat index"
  define e where "e = din_indirect d"
  have v: "vol_ok s" and ok: "inode_ok (nblocks s) (fb s) (blk s) d" using f by (auto simp: file_ok_def d_def)
  note I = indirect_index [OF ix(2,3)]
  have n: "unat (din_blocks d) = n" "n < NMAX" "12 \<le> n" using ix(1,3) I(4) by (auto simp: d_def n_def)
  have e: "e \<noteq> 0" "used s (unat e)" using nz indirect_used [OF f nz] by (auto simp: e_def d_def)
  have z: "of_le32 (slice (blk s (unat e)) (4 * (n - 12)) 4) = 0"
    using ok n e by (auto simp: inode_ok_def bnum_def e_def)
  obtain s0 where r: "sfs_rbuf s 4 e ((index - SFS_NDIRECT) * 4) = Ok (Inr (slice (blk s (unat e)) (4 * (n - 12)) 4), s0)"
      "becomes s s0 (fb s) (blk s)"
    using sfs_rbuf_ok [OF v e(2), of "(index - SFS_NDIRECT) * 4" 4] I(3,5) by (auto simp: n_def)
  note D0 = becomesD [OF r(2)]
  have sub: "sfs_bmap_get_sub_nolock s e (index - SFS_NDIRECT) True = sub_create s0 e e ((index - SFS_NDIRECT) * 4)"
    using r(1) z e(1) I(2) by (simp add: sfs_bmap_get_sub_nolock_def)
  have get: "sfs_bmap_get_nolock s p index True = res_bind (sub_create s0 e e ((index - SFS_NDIRECT) * 4)) (\<lambda>(r, s1).
      case r of Inl e \<Rightarrow> Ok (Inl e, s1)
      | Inr (ent, i) \<Rightarrow>
        if ent \<noteq> din_indirect (din (sins s1 p)) then
          assert_c (din_indirect (din (sins s1 p)) = 0)
            (bmap_out (upd_sin (upd_din s1 p (\<lambda>d. d\<lparr>din_indirect := ent\<rparr>)) p (set_dirty True)) i)
        else bmap_out s1 i)"
    unfolding sub [symmetric] using ix(2) I(2) by (simp add: sfs_bmap_get_nolock_def Let_def e_def d_def)
  show ?thesis
  proof (cases "fb s = {}")
    case True
    have "sub_create s0 e e ((index - SFS_NDIRECT) * 4) = Ok (Inl E_NO_MEM, s0)"
      using sfs_block_alloc_none [OF D0(1)] D0(2) True by (simp add: sub_create_def sub_cleanup_def)
    then have "sfs_bmap_get_nolock s p index True = Ok (Inl E_NO_MEM, s0)" using get by simp
    moreover have "no_space s s0" using r(2) True D0(3) by (simp add: no_space_def)
    ultimately show ?thesis using load_of_get(1) [OF ix(1)] by blast
  next
    case False
    have u0: "used s0 (unat e)" using e(2) becomes_used [OF r(2)] by simp
    have ne0: "fb s0 \<noteq> {}" using False D0(2) by simp
    have k: "n - 12 < 1024" using n(2,3) unfolding NMAX_def by linarith
    obtain i s1 where c: "sub_create s0 e e ((index - SFS_NDIRECT) * 4) = Ok (Inr (e, i), s1)" "unat i \<in> fb s0" "unat i \<noteq> unat e"
        "becomes s0 s1 (fb s0 - {unat i}) ((blk s0)(unat i := replicate 4096 0, unat e := splice (blk s0 (unat e)) (4 * (n - 12)) (le32 i)))"
      using sub_create_some [OF D0(1) ne0 u0 I(3) [folded n_def] k] by blast
    let ?B = "(blk s)(unat i := replicate 4096 0, unat e := splice (blk s (unat e)) (4 * (n - 12)) (le32 i))"
    have b1: "becomes s s1 (fb s - {unat i}) ?B" using becomes_trans [OF r(2) c(4)] D0(2,3) by simp
    note D = becomesD [OF b1]
    define s' where "s' = upd_din s1 p (\<lambda>d. d\<lparr>din_blocks := din_blocks d + 1\<rparr>)"
    have ifb: "unat i \<in> fb s" using c(2) D0(2) by simp
    have u: "used s1 (unat i)" using D(8) ifb v by (auto simp: vol_ok_def)
    have "sfs_bmap_get_nolock s p index True = Ok (Inr i, s1)"
      using get c(1) bmap_out_ok [OF D(1) u] by (simp add: D(4) e_def d_def)
    then have ld: "sfs_bmap_load_nolock s p index = Ok (Inr i, s')"
      unfolding s'_def by (rule load_of_get(2) [OF ix(1) _ D(1) u])
    have "grown s s' p i"
    proof (rule grownI [OF f d_def n(1,2) b1, where x = "sins s' p" and d' = "d\<lparr>din_blocks := din_blocks d + 1\<rparr>"])
      show "\<forall>j<NMAX. bnum ?B (d\<lparr>din_blocks := din_blocks d + 1\<rparr>) j = (if j = n then i else bnum (blk s) d j)"
        using bnum_indirect_new [where B = "blk s" and B' = ?B and i = i, OF n(3,2) e_def [symmetric] e(1) blk_length [OF v]]
        by simp
      show "card (fb s) \<le> card (fb s - {unat i}) + 2" using ifb by simp
      show "length (din_direct (d\<lparr>din_blocks := din_blocks d + 1\<rparr>)) = 12" using ok by (simp add: inode_ok_def)
    qed (use c(3) ifb e(2) in \<open>auto simp: s'_def D d_def e_def used_def\<close>)
    then show ?thesis using ld by blast
  qed
qed

lemma load_new_first:
  assumes f: "file_ok s p" and ix: "index = din_blocks (din (sins s p))" "\<not> index < SFS_NDIRECT" "unat index < NMAX"
    and z: "din_indirect (din (sins s p)) = 0"
  shows "(\<exists>s'. sfs_bmap_load_nolock s p index = Ok (Inl E_NO_MEM, s') \<and> no_space s s') \<or>
    (\<exists>i s'. sfs_bmap_load_nolock s p index = Ok (Inr i, s') \<and> grown s s' p i)"
proof -
  define d where "d = din (sins s p)"
  define n where "n = unat index"
  define off where "off = (index - SFS_NDIRECT) * 4"
  have v: "vol_ok s" and ok: "inode_ok (nblocks s) (fb s) (blk s) d" using f by (auto simp: file_ok_def d_def)
  note I = indirect_index [OF ix(2,3)]
  have n: "unat (din_blocks d) = n" "n < NMAX" "12 \<le> n" using ix(1,3) I(4) by (auto simp: d_def n_def)
  have k: "unat off = 4 * (n - 12)" "n - 12 < 1024" using I(3) n(2,3) by (auto simp: off_def n_def NMAX_def)
  have sub: "sfs_bmap_get_sub_nolock s 0 (index - SFS_NDIRECT) True = res_bind (sfs_block_alloc s) (\<lambda>(r, s1).
      case r of Inl e \<Rightarrow> Ok (Inl e, s1) | Inr ent \<Rightarrow> sub_create s1 0 ent off)"
    using I(2) unfolding sfs_bmap_get_sub_nolock_def off_def [symmetric] Let_def by simp
  have get: "sfs_bmap_get_nolock s p index True = res_bind (sfs_bmap_get_sub_nolock s 0 (index - SFS_NDIRECT) True) (\<lambda>(r, s1).
      case r of Inl e \<Rightarrow> Ok (Inl e, s1)
      | Inr (ent, i) \<Rightarrow>
        if ent \<noteq> din_indirect (din (sins s1 p)) then
          assert_c (din_indirect (din (sins s1 p)) = 0)
            (bmap_out (upd_sin (upd_din s1 p (\<lambda>d. d\<lparr>din_indirect := ent\<rparr>)) p (set_dirty True)) i)
        else bmap_out s1 i)"
    using ix(2) I(2) z by (simp add: sfs_bmap_get_nolock_def Let_def)
  show ?thesis
  proof (cases "fb s = {}")
    case True
    have "sfs_bmap_get_nolock s p index True = Ok (Inl E_NO_MEM, s)"
      using get sub sfs_block_alloc_none [OF v True] by simp
    then show ?thesis using load_of_get(1) [OF ix(1)] no_space_refl [OF v True] by blast
  next
    case False
    obtain ent s1 where a: "sfs_block_alloc s = Ok (Inr ent, s1)" "unat ent \<in> fb s"
        "becomes s s1 (fb s - {unat ent}) ((blk s)(unat ent := replicate 4096 0))"
      using sfs_block_alloc_some [OF v False] by blast
    note D1 = becomesD [OF a(3)]
    have pos: "0 < unat ent" "unat ent < nblocks s" using a(2) v by (auto simp: vol_ok_def)
    have u1: "used s1 (unat ent)" using D1(8) pos by simp
    have enz: "ent \<noteq> 0" using pos by auto
    show ?thesis
    proof (cases "fb s1 = {}")
      case True
      obtain s2 where fr: "sfs_block_free s1 ent = Ok s2" "becomes s1 s2 (insert (unat ent) (fb s1)) (blk s1)"
        using sfs_block_free_ok [OF D1(1) u1] by blast
      have fbs: "fb s = {unat ent}" using True D1(2) a(2) by auto
      have b2: "becomes s s2 (fb s) ((blk s)(unat ent := replicate 4096 0))"
        using becomes_trans [OF a(3) fr(2)] True D1(3) fbs by simp
      have "sub_create s1 0 ent off = Ok (Inl E_NO_MEM, s2)"
        using sfs_block_alloc_none [OF D1(1) True] fr(1) enz by (simp add: sub_create_def sub_cleanup_def)
      then have "sfs_bmap_get_nolock s p index True = Ok (Inl E_NO_MEM, s2)" using get sub a(1) by simp
      moreover have "no_space s s2" using b2 fbs becomesD(3) [OF b2] by (simp add: no_space_def)
      ultimately show ?thesis using load_of_get(1) [OF ix(1)] by blast
    next
      case False
      obtain i s2 where c: "sub_create s1 0 ent off = Ok (Inr (ent, i), s2)" "unat i \<in> fb s1" "unat i \<noteq> unat ent"
          "becomes s1 s2 (fb s1 - {unat i}) ((blk s1)(unat i := replicate 4096 0, unat ent := splice (blk s1 (unat ent)) (4 * (n - 12)) (le32 i)))"
        using sub_create_some [OF D1(1) False u1 k] by blast
      let ?F = "fb s - {unat ent} - {unat i}"
      let ?B = "(blk s)(unat ent := replicate 4096 0, unat i := replicate 4096 0, unat ent := splice (replicate 4096 0) (4 * (n - 12)) (le32 i))"
      have b2: "becomes s s2 ?F ?B" using becomes_trans [OF a(3) c(4)] D1(2,3) c(3) by simp
      note D = becomesD [OF b2]
      have ifb: "unat i \<in> fb s" using c(2) D1(2) by simp
      define s3 where "s3 = upd_sin (upd_din s2 p (\<lambda>d. d\<lparr>din_indirect := ent\<rparr>)) p (set_dirty True)"
      define s' where "s' = upd_din s3 p (\<lambda>d. d\<lparr>din_blocks := din_blocks d + 1\<rparr>)"
      have u: "used s3 (unat i)" using D(8) ifb v by (auto simp: vol_ok_def s3_def)
      have v3: "vol_ok s3" using D(1) by (simp add: s3_def)
      have "sfs_bmap_get_nolock s p index True = Ok (Inr i, s3)"
        using get sub a(1) c(1) bmap_out_ok [OF v3 u] z enz by (simp add: D(4) s3_def)
      then have ld: "sfs_bmap_load_nolock s p index = Ok (Inr i, s')"
        unfolding s'_def by (rule load_of_get(2) [OF ix(1) _ v3 u])
      have "grown s s' p i"
      proof (rule grownI [OF f d_def n(1,2) b2, where x = "sins s' p" and
            d' = "d\<lparr>din_indirect := ent, din_blocks := din_blocks d + 1\<rparr>"])
        show "\<forall>j<NMAX. bnum ?B (d\<lparr>din_indirect := ent, din_blocks := din_blocks d + 1\<rparr>) j = (if j = n then i else bnum (blk s) d j)"
          using bnum_indirect_first [where B = "blk s" and B' = ?B and i = i, OF n(3,2) _ enz] z by (simp add: d_def)
        have "card ?F = card (fb s) - 2" using a(2) ifb c(3) by simp
        then show "card (fb s) \<le> card ?F + 2" by simp
        show "length (din_direct (d\<lparr>din_indirect := ent, din_blocks := din_blocks d + 1\<rparr>)) = 12" using ok by (simp add: inode_ok_def)
      qed (use c(3) ifb a(2) z in \<open>auto simp: s'_def s3_def D d_def\<close>)
      then show ?thesis using ld by blast
    qed
  qed
qed

text \<open>Appending a block either fails for lack of free blocks or grows the file by a block of zeros.\<close>

lemma bmap_load_new:
  assumes f: "file_ok s p" and ix: "index = din_blocks (din (sins s p))" "unat index < NMAX"
  shows "(\<exists>s'. sfs_bmap_load_nolock s p index = Ok (Inl E_NO_MEM, s') \<and> no_space s s') \<or>
    (\<exists>i s'. sfs_bmap_load_nolock s p index = Ok (Inr i, s') \<and> grown s s' p i)"
  using load_new_direct [OF f ix(1)] load_new_indirect [OF f ix(1) _ ix(2)] load_new_first [OF f ix(1) _ ix(2)] by blast

end
