(* ===== verification/Sfs_File.thy ===== *)
theory Sfs_File
  imports Sfs_Bmap
begin

text \<open>
  Reading and writing as operations on byte sequences. \<open>put r o b\<close> is the sequence of whole blocks
  \<open>r\<close> after the bytes \<open>b\<close> were written at \<open>o\<close>, extended by blocks of zeros as far as necessary. A write
  of a file performs \<open>put\<close> on the bytes of its blocks part by part, a read takes a slice.
\<close>

section \<open>Bytes in whole blocks\<close>

definition up4 :: "nat \<Rightarrow> nat" where
  "up4 m = 4096 * ((m + 4095) div 4096)"

definition pad :: "u8 list \<Rightarrow> nat \<Rightarrow> u8 list" where
  "pad r m = r @ replicate (up4 m - length r) 0"

definition put :: "u8 list \<Rightarrow> nat \<Rightarrow> u8 list \<Rightarrow> u8 list" where
  "put r off bs = splice (pad r (off + length bs)) off bs"

lemma up4_ge: "m \<le> up4 m"
proof -
  have "4096 * ((m + 4095) div 4096) + (m + 4095) mod 4096 = m + 4095" by (rule mult_div_mod_eq)
  moreover have "(m + 4095) mod 4096 < 4096" by simp
  ultimately show ?thesis unfolding up4_def by linarith
qed

lemma up4_le: "m \<le> 4096 * k \<Longrightarrow> up4 m \<le> 4096 * k"
  unfolding up4_def by (simp add: less_mult_imp_div_less [of _ "Suc k", simplified less_Suc_eq_le])

lemma up4_block: "4096 * k < m \<Longrightarrow> m \<le> 4096 * (k + 1) \<Longrightarrow> up4 m = 4096 * (k + 1)"
proof -
  assume a: "4096 * k < m" "m \<le> 4096 * (k + 1)"
  have "(m + 4095) div 4096 = k + 1"
    by (rule div_nat_eqI) (use a in auto)
  then show ?thesis by (simp add: up4_def)
qed

lemma length_pad [simp]: "length (pad r m) = max (length r) (up4 m)"
  by (auto simp: pad_def)

lemma length_put: "length (put r off bs) = max (length r) (up4 (off + length bs))"
  unfolding put_def by (subst splice_length) (use up4_ge [of "off + length bs"] in auto)

lemma nth_put:
  assumes "i < max (length r) (up4 (off + length bs))"
  shows "put r off bs ! i = (if off \<le> i \<and> i < off + length bs then bs ! (i - off) else if i < length r then r ! i else 0)"
proof -
  have "off + length bs \<le> length (pad r (off + length bs))" using up4_ge [of "off + length bs"] by simp
  then show ?thesis unfolding put_def using assms by (subst splice_nth) (auto simp: pad_def nth_append)
qed

lemma up4_mono: "m \<le> n \<Longrightarrow> up4 m \<le> up4 n"
  by (simp add: up4_def div_le_mono)

lemma put_put: "put (put r off b1) (off + length b1) b2 = put r off (b1 @ b2)"
proof (rule nth_equalityI)
  have m: "up4 (off + length b1) \<le> up4 (off + length b1 + length b2)" by (rule up4_mono) simp
  then show "length (put (put r off b1) (off + length b1) b2) = length (put r off (b1 @ b2))"
    by (simp add: length_put add.assoc)
  fix i
  assume i: "i < length (put (put r off b1) (off + length b1) b2)"
  then have i2: "i < max (length r) (up4 (off + length (b1 @ b2)))"
    and i1: "i < max (length (put r off b1)) (up4 (off + length b1 + length b2))"
    using m by (auto simp: length_put add.assoc)
  show "put (put r off b1) (off + length b1) b2 ! i = put r off (b1 @ b2) ! i"
    unfolding nth_put [OF i1] nth_put [OF i2]
    using nth_put [of i r off b1] up4_ge [of "off + length b1"]
    by (auto simp: nth_append length_put)
qed

lemma put_nil: "off \<le> length r \<Longrightarrow> length r = 4096 * k \<Longrightarrow> put r off [] = r"
  using up4_le [of off k] by (simp add: put_def pad_def)

lemma put_inside: "off + length bs \<le> length r \<Longrightarrow> length r = 4096 * k \<Longrightarrow> put r off bs = splice r off bs"
  using up4_le [of "off + length bs" k] by (simp add: put_def pad_def)

lemma put_extend:
  assumes "length r = 4096 * k" and "off + length bs \<le> 4096" and "bs \<noteq> []"
  shows "put r (4096 * k + off) bs = splice (r @ replicate 4096 0) (4096 * k + off) bs"
proof -
  have "0 < length bs" using assms(3) by simp
  then have "up4 (4096 * k + off + length bs) = 4096 * (k + 1)" using assms(2) by (intro up4_block) auto
  then show ?thesis using assms(1) by (simp add: put_def pad_def)
qed

section \<open>Writing inside a block of the file\<close>

lemma splice_append_left: "splice (xs @ ys) (length xs + j) bs = xs @ splice ys j bs"
  by (simp add: splice_def add.assoc)

lemma splice_append_right: "j + length bs \<le> length xs \<Longrightarrow> splice (xs @ ys) j bs = splice xs j bs @ ys"
  by (simp add: splice_def)

lemma concat_splice:
  assumes "\<forall>x \<in> set xs. length x = 4096" and "k < length xs" and "off + length bs \<le> 4096"
  shows "concat (xs[k := splice (xs ! k) off bs]) = splice (concat xs) (4096 * k + off) bs"
  using assms
proof (induction xs arbitrary: k)
  case (Cons x xs)
  show ?case
  proof (cases k)
    case 0
    then show ?thesis using Cons(2,4) by (simp add: splice_append_right)
  next
    case (Suc j)
    then have "concat (xs[j := splice (xs ! j) off bs]) = splice (concat xs) (4096 * j + off) bs" using Cons by simp
    moreover have "4096 * k + off = length x + (4096 * j + off)" using Cons(2) Suc by simp
    ultimately show ?thesis using splice_append_left [of x "concat xs" "4096 * j + off" bs] Suc by (simp add: add.assoc)
  qed
qed simp

definition rawf :: "sfs_fs \<Rightarrow> nat \<Rightarrow> u8 list" where
  "rawf s p = raw (blk s) (din (sins s p))"

definition nb :: "sfs_fs \<Rightarrow> nat \<Rightarrow> nat" where
  "nb s p = unat (din_blocks (din (sins s p)))"

lemma length_rawf: "file_ok s p \<Longrightarrow> length (rawf s p) = 4096 * nb s p"
proof -
  assume "file_ok s p"
  then have "length (blk s b) = 4096" for b using blk_length by (simp add: file_ok_def)
  then have "length (concat (map (blk s) bs)) = 4096 * length bs" for bs by (induction bs) auto
  then have "length (rawf s p) = 4096 * length (fblocks (blk s) (din (sins s p)))" by (simp only: rawf_def raw_def)
  then show ?thesis by (simp add: fblocks_def nb_def)
qed

lemma fblocks_distinct: "inode_ok N F B d \<Longrightarrow> distinct (fblocks B d)"
proof -
  assume "inode_ok N F B d"
  then have "inj_on (bnum B d) {..<unat (din_blocks d)}" by (simp add: inode_ok_def)
  then have "inj_on (unat \<circ> bnum B d) {..<unat (din_blocks d)}"
    by (rule comp_inj_on) (auto simp: inj_on_def word_unat_eq_iff)
  then show ?thesis by (simp add: fblocks_def distinct_map atLeast0LessThan comp_def)
qed

lemma evolve_write:
  assumes f: "file_ok s p" and k: "k < nb s p" and o: "off + length bs \<le> 4096"
    and b: "b = unat (bnum (blk s) (din (sins s p)) k)"
    and c: "becomes s s' (fb s) ((blk s)(b := splice (blk s b) off bs))"
  shows "evolve s s' p" and "rawf s' p = splice (rawf s p) (4096 * k + off) bs" and "sins s' = sins s" and "fb s' = fb s"
proof -
  let ?d = "din (sins s p)" and ?B = "(blk s)(b := splice (blk s b) off bs)"
  note D = becomesD [OF c]
  have ok: "inode_ok (nblocks s) (fb s) (blk s) ?d" and v: "vol_ok s" using f by (auto simp: file_ok_def)
  have len: "length (fblocks (blk s) ?d) = nb s p" by (simp add: fblocks_def nb_def)
  have bk: "fblocks (blk s) ?d ! k = b" using k by (simp add: fblocks_def nb_def b)
  then have mem: "b \<in> set (fblocks (blk s) ?d)" using k len by (metis nth_mem)
  have "din_indirect ?d \<noteq> 0 \<longrightarrow> ?B (unat (din_indirect ?d)) = blk s (unat (din_indirect ?d))"
    using fblocks_indirect [OF ok] mem by auto
  note cg = inode_ok_cong [where B' = ?B, OF ok this]
  show "sins s' = sins s" "fb s' = fb s" by (rule D)+
  have "file_ok s' p" using D cg(1) by (simp add: file_ok_def)
  moreover have "own s' p = own s p" using D(3,4) cg(2) by (simp add: own_def)
  moreover have "b \<in> own s p" using mem by (simp add: own_def Let_def)
  ultimately show "evolve s s' p"
    using D becomes_used [OF c] by (auto simp: evolve_def same_but_def)
  have "map ?B (fblocks (blk s) ?d) = (map (blk s) (fblocks (blk s) ?d))[k := splice (blk s b) off bs]"
  proof (rule nth_equalityI)
    fix i
    assume i: "i < length (map ?B (fblocks (blk s) ?d))"
    then have "fblocks (blk s) ?d ! i = b \<longleftrightarrow> i = k"
      using fblocks_distinct [OF ok] bk k len by (auto simp: nth_eq_iff_index_eq)
    then show "map ?B (fblocks (blk s) ?d) ! i = (map (blk s) (fblocks (blk s) ?d))[k := splice (blk s b) off bs] ! i"
      using i by (simp add: nth_list_update)
  qed simp
  then have "rawf s' p = concat ((map (blk s) (fblocks (blk s) ?d))[k := splice (map (blk s) (fblocks (blk s) ?d) ! k) off bs])"
    unfolding rawf_def raw_def D(3,4) cg(2) using bk k len by simp
  also have "\<dots> = splice (concat (map (blk s) (fblocks (blk s) ?d))) (4096 * k + off) bs"
    by (rule concat_splice) (use k len o blk_length [OF v] in auto)
  finally show "rawf s' p = splice (rawf s p) (4096 * k + off) bs" by (simp add: rawf_def raw_def)
qed

section \<open>Steps of a write\<close>

text \<open>\<open>s'\<close> is \<open>s\<close> after the bytes \<open>bs\<close> were written at \<open>off\<close>; each appended block took at most two free ones.\<close>

definition wrote :: "sfs_fs \<Rightarrow> sfs_fs \<Rightarrow> nat \<Rightarrow> nat \<Rightarrow> u8 list \<Rightarrow> bool" where
  "wrote s s' p off bs \<longleftrightarrow> evolve s s' p \<and> rawf s' p = put (rawf s p) off bs \<and>
     din_size (din (sins s' p)) = din_size (din (sins s p)) \<and> card (fb s) \<le> card (fb s') + 2 * (nb s' p - nb s p)"

lemma nb_of_raw: "file_ok s p \<Longrightarrow> nb s p = length (rawf s p) div 4096"
  by (simp add: length_rawf)

lemma wrote_nb:
  assumes "file_ok s p" and "wrote s s' p off bs"
  shows "nb s' p = max (nb s p) ((off + length bs + 4095) div 4096)"
proof -
  have "4096 * nb s' p = max (4096 * nb s p) (up4 (off + length bs))"
    using assms length_rawf [of s p] length_rawf [of s' p] by (simp add: wrote_def evolve_def length_put)
  then show ?thesis unfolding up4_def by (simp add: max_def split: if_splits)
qed

lemma wrote_trans:
  assumes f: "file_ok s p" and w1: "wrote s s1 p off b1" and w2: "wrote s1 s2 p (off + length b1) b2"
  shows "wrote s s2 p off (b1 @ b2)"
proof -
  have f1: "file_ok s1 p" using w1 by (simp add: wrote_def evolve_def)
  have "nb s p \<le> nb s1 p" "nb s1 p \<le> nb s2 p" using wrote_nb [OF f w1] wrote_nb [OF f1 w2] by auto
  then show ?thesis using w1 w2 evolve_trans [of s s1 p s2] put_put [of "rawf s p" off b1 b2]
    by (auto simp: wrote_def)
qed

lemma wrote_refl: "file_ok s p \<Longrightarrow> off \<le> 4096 * nb s p \<Longrightarrow> wrote s s p off []"
  by (simp add: wrote_def evolve_def same_but_def put_nil [OF _ length_rawf] length_rawf)

lemma wrote_no_space:
  assumes f: "file_ok s p" and n: "no_space s s'" and o: "off \<le> 4096 * nb s p"
  shows "wrote s s' p off []" and "card (fb s') < 2" and "nb s' p = nb s p"
proof -
  have b: "becomes s s' (fb s) (blk s')" "\<forall>b. b \<notin> fb s \<longrightarrow> blk s' b = blk s b" "card (fb s) < 2"
    using n by (auto simp: no_space_def)
  note e = evolve_free [OF f b(1,2)]
  note D = becomesD [OF b(1)]
  show "card (fb s') < 2" using b(3) D(2) by simp
  show "nb s' p = nb s p" using D(4) by (simp add: nb_def)
  show "wrote s s' p off []"
    using e D(2,4) o put_nil [OF _ length_rawf [OF f]] length_rawf [OF f] by (simp add: wrote_def rawf_def)
qed

lemma write_chunk:
  assumes f: "file_ok s p" and k: "unat blkno < NMAX" and o: "4096 * unat blkno + o' \<le> 4096 * nb s p"
    and l: "o' < 4096" "o' + length bs \<le> 4096" "bs \<noteq> []"
  shows "(\<exists>s'. sfs_bmap_load_nolock s p blkno = Ok (Inl E_NO_MEM, s') \<and> wrote s s' p (4096 * unat blkno + o') [] \<and>
      card (fb s') < 2 \<and> nb s' p = unat blkno) \<or>
    (\<exists>i s1. sfs_bmap_load_nolock s p blkno = Ok (Inr i, s1) \<and> vol_ok s1 \<and> used s1 (unat i) \<and>
      (\<forall>s'. becomes s1 s' (fb s1) ((blk s1)(unat i := splice (blk s1 (unat i)) o' bs)) \<longrightarrow>
        wrote s s' p (4096 * unat blkno + o') bs))"
proof (cases "unat blkno < nb s p")
  case True
  let ?i = "bnum (blk s) (din (sins s p)) (unat blkno)"
  obtain s1 where r: "sfs_bmap_load_nolock s p blkno = Ok (Inr ?i, s1)" "becomes s s1 (fb s) (blk s)"
    using bmap_load_present [OF f True [unfolded nb_def]] by blast
  note D = becomesD [OF r(2)]
  have u: "used s1 (unat ?i)" using bnum_used [OF f True [unfolded nb_def]] becomes_used [OF r(2)] by simp
  have "wrote s s' p (4096 * unat blkno + o') bs"
    if c: "becomes s1 s' (fb s1) ((blk s1)(unat ?i := splice (blk s1 (unat ?i)) o' bs))" for s'
  proof -
    have c': "becomes s s' (fb s) ((blk s)(unat ?i := splice (blk s (unat ?i)) o' bs))"
      using becomes_trans [OF r(2) c] D(2,3) by simp
    note e = evolve_write [OF f True l(2) refl c']
    have "rawf s' p = put (rawf s p) (4096 * unat blkno + o') bs"
      using e(2) put_inside [OF _ length_rawf [OF f], of "4096 * unat blkno + o'" bs] length_rawf [OF f] True l(2) by simp
    then show ?thesis using e by (simp add: wrote_def nb_def)
  qed
  then show ?thesis using r(1) D(1) u by blast
next
  case False
  then have eq: "unat blkno = nb s p" and o0: "o' = 0" using o l(1) by auto
  have ix: "blkno = din_blocks (din (sins s p))" using eq by (simp add: nb_def word_unat_eq_iff)
  show ?thesis
    using bmap_load_new [OF f ix k]
  proof
    assume "\<exists>s'. sfs_bmap_load_nolock s p blkno = Ok (Inl E_NO_MEM, s') \<and> no_space s s'"
    then show ?thesis using wrote_no_space [OF f _ o] eq by metis
  next
    assume "\<exists>i s'. sfs_bmap_load_nolock s p blkno = Ok (Inr i, s') \<and> grown s s' p i"
    then obtain i s1 where g: "sfs_bmap_load_nolock s p blkno = Ok (Inr i, s1)" "grown s s1 p i" by blast
    have G: "evolve s s1 p" "card (fb s) \<le> card (fb s1) + 2" "rawf s1 p = rawf s p @ replicate 4096 0"
        "din_size (din (sins s1 p)) = din_size (din (sins s p))" "din_blocks (din (sins s1 p)) = din_blocks (din (sins s p)) + 1"
        "fblocks (blk s1) (din (sins s1 p)) = fblocks (blk s) (din (sins s p)) @ [unat i]"
      using g(2) by (auto simp: grown_def rawf_def)
    have f1: "file_ok s1 p" using G(1) by (simp add: evolve_def)
    have n1: "nb s1 p = Suc (nb s p)" using G(5) k eq ix by (simp add: nb_def unat_add_u32 NMAX_def)
    have "length (fblocks (blk s) (din (sins s p))) = nb s p" by (simp add: fblocks_def nb_def)
    then have "fblocks (blk s1) (din (sins s1 p)) ! nb s p = unat i"
      unfolding G(6) by (metis nth_append_length)
    moreover have "fblocks (blk s1) (din (sins s1 p)) ! nb s p = unat (bnum (blk s1) (din (sins s1 p)) (nb s p))"
      unfolding fblocks_def nb_def [symmetric] using n1 by (simp del: upt_Suc)
    ultimately have bi: "unat i = unat (bnum (blk s1) (din (sins s1 p)) (nb s p))" by simp
    have u: "used s1 (unat i)" unfolding bi by (rule bnum_used [OF f1]) (use n1 in \<open>simp add: nb_def\<close>)
    have "wrote s s' p (4096 * unat blkno + o') bs"
      if c: "becomes s1 s' (fb s1) ((blk s1)(unat i := splice (blk s1 (unat i)) o' bs))" for s'
    proof -
      have lt: "nb s p < nb s1 p" using n1 by simp
      note e = evolve_write [OF f1 lt l(2) bi c]
      have "rawf s' p = put (rawf s p) (4096 * unat blkno + o') bs"
        using e(2) put_extend [OF length_rawf [OF f] l(2,3)] G(3) eq by simp
      moreover have "nb s' p = nb s1 p" using e(3) by (simp add: nb_def)
      ultimately show ?thesis using e G(2,4) n1 evolve_trans [OF G(1) e(1)] by (simp add: wrote_def)
    qed
    then show ?thesis using g(1) f1 u by (auto simp: file_ok_def)
  qed
qed

section \<open>Outcomes of a write\<close>

text \<open>Of the bytes \<open>bs\<close> for position \<open>off\<close> the first \<open>k\<close> were written: all of them, or the volume is full.\<close>

definition outcome :: "sfs_fs \<Rightarrow> sfs_fs \<Rightarrow> nat \<Rightarrow> nat \<Rightarrow> u8 list \<Rightarrow> errno + unit \<Rightarrow> nat \<Rightarrow> bool" where
  "outcome s s' p off bs r k \<longleftrightarrow> wrote s s' p off (take k bs) \<and>
     (r = Inr () \<and> k = length bs \<or>
      r = Inl E_NO_MEM \<and> k < length bs \<and> card (fb s') < 2 \<and> 4096 * nb s' p < off + length bs)"

lemma outcome_Inr: "outcome s s' p off bs (Inr x) k \<longleftrightarrow> wrote s s' p off bs \<and> k = length bs"
  by (auto simp: outcome_def)

lemma outcome_fail: "outcome s s' p off b1 (Inl e) k \<Longrightarrow> outcome s s' p off (b1 @ b2) (Inl e) k"
  by (auto simp: outcome_def)

lemma outcome_seq:
  assumes f: "file_ok s p" and w: "wrote s s1 p off b1" and o: "outcome s1 s2 p (off + length b1) b2 r k"
  shows "outcome s s2 p off (b1 @ b2) r (length b1 + k)"
  using o wrote_trans [OF f w, of s2 "take k b2"] by (auto simp: outcome_def add.assoc)

lemma outcome_nil: "file_ok s p \<Longrightarrow> off \<le> 4096 * nb s p \<Longrightarrow> outcome s s p off [] (Inr ()) 0"
  by (simp add: outcome_def wrote_refl)

lemma outcome_file: "outcome s s' p off bs r k \<Longrightarrow> file_ok s' p"
  by (simp add: outcome_def wrote_def evolve_def)

text \<open>After a write the file reaches at least to the end of what was written.\<close>

lemma wrote_reach: "file_ok s p \<Longrightarrow> wrote s s' p off bs \<Longrightarrow> off + length bs \<le> 4096 * nb s' p"
  using wrote_nb [of s p s' off bs] up4_ge [of "off + length bs"] by (auto simp: up4_def max_def)

lemma slice_split: "a + m + n \<le> length xs \<Longrightarrow> slice xs a (m + n) = slice xs a m @ slice xs (a + m) n"
  by (simp add: slice_def take_add add.commute)

lemma splice_slice: "i + n \<le> length xs \<Longrightarrow> splice xs i (slice xs i n) = xs"
proof -
  assume "i + n \<le> length xs"
  then have "splice xs i (slice xs i n) = take i xs @ take n (drop i xs) @ drop n (drop i xs)"
    by (simp add: splice_def slice_def add.commute)
  then show ?thesis by (simp only: append_take_drop_id)
qed

lemma io_part_write:
  assumes f: "file_ok s p" and k: "unat blkno < NMAX" and o: "4096 * unat blkno + unat off \<le> 4096 * nb s p"
    and l: "unat off < 4096" "unat off + unat sz \<le> 4096" "0 < unat sz" "pos + unat sz \<le> length buf"
  shows "\<exists>r s' k. io_part s p buf pos sz blkno off True = Ok (r, buf, s') \<and>
    outcome s s' p (4096 * unat blkno + unat off) (slice buf pos (unat sz)) r k \<and> (\<forall>e. r = Inl e \<longrightarrow> k = 0)"
proof -
  let ?bs = "slice buf pos (unat sz)"
  have lb: "length ?bs = unat sz" using l(4) by simp
  have sl: "slice (drop pos buf) 0 (unat sz) = ?bs" by (simp add: slice_def)
  have ld: "unat sz \<le> length (drop pos buf)" using l(4) by simp
  have l': "unat off + length ?bs \<le> 4096" "?bs \<noteq> []" using lb l by (simp_all flip: length_greater_0_conv)
  from write_chunk [OF f k o l(1) l'] show ?thesis
  proof
    assume "\<exists>s'. sfs_bmap_load_nolock s p blkno = Ok (Inl E_NO_MEM, s') \<and> wrote s s' p (4096 * unat blkno + unat off) [] \<and>
      card (fb s') < 2 \<and> nb s' p = unat blkno"
    then obtain s' where s': "sfs_bmap_load_nolock s p blkno = Ok (Inl E_NO_MEM, s')"
        "wrote s s' p (4096 * unat blkno + unat off) []" "card (fb s') < 2" "nb s' p = unat blkno" by blast
    have "outcome s s' p (4096 * unat blkno + unat off) ?bs (Inl E_NO_MEM) 0"
      using s'(2-4) lb l(3) by (simp add: outcome_def)
    then show ?thesis using s'(1) by (auto simp: io_part_def)
  next
    assume "\<exists>i s1. sfs_bmap_load_nolock s p blkno = Ok (Inr i, s1) \<and> vol_ok s1 \<and> used s1 (unat i) \<and>
      (\<forall>s'. becomes s1 s' (fb s1) ((blk s1)(unat i := splice (blk s1 (unat i)) (unat off) ?bs)) \<longrightarrow>
        wrote s s' p (4096 * unat blkno + unat off) ?bs)"
    then obtain i s1 where i: "sfs_bmap_load_nolock s p blkno = Ok (Inr i, s1)" "vol_ok s1" "used s1 (unat i)"
        and w: "\<And>s'. becomes s1 s' (fb s1) ((blk s1)(unat i := splice (blk s1 (unat i)) (unat off) ?bs)) \<Longrightarrow>
          wrote s s' p (4096 * unat blkno + unat off) ?bs" by blast
    obtain s' where s': "sfs_wbuf s1 (drop pos buf) sz i off = Ok (Inr (), s')"
        "becomes s1 s' (fb s1) ((blk s1)(unat i := splice (blk s1 (unat i)) (unat off) ?bs))"
      using sfs_wbuf_ok [OF i(2,3) l(2,1) ld] unfolding sl by blast
    have "io_part s p buf pos sz blkno off True = Ok (Inr (), buf, s')" using i(1) s'(1) by (simp add: io_part_def)
    moreover have "outcome s s' p (4096 * unat blkno + unat off) ?bs (Inr ()) (length ?bs)"
      using w [OF s'(2)] by (simp add: outcome_Inr)
    ultimately show ?thesis by blast
  qed
qed

lemma io_block_write:
  assumes f: "file_ok s p" and k: "unat blkno < NMAX" and o: "unat blkno \<le> nb s p" and l: "pos + 4096 \<le> length buf"
  shows "\<exists>r s' k. io_block s p buf pos blkno True = Ok (r, buf, s') \<and>
    outcome s s' p (4096 * unat blkno) (slice buf pos 4096) r k \<and> (\<forall>e. r = Inl e \<longrightarrow> k = 0)"
proof -
  let ?bs = "slice buf pos 4096"
  have lb: "length ?bs = 4096" using l by simp
  have o': "4096 * unat blkno + 0 \<le> 4096 * nb s p" and l': "0 + length ?bs \<le> 4096" "?bs \<noteq> []"
    using o lb by (auto simp flip: length_0_conv)
  from write_chunk [OF f k o' _ l'] have
    "(\<exists>s'. sfs_bmap_load_nolock s p blkno = Ok (Inl E_NO_MEM, s') \<and> wrote s s' p (4096 * unat blkno) [] \<and>
      card (fb s') < 2 \<and> nb s' p = unat blkno) \<or>
    (\<exists>i s1. sfs_bmap_load_nolock s p blkno = Ok (Inr i, s1) \<and> vol_ok s1 \<and> used s1 (unat i) \<and>
      (\<forall>s'. becomes s1 s' (fb s1) ((blk s1)(unat i := splice (blk s1 (unat i)) 0 ?bs)) \<longrightarrow>
        wrote s s' p (4096 * unat blkno) ?bs))" by simp
  then show ?thesis
  proof
    assume "\<exists>s'. sfs_bmap_load_nolock s p blkno = Ok (Inl E_NO_MEM, s') \<and> wrote s s' p (4096 * unat blkno) [] \<and>
      card (fb s') < 2 \<and> nb s' p = unat blkno"
    then obtain s' where s': "sfs_bmap_load_nolock s p blkno = Ok (Inl E_NO_MEM, s')"
        "wrote s s' p (4096 * unat blkno) []" "card (fb s') < 2" "nb s' p = unat blkno" by blast
    have "outcome s s' p (4096 * unat blkno) ?bs (Inl E_NO_MEM) 0" using s'(2-4) lb by (simp add: outcome_def)
    then show ?thesis using s'(1) by (auto simp: io_block_def)
  next
    assume "\<exists>i s1. sfs_bmap_load_nolock s p blkno = Ok (Inr i, s1) \<and> vol_ok s1 \<and> used s1 (unat i) \<and>
      (\<forall>s'. becomes s1 s' (fb s1) ((blk s1)(unat i := splice (blk s1 (unat i)) 0 ?bs)) \<longrightarrow>
        wrote s s' p (4096 * unat blkno) ?bs)"
    then obtain i s1 where i: "sfs_bmap_load_nolock s p blkno = Ok (Inr i, s1)" "vol_ok s1" "used s1 (unat i)"
        and w: "\<And>s'. becomes s1 s' (fb s1) ((blk s1)(unat i := splice (blk s1 (unat i)) 0 ?bs)) \<Longrightarrow>
          wrote s s' p (4096 * unat blkno) ?bs" by blast
    obtain s' where s': "sfs_wblock s1 ?bs i 1 = Ok (Inr (), ?bs, s')" "becomes s1 s' (fb s1) ((blk s1)(unat i := ?bs))"
      using sfs_wblock_ok [OF i(2,3) lb] by blast
    have "splice (blk s1 (unat i)) 0 ?bs = ?bs" using blk_length [OF i(2)] lb by (simp add: splice_all)
    then have "outcome s s' p (4096 * unat blkno) ?bs (Inr ()) (length ?bs)"
      using w s'(2) by (simp add: outcome_Inr)
    moreover have "splice buf pos ?bs = buf" by (rule splice_slice [OF l])
    then have "io_block s p buf pos blkno True = Ok (Inr (), buf, s')" using i(1) s'(1) by (simp add: io_block_def)
    ultimately show ?thesis by blast
  qed
qed

lemma io_loop_write:
  assumes "file_ok s p" and "unat blkno + n \<le> NMAX" and "unat blkno \<le> nb s p" and "unat alen + 4096 * n \<le> length buf"
    and "unat alen + 4096 * n < 2 ^ 32"
  shows "\<exists>r alen' blkno' s' k. io_loop s p buf alen blkno n True = Ok (r, buf, alen', blkno', s') \<and>
    outcome s s' p (4096 * unat blkno) (slice buf (unat alen) (4096 * n)) r k \<and> unat alen' = unat alen + k \<and>
    (r = Inr () \<longrightarrow> blkno' = blkno + of_nat n)"
  using assms
proof (induction n arbitrary: s alen blkno)
  case 0
  have "slice buf (unat alen) 0 = []" by (simp add: slice_def)
  then show ?case using outcome_nil [of s p "4096 * unat blkno"] 0 by auto
next
  case (Suc n)
  have k: "unat blkno < NMAX" and l: "unat alen + 4096 \<le> length buf" using Suc(3,5) by auto
  let ?b1 = "slice buf (unat alen) 4096"
  have lb1: "length ?b1 = 4096" using l by simp
  have split: "slice buf (unat alen) (4096 * Suc n) = ?b1 @ slice buf (unat alen + 4096) (4096 * n)"
    using slice_split [of "unat alen" 4096 "4096 * n" buf] Suc(5) by simp
  obtain r1 s1 k1 where b: "io_block s p buf (unat alen) blkno True = Ok (r1, buf, s1)"
      "outcome s s1 p (4096 * unat blkno) ?b1 r1 k1" "\<forall>e. r1 = Inl e \<longrightarrow> k1 = 0"
    using io_block_write [OF Suc(2) k Suc(4) l] by blast
  show ?case
  proof (cases r1)
    case (Inl e)
    then have "outcome s s1 p (4096 * unat blkno) (slice buf (unat alen) (4096 * Suc n)) (Inl e) 0"
      using b(2,3) outcome_fail unfolding split by blast
    then show ?thesis using b(1) Inl by auto
  next
    case (Inr u)
    then have w: "wrote s s1 p (4096 * unat blkno) ?b1" using b(2) by (simp add: outcome_Inr)
    have f1: "file_ok s1 p" using outcome_file [OF b(2)] .
    have ub: "unat (blkno + 1) = unat blkno + 1" using k by (simp add: unat_add_u32 NMAX_def)
    have ua: "unat (alen + SFS_BLKSIZE) = unat alen + 4096" using Suc(6) by (simp add: unat_add_u32 SFS_BLKSIZE_def)
    have "4096 * unat blkno + 4096 \<le> 4096 * nb s1 p" using wrote_reach [OF Suc(2) w] lb1 by simp
    then obtain r alen' blkno' s' k' where i: "io_loop s1 p buf (alen + SFS_BLKSIZE) (blkno + 1) n True = Ok (r, buf, alen', blkno', s')"
        "outcome s1 s' p (4096 * unat (blkno + 1)) (slice buf (unat (alen + SFS_BLKSIZE)) (4096 * n)) r k'"
        "unat alen' = unat (alen + SFS_BLKSIZE) + k'" "r = Inr () \<longrightarrow> blkno' = blkno + 1 + of_nat n"
      using Suc(1) [OF f1, of "blkno + 1" "alen + SFS_BLKSIZE"] Suc(3,5,6) ub ua by auto
    have "outcome s s' p (4096 * unat blkno) (slice buf (unat alen) (4096 * Suc n)) r (4096 + k')"
      unfolding split using outcome_seq [OF Suc(2) w, of s' _ r k'] i(2) lb1 unfolding ub ua by (simp add: add.commute)
    moreover have "io_loop s p buf alen blkno (Suc n) True = Ok (r, buf, alen', blkno', s')"
      using b(1) Inr i(1) by simp
    ultimately show ?thesis using i(3,4) ua by (auto simp: add.assoc)
  qed
qed

lemma io_rest_write:
  assumes f: "file_ok s p" and o: "unat alen + offs = 4096 * unat blkno" "unat blkno \<le> nb s p"
    and e: "unat blkno + unat nblks = unat endpos div 4096" "unat endpos \<le> 4096 * NMAX" "offs \<le> unat endpos"
    and l: "unat endpos - offs \<le> length buf"
  shows "\<exists>r alen' s' k. io_rest s p buf alen blkno nblks endpos True = Ok (r, buf, alen', s') \<and>
    outcome s s' p (4096 * unat blkno) (slice buf (unat alen) (unat endpos - offs - unat alen)) r k \<and> unat alen' = unat alen + k"
proof -
  define n where "n = unat nblks"
  define m where "m = unat endpos mod 4096"
  have em: "unat endpos = 4096 * (unat blkno + n) + m" unfolding n_def m_def e(1) by (rule mult_div_mod_eq [symmetric])
  have rest: "unat endpos - offs - unat alen = 4096 * n + m" using em o(1) by simp
  have small: "unat endpos < 2 ^ 32" by (rule unat_u32_less)
  have bn: "unat blkno + n \<le> NMAX" using em e(2) by simp
  have le: "unat alen + offs \<le> unat endpos" using em o(1) by simp
  have lb: "unat alen + (4096 * n + m) \<le> length buf" using l rest le by linarith
  have s32: "unat alen + 4096 * n < 2 ^ 32" using small em o(1) by simp
  have l1: "unat alen + 4096 * n \<le> length buf" using lb by simp
  obtain r1 alen1 blkno1 s1 k1 where i: "io_loop s p buf alen blkno n True = Ok (r1, buf, alen1, blkno1, s1)"
      "outcome s s1 p (4096 * unat blkno) (slice buf (unat alen) (4096 * n)) r1 k1" "unat alen1 = unat alen + k1"
      "r1 = Inr () \<longrightarrow> blkno1 = blkno + of_nat n"
    using io_loop_write [OF f bn o(2) l1 s32] by blast
  have split: "slice buf (unat alen) (4096 * n + m) = slice buf (unat alen) (4096 * n) @ slice buf (unat alen + 4096 * n) m"
    using slice_split [of "unat alen" "4096 * n" m buf] lb by (simp add: add.assoc)
  have um: "unat (endpos mod SFS_BLKSIZE) = m" by (simp add: m_def unat_mod SFS_BLKSIZE_def)
  show ?thesis
  proof (cases r1)
    case (Inl er)
    then have "outcome s s1 p (4096 * unat blkno) (slice buf (unat alen) (4096 * n + m)) (Inl er) k1"
      using i(2) outcome_fail unfolding split by blast
    moreover have "io_rest s p buf alen blkno nblks endpos True = Ok (Inl er, buf, alen1, s1)"
      using i(1) Inl by (simp add: io_rest_def n_def)
    ultimately show ?thesis using i(3) unfolding rest by blast
  next
    case (Inr u)
    have w: "wrote s s1 p (4096 * unat blkno) (slice buf (unat alen) (4096 * n))" and k1: "k1 = 4096 * n"
      using i(2) Inr l1 by (auto simp: outcome_Inr)
    have f1: "file_ok s1 p" using outcome_file [OF i(2)] .
    have b1: "unat blkno1 = unat blkno + n"
      using i(4) Inr bn by (simp add: unat_add_u32 unat_of_nat_u32 NMAX_def)
    have reach: "4096 * (unat blkno + n) \<le> 4096 * nb s1 p" using wrote_reach [OF f w] l1 by simp
    show ?thesis
    proof (cases "m = 0")
      case True
      then have "endpos mod SFS_BLKSIZE = 0" using um by (simp add: word_unat_eq_iff)
      then have "io_rest s p buf alen blkno nblks endpos True = Ok (Inr (), buf, alen1, s1)"
        using i(1) Inr by (simp add: io_rest_def n_def)
      moreover have "outcome s s1 p (4096 * unat blkno) (slice buf (unat alen) (4096 * n + m)) (Inr ()) k1"
        using i(2) Inr True by simp
      ultimately show ?thesis using i(3) unfolding rest by blast
    next
      case False
      have lt: "unat blkno1 < NMAX" using em e(2) b1 False by (simp add: NMAX_def)
      have m4: "m < 4096" by (simp add: m_def)
      obtain r2 s2 k2 where j: "io_part s1 p buf (unat alen1) (endpos mod SFS_BLKSIZE) blkno1 0 True = Ok (r2, buf, s2)"
          "outcome s1 s2 p (4096 * unat blkno1) (slice buf (unat alen1) m) r2 k2" "\<forall>e. r2 = Inl e \<longrightarrow> k2 = 0"
        using io_part_write [OF f1 lt, of 0 "endpos mod SFS_BLKSIZE" "unat alen1" buf] um m4 False reach b1 lb i(3) k1
        by auto
      have seq: "outcome s s2 p (4096 * unat blkno) (slice buf (unat alen) (4096 * n + m)) r2 (4096 * n + k2)"
        unfolding split using outcome_seq [OF f w] j(2) l1 b1 i(3) k1 by simp
      have nz: "endpos mod SFS_BLKSIZE \<noteq> 0" using um False by (metis unat_0)
      show ?thesis
      proof (cases r2)
        case (Inl er)
        then have "io_rest s p buf alen blkno nblks endpos True = Ok (Inl er, buf, alen1, s2)"
          using i(1) Inr j(1) nz by (simp add: io_rest_def n_def Let_def)
        then show ?thesis using seq Inl j(3) i(3) k1 unfolding rest by auto
      next
        case (Inr v)
        then have "io_rest s p buf alen blkno nblks endpos True = Ok (Inr (), buf, alen1 + endpos mod SFS_BLKSIZE, s2)"
          using i(1) \<open>r1 = Inr u\<close> j(1) nz by (simp add: io_rest_def n_def Let_def)
        moreover have "k2 = m" using j(2) Inr lb i(3) k1 by (simp add: outcome_Inr)
        moreover have "unat (alen1 + endpos mod SFS_BLKSIZE) = unat alen1 + m"
          using um small em o(1) i(3) k1 by (subst unat_add_u32) auto
        ultimately show ?thesis using seq Inr i(3) k1 unfolding rest by auto
      qed
    qed
  qed
qed

end
