(* ===== verification/Sfs_Read.thy ===== *)
theory Sfs_Read
  imports Sfs_File
begin

text \<open>
  Reading: the parts of \<open>sfs_io_nolock\<close> deliver slices of the bytes of the file and change nothing
  of the volume but the transfer buffers.
\<close>

lemma concat_slice:
  assumes "\<forall>x \<in> set xs. length x = 4096" and "k < length xs" and "off + n \<le> 4096"
  shows "slice (concat xs) (4096 * k + off) n = slice (xs ! k) off n"
  using assms
proof (induction xs arbitrary: k)
  case (Cons x xs)
  show ?case
  proof (cases k)
    case 0
    then show ?thesis using Cons(2,4) by (simp add: slice_def)
  next
    case (Suc j)
    then have "slice (concat xs) (4096 * j + off) n = slice (xs ! j) off n" using Cons by simp
    then show ?thesis using Cons(2) Suc by (simp add: slice_def)
  qed
qed simp

lemma raw_slice:
  assumes f: "file_ok s p" and k: "k < nb s p" and o: "off + n \<le> 4096"
  shows "slice (blk s (unat (bnum (blk s) (din (sins s p)) k))) off n = slice (rawf s p) (4096 * k + off) n"
proof -
  let ?fb = "fblocks (blk s) (din (sins s p))"
  have l: "length ?fb = nb s p" and bk: "?fb ! k = unat (bnum (blk s) (din (sins s p)) k)"
    using k by (simp_all add: fblocks_def nb_def)
  have "slice (concat (map (blk s) ?fb)) (4096 * k + off) n = slice (map (blk s) ?fb ! k) off n"
    by (rule concat_slice) (use f k l o blk_length in \<open>auto simp: file_ok_def\<close>)
  then show ?thesis unfolding rawf_def raw_def using k l bk by simp
qed

definition read_only :: "sfs_fs \<Rightarrow> sfs_fs \<Rightarrow> bool" where
  "read_only s s' \<longleftrightarrow> becomes s s' (fb s) (blk s)"

lemma read_only_trans: "read_only s s1 \<Longrightarrow> read_only s1 s2 \<Longrightarrow> read_only s s2"
  using becomes_trans [of s s1 "fb s" "blk s" s2] by (simp add: read_only_def becomes_def)

lemma read_only_refl: "vol_ok s \<Longrightarrow> read_only s s"
  by (simp add: read_only_def becomes_refl)

lemma read_onlyD:
  assumes "read_only s s'" and "file_ok s p"
  shows "file_ok s' p" "rawf s' p = rawf s p" "nb s' p = nb s p" "sins s' = sins s" "fb s' = fb s" "blk s' = blk s"
    "used s' b = used s b" "vol_ok s'" "vnodes s' = vnodes s"
  using assms becomesD [of s s' "fb s" "blk s"] becomes_used [of s s' "blk s" b]
  by (auto simp: read_only_def file_ok_def rawf_def nb_def)

lemma load_read:
  assumes f: "file_ok s p" and k: "unat blkno < nb s p"
  shows "\<exists>s1. sfs_bmap_load_nolock s p blkno = Ok (Inr (bnum (blk s) (din (sins s p)) (unat blkno)), s1) \<and> read_only s s1 \<and>
    used s1 (unat (bnum (blk s) (din (sins s p)) (unat blkno)))"
proof -
  obtain s1 where s1: "sfs_bmap_load_nolock s p blkno = Ok (Inr (bnum (blk s) (din (sins s p)) (unat blkno)), s1)" "read_only s s1"
    using bmap_load_present [OF f k [unfolded nb_def]] by (auto simp: read_only_def)
  then show ?thesis using bnum_used [OF f k [unfolded nb_def]] read_onlyD(7) [OF s1(2) f] by auto
qed

lemma io_part_read:
  assumes f: "file_ok s p" and k: "unat blkno < nb s p" and l: "unat off < 4096" "unat off + unat sz \<le> 4096"
  shows "\<exists>s'. io_part s p buf pos sz blkno off False =
      Ok (Inr (), splice buf pos (slice (rawf s p) (4096 * unat blkno + unat off) (unat sz)), s') \<and> read_only s s'"
proof -
  let ?i = "bnum (blk s) (din (sins s p)) (unat blkno)"
  obtain s1 where s1: "sfs_bmap_load_nolock s p blkno = Ok (Inr ?i, s1)" "read_only s s1" "used s1 (unat ?i)"
    using load_read [OF f k] by blast
  note D = read_onlyD [OF s1(2) f]
  obtain s2 where s2: "sfs_rbuf s1 sz ?i off = Ok (Inr (slice (blk s (unat ?i)) (unat off) (unat sz)), s2)" "read_only s1 s2"
    using sfs_rbuf_ok [OF D(8) s1(3) l(2,1)] D(6) by (auto simp: read_only_def)
  show ?thesis using s1(1) s2(1) raw_slice [OF f k l(2)] read_only_trans [OF s1(2) s2(2)] by (auto simp: io_part_def)
qed

lemma io_block_read:
  assumes f: "file_ok s p" and k: "unat blkno < nb s p" and l: "pos + 4096 \<le> length buf"
  shows "\<exists>s'. io_block s p buf pos blkno False = Ok (Inr (), splice buf pos (slice (rawf s p) (4096 * unat blkno) 4096), s') \<and>
    read_only s s'"
proof -
  let ?i = "bnum (blk s) (din (sins s p)) (unat blkno)"
  obtain s1 where s1: "sfs_bmap_load_nolock s p blkno = Ok (Inr ?i, s1)" "read_only s s1" "used s1 (unat ?i)"
    using load_read [OF f k] by blast
  note D = read_onlyD [OF s1(2) f]
  obtain s2 where s2: "sfs_rblock s1 (slice buf pos 4096) ?i 1 = Ok (Inr (), blk s (unat ?i), s2)" "read_only s1 s2"
    using sfs_rblock_ok [OF D(8) s1(3), of "slice buf pos 4096"] D(6) l by (auto simp: read_only_def)
  have "blk s (unat ?i) = slice (rawf s p) (4096 * unat blkno) 4096"
    using raw_slice [OF f k, of 0 4096] f blk_length [of s] by (simp add: slice_all file_ok_def)
  then show ?thesis using s1(1) s2(1) read_only_trans [OF s1(2) s2(2)] by (auto simp: io_block_def)
qed

lemma io_loop_read:
  assumes "file_ok s p" and "unat blkno + n \<le> nb s p" and "unat alen + 4096 * n \<le> length buf" and "unat alen + 4096 * n < 2 ^ 32"
  shows "\<exists>alen' blkno' s'. io_loop s p buf alen blkno n False =
      Ok (Inr (), splice buf (unat alen) (slice (rawf s p) (4096 * unat blkno) (4096 * n)), alen', blkno', s') \<and> read_only s s' \<and>
    unat alen' = unat alen + 4096 * n \<and> unat blkno' = unat blkno + n"
  using assms
proof (induction n arbitrary: s buf alen blkno)
  case 0
  then show ?case by (simp add: slice_def read_only_refl file_ok_def)
next
  case (Suc n)
  have k: "unat blkno < nb s p" and l: "unat alen + 4096 \<le> length buf" using Suc(3,4) by auto
  let ?x = "slice (rawf s p) (4096 * unat blkno) 4096"
  have lr: "length (rawf s p) = 4096 * nb s p" by (rule length_rawf [OF Suc(2)])
  have lx: "length ?x = 4096" using lr k by simp
  obtain s1 where b: "io_block s p buf (unat alen) blkno False = Ok (Inr (), splice buf (unat alen) ?x, s1)" "read_only s s1"
    using io_block_read [OF Suc(2) k l] by blast
  note D = read_onlyD [OF b(2) Suc(2)]
  have "nb s p \<le> NMAX" using Suc(2) by (simp add: file_ok_def inode_ok_def nb_def)
  then have ub: "unat (blkno + 1) = unat blkno + 1" using k by (simp add: unat_add_u32 NMAX_def)
  have ua: "unat (alen + SFS_BLKSIZE) = unat alen + 4096" using Suc(5) by (simp add: unat_add_u32 SFS_BLKSIZE_def)
  let ?y = "slice (rawf s p) (4096 * unat blkno + 4096) (4096 * n)"
  have ly: "length ?y = 4096 * n" using lr Suc(3) by simp
  obtain alen' blkno' s' where i: "io_loop s1 p (splice buf (unat alen) ?x) (alen + SFS_BLKSIZE) (blkno + 1) n False =
      Ok (Inr (), splice (splice buf (unat alen) ?x) (unat alen + 4096) ?y, alen', blkno', s')" "read_only s1 s'"
      "unat alen' = unat alen + 4096 + 4096 * n" "unat blkno' = unat blkno + 1 + n"
    using Suc(1) [OF D(1), of "blkno + 1" "alen + SFS_BLKSIZE" "splice buf (unat alen) ?x"] Suc(3-5) lx l ub ua D(2,3)
    by (auto simp: add.commute)
  have xy: "slice (rawf s p) (4096 * unat blkno) (4096 * Suc n) = ?x @ ?y"
    using slice_split [of "4096 * unat blkno" 4096 "4096 * n" "rawf s p"] lr Suc(3) by simp
  have le: "unat alen + length (?x @ ?y) \<le> length buf" using lx ly Suc(4) by simp
  have "splice (splice buf (unat alen) ?x) (unat alen + 4096) ?y = splice buf (unat alen) (slice (rawf s p) (4096 * unat blkno) (4096 * Suc n))"
    unfolding xy using splice_app [OF le] unfolding lx .
  then show ?case using b(1) i read_only_trans [OF b(2) i(2)] by auto
qed

lemma io_rest_read:
  assumes f: "file_ok s p" and o: "unat alen + offs = 4096 * unat blkno" and e: "unat blkno + unat nblks = unat endpos div 4096"
    "unat endpos \<le> 4096 * nb s p" and l: "unat endpos - offs \<le> length buf"
  shows "\<exists>alen' s'. io_rest s p buf alen blkno nblks endpos False =
      Ok (Inr (), splice buf (unat alen) (slice (rawf s p) (4096 * unat blkno) (unat endpos - offs - unat alen)), alen', s') \<and>
    read_only s s' \<and> unat alen' = unat endpos - offs"
proof -
  define n where "n = unat nblks"
  define m where "m = unat endpos mod 4096"
  have em: "unat endpos = 4096 * (unat blkno + n) + m" unfolding n_def m_def e(1) by (rule mult_div_mod_eq [symmetric])
  have rest: "unat endpos - offs - unat alen = 4096 * n + m" using em o by simp
  have le: "unat alen + offs \<le> unat endpos" using em o by simp
  have fin: "unat alen + (4096 * n + m) = unat endpos - offs" using rest le by linarith
  then have lb: "unat alen + (4096 * n + m) \<le> length buf" using l by simp
  have small: "unat endpos < 2 ^ 32" by (rule unat_u32_less)
  have s32: "unat alen + 4096 * n < 2 ^ 32" using small em o by simp
  have l1: "unat alen + 4096 * n \<le> length buf" using lb by simp
  have bn: "unat blkno + n \<le> nb s p" using em e(2) by simp
  have lr: "length (rawf s p) = 4096 * nb s p" by (rule length_rawf [OF f])
  let ?x = "slice (rawf s p) (4096 * unat blkno) (4096 * n)"
  have lx: "length ?x = 4096 * n" using lr bn by simp
  obtain alen1 blkno1 s1 where i: "io_loop s p buf alen blkno n False = Ok (Inr (), splice buf (unat alen) ?x, alen1, blkno1, s1)"
      "read_only s s1" "unat alen1 = unat alen + 4096 * n" "unat blkno1 = unat blkno + n"
    using io_loop_read [OF f bn l1 s32] by blast
  note D = read_onlyD [OF i(2) f]
  have um: "unat (endpos mod SFS_BLKSIZE) = m" by (simp add: m_def unat_mod SFS_BLKSIZE_def)
  show ?thesis
  proof (cases "m = 0")
    case True
    then have "endpos mod SFS_BLKSIZE = 0" using um by (simp add: word_unat_eq_iff)
    then have "io_rest s p buf alen blkno nblks endpos False = Ok (Inr (), splice buf (unat alen) ?x, alen1, s1)"
      using i(1) by (simp add: io_rest_def n_def)
    then show ?thesis using i(2,3) True fin unfolding rest by auto
  next
    case False
    have lt: "unat blkno1 < nb s1 p" using em e(2) i(4) False D(3) by simp
    have m4: "m < 4096" by (simp add: m_def)
    let ?y = "slice (rawf s p) (4096 * unat blkno + 4096 * n) m"
    obtain s2 where j: "io_part s1 p (splice buf (unat alen) ?x) (unat alen1) (endpos mod SFS_BLKSIZE) blkno1 0 False =
        Ok (Inr (), splice (splice buf (unat alen) ?x) (unat alen1) ?y, s2)" "read_only s1 s2"
      using io_part_read [OF D(1) lt, of 0 "endpos mod SFS_BLKSIZE"] um m4 i(4) D(2) by (auto simp: distrib_left)
    have ly: "length ?y = m" using lr em e(2) by (simp add: distrib_left)
    have xy: "slice (rawf s p) (4096 * unat blkno) (4096 * n + m) = ?x @ ?y"
      by (rule slice_split) (use lr em e(2) in \<open>simp add: distrib_left\<close>)
    have lxy: "unat alen + length (?x @ ?y) \<le> length buf" using lx ly lb by simp
    have sp: "splice (splice buf (unat alen) ?x) (unat alen1) ?y = splice buf (unat alen) (slice (rawf s p) (4096 * unat blkno) (4096 * n + m))"
      unfolding xy using splice_app [OF lxy] unfolding lx i(3) .
    have nz: "endpos mod SFS_BLKSIZE \<noteq> 0" using um False by (metis unat_0)
    have "io_rest s p buf alen blkno nblks endpos False =
        Ok (Inr (), splice (splice buf (unat alen) ?x) (unat alen1) ?y, alen1 + endpos mod SFS_BLKSIZE, s2)"
      using i(1) j(1) nz by (simp add: io_rest_def n_def Let_def)
    moreover have "unat (alen1 + endpos mod SFS_BLKSIZE) = unat endpos - offs"
      using um small em o i(3) by (subst unat_add_u32) auto
    ultimately show ?thesis using read_only_trans [OF i(2) j(2)] unfolding rest sp by blast
  qed
qed

end
