(* ===== verification/Sfs_Write.thy ===== *)
theory Sfs_Write
  imports Sfs_Read
begin

text \<open>
  \<open>sfs_io_nolock\<close> as a whole: a write replaces or appends bytes of the file, a read delivers them.
\<close>

section \<open>The range of a transfer\<close>

lemma range_numbers:
  assumes "unat offset < unat endpos"
  shows "unat (offset div SFS_BLKSIZE) = unat offset div 4096" and "unat (offset mod SFS_BLKSIZE) = unat offset mod 4096"
    and "unat (endpos div SFS_BLKSIZE - offset div SFS_BLKSIZE) = unat endpos div 4096 - unat offset div 4096"
    and "unat (endpos - offset) = unat endpos - unat offset"
    and "unat (SFS_BLKSIZE - offset mod SFS_BLKSIZE) = 4096 - unat offset mod 4096"
proof -
  show a: "unat (offset div SFS_BLKSIZE) = unat offset div 4096" by (simp add: unat_div SFS_BLKSIZE_def)
  show b: "unat (offset mod SFS_BLKSIZE) = unat offset mod 4096" by (simp add: unat_mod SFS_BLKSIZE_def)
  have e: "unat (endpos div SFS_BLKSIZE) = unat endpos div 4096" by (simp add: unat_div SFS_BLKSIZE_def)
  have "offset div SFS_BLKSIZE \<le> endpos div SFS_BLKSIZE"
    unfolding word_le_nat_alt a e using assms by (simp add: div_le_mono)
  then show "unat (endpos div SFS_BLKSIZE - offset div SFS_BLKSIZE) = unat endpos div 4096 - unat offset div 4096"
    by (simp add: unat_sub a e)
  show "unat (endpos - offset) = unat endpos - unat offset" using assms by (simp add: unat_sub word_le_nat_alt)
  have "offset mod SFS_BLKSIZE \<le> SFS_BLKSIZE" unfolding word_le_nat_alt b by (simp add: SFS_BLKSIZE_def less_imp_le)
  then show "unat (SFS_BLKSIZE - offset mod SFS_BLKSIZE) = 4096 - unat offset mod 4096"
    by (simp only: unat_sub b) (simp add: SFS_BLKSIZE_def)
qed

text \<open>The first, partial block: where it lies and what remains behind it.\<close>

definition first_size :: "u32 \<Rightarrow> u32 \<Rightarrow> u32" where
  "first_size offset endpos =
     (if endpos div SFS_BLKSIZE - offset div SFS_BLKSIZE \<noteq> 0 then SFS_BLKSIZE - offset mod SFS_BLKSIZE else endpos - offset)"

lemma first_part:
  assumes lt: "unat offset < unat endpos" and N: "unat endpos \<le> 4096 * NMAX"
    and b: "blkno = offset div SFS_BLKSIZE" and n: "nblks = endpos div SFS_BLKSIZE - blkno" and sz: "sz = first_size offset endpos"
  shows "4096 * unat blkno + unat (offset mod SFS_BLKSIZE) = unat offset" and "unat (offset mod SFS_BLKSIZE) < 4096"
    and "unat (offset mod SFS_BLKSIZE) + unat sz \<le> 4096" and "0 < unat sz" and "unat sz \<le> unat endpos - unat offset"
    and "nblks = 0 \<Longrightarrow> unat sz = unat endpos - unat offset"
    and "nblks \<noteq> 0 \<Longrightarrow> unat sz + unat offset = 4096 * unat (blkno + 1)"
    and "nblks \<noteq> 0 \<Longrightarrow> unat (blkno + 1) + unat (nblks - 1) = unat endpos div 4096"
    and "unat blkno + unat nblks = unat endpos div 4096" and "unat blkno < NMAX"
proof -
  define q where "q = unat offset div 4096"
  define m where "m = unat offset mod 4096"
  note R = range_numbers [OF lt, folded b, folded n q_def m_def]
  have om: "unat offset = 4096 * q + m" "m < 4096" by (simp_all add: q_def m_def)
  have qe: "q \<le> unat endpos div 4096" unfolding q_def using lt by (intro div_le_mono) simp
  show qN: "unat blkno < NMAX" using om lt N R(1) by simp
  have nb0: "nblks = 0 \<longleftrightarrow> unat endpos div 4096 = q" using R(3) qe by (auto simp: word_unat_eq_iff)
  have szn: "unat sz = (if nblks \<noteq> 0 then 4096 - m else unat endpos - unat offset)"
    using R(4,5) n b by (simp add: sz first_size_def)
  show "4096 * unat blkno + unat (offset mod SFS_BLKSIZE) = unat offset" "unat (offset mod SFS_BLKSIZE) < 4096"
    using R(1,2) om by simp_all
  have em: "unat endpos = 4096 * (unat endpos div 4096) + unat endpos mod 4096" by simp
  have "nblks \<noteq> 0 \<Longrightarrow> 4096 * (q + 1) \<le> unat endpos" using nb0 qe em by simp
  moreover have "nblks = 0 \<Longrightarrow> unat endpos < 4096 * q + 4096" using nb0 em by (simp add: algebra_simps)
  ultimately show "unat (offset mod SFS_BLKSIZE) + unat sz \<le> 4096" "0 < unat sz" "unat sz \<le> unat endpos - unat offset"
    using szn om lt R(2) by (auto split: if_splits)
  show "nblks = 0 \<Longrightarrow> unat sz = unat endpos - unat offset" using szn by simp
  have ub: "unat (blkno + 1) = q + 1" using R(1) qN by (simp add: unat_add_u32 NMAX_def)
  show "nblks \<noteq> 0 \<Longrightarrow> unat sz + unat offset = 4096 * unat (blkno + 1)" using szn om ub by simp
  show sum: "unat blkno + unat nblks = unat endpos div 4096" using R(1,3) qe by simp
  show "unat (blkno + 1) + unat (nblks - 1) = unat endpos div 4096" if "nblks \<noteq> 0"
  proof -
    have "0 < unat nblks" "unat (nblks - 1) = unat nblks - 1" using that by (simp_all add: unat_gt_0 unat_minus_one)
    then show ?thesis using ub sum R(1) by simp
  qed
qed

lemma io_body_parts:
  assumes "blkno = offset div SFS_BLKSIZE" and "nblks = endpos div SFS_BLKSIZE - blkno" and "sz = first_size offset endpos"
  shows "offset mod SFS_BLKSIZE = 0 \<Longrightarrow> io_body s p buf offset endpos wr = io_rest s p buf 0 blkno nblks endpos wr"
    and "offset mod SFS_BLKSIZE \<noteq> 0 \<Longrightarrow> io_body s p buf offset endpos wr =
      res_bind (io_part s p buf 0 sz blkno (offset mod SFS_BLKSIZE) wr) (\<lambda>(r, buf1, s1).
      case r of Inl e \<Rightarrow> Ok (Inl e, buf1, 0, s1)
      | Inr _ \<Rightarrow> if nblks = 0 then Ok (Inr (), buf1, sz, s1) else io_rest s1 p buf1 sz (blkno + 1) (nblks - 1) endpos wr)"
  unfolding io_body_def first_size_def [symmetric] Let_def assms by simp_all

lemma slice_front: "n \<le> m \<Longrightarrow> m \<le> length xs \<Longrightarrow> slice xs 0 m = slice xs 0 n @ slice xs n (m - n)"
  using slice_split [of 0 n "m - n" xs] by simp

section \<open>Writing\<close>

lemma io_body_write:
  assumes f: "file_ok s p" and o: "unat offset \<le> 4096 * nb s p" and e: "unat offset < unat endpos" "unat endpos \<le> 4096 * NMAX"
    and l: "unat endpos - unat offset \<le> length buf"
  shows "\<exists>r alen s'. io_body s p buf offset endpos True = Ok (r, buf, alen, s') \<and>
    outcome s s' p (unat offset) (slice buf 0 (unat endpos - unat offset)) r (unat alen)"
proof -
  define blkno where "blkno = offset div SFS_BLKSIZE"
  define nblks where "nblks = endpos div SFS_BLKSIZE - blkno"
  define sz where "sz = first_size offset endpos"
  note P = first_part [OF e blkno_def nblks_def sz_def] and B = io_body_parts [OF blkno_def nblks_def sz_def]
  note le = less_imp_le [OF e(1)]
  show ?thesis
  proof (cases "offset mod SFS_BLKSIZE = 0")
    case True
    then have a: "unat (0 :: u32) + unat offset = 4096 * unat blkno" and "unat blkno \<le> nb s p" using P(1) o by simp_all
    then show ?thesis using io_rest_write [OF f a _ P(9) e(2) le l] B(1) [OF True] by auto
  next
    case False
    let ?b1 = "slice buf 0 (unat sz)"
    have lsz: "length ?b1 = unat sz" "0 + unat sz \<le> length buf" using P(5) l by simp_all
    have at: "4096 * unat blkno + unat (offset mod SFS_BLKSIZE) \<le> 4096 * nb s p" using P(1) o by simp
    obtain r1 s1 k1 where i: "io_part s p buf 0 sz blkno (offset mod SFS_BLKSIZE) True = Ok (r1, buf, s1)"
        "outcome s s1 p (unat offset) ?b1 r1 k1" "\<forall>e. r1 = Inl e \<longrightarrow> k1 = 0"
      using io_part_write [OF f P(10) at P(2,3,4) lsz(2)] unfolding P(1) by blast
    note split = slice_front [OF P(5) l]
    show ?thesis
    proof (cases r1)
      case (Inl er)
      then have "outcome s s1 p (unat offset) (slice buf 0 (unat endpos - unat offset)) (Inl er) (unat (0 :: u32))"
        using i(2,3) outcome_fail unfolding split by auto
      then show ?thesis using i(1) Inl B(2) [OF False] by auto
    next
      case (Inr u)
      have w: "wrote s s1 p (unat offset) ?b1" "k1 = unat sz" using i(2) Inr lsz by (auto simp: outcome_Inr)
      show ?thesis
      proof (cases "nblks = 0")
        case True
        then show ?thesis using i(1,2) Inr w(2) B(2) [OF False] P(6) by auto
      next
        case nz: False
        note f1 = outcome_file [OF i(2)]
        have n1: "unat (blkno + 1) \<le> nb s1 p" using wrote_reach [OF f w(1)] lsz P(7) [OF nz] by simp
        obtain r alen s' k where j: "io_rest s1 p buf sz (blkno + 1) (nblks - 1) endpos True = Ok (r, buf, alen, s')"
            "outcome s1 s' p (4096 * unat (blkno + 1)) (slice buf (unat sz) (unat endpos - unat offset - unat sz)) r k"
            "unat alen = unat sz + k"
          using io_rest_write [OF f1 P(7) [OF nz] n1 P(8) [OF nz] e(2) le l] by blast
        have "4096 * unat (blkno + 1) = unat offset + length ?b1" using P(7) [OF nz] lsz by simp
        then have "outcome s s' p (unat offset) (slice buf 0 (unat endpos - unat offset)) r (unat alen)"
          unfolding split using outcome_seq [OF f w(1), of s' _ r k] j(2,3) lsz by simp
        then show ?thesis using i(1) Inr nz B(2) [OF False] j(1) by auto
      qed
    qed
  qed
qed

section \<open>Reading\<close>

lemma io_body_read:
  assumes f: "file_ok s p" and e: "unat offset < unat endpos" "unat endpos \<le> 4096 * nb s p"
    and l: "unat endpos - unat offset \<le> length buf"
  shows "\<exists>alen s'. io_body s p buf offset endpos False =
      Ok (Inr (), splice buf 0 (slice (rawf s p) (unat offset) (unat endpos - unat offset)), alen, s') \<and>
    read_only s s' \<and> unat alen = unat endpos - unat offset"
proof -
  define blkno where "blkno = offset div SFS_BLKSIZE"
  define nblks where "nblks = endpos div SFS_BLKSIZE - blkno"
  define sz where "sz = first_size offset endpos"
  have "nb s p \<le> NMAX" using f by (simp add: file_ok_def inode_ok_def nb_def)
  then have N: "unat endpos \<le> 4096 * NMAX" using e(2) by simp
  note P = first_part [OF e(1) N blkno_def nblks_def sz_def] and B = io_body_parts [OF blkno_def nblks_def sz_def]
  have lr: "length (rawf s p) = 4096 * nb s p" by (rule length_rawf [OF f])
  show ?thesis
  proof (cases "offset mod SFS_BLKSIZE = 0")
    case True
    then have a: "unat (0 :: u32) + unat offset = 4096 * unat blkno" using P(1) by simp
    show ?thesis using io_rest_read [OF f a P(9) e(2) l] B(1) [OF True] a by auto
  next
    case False
    have at: "unat blkno < nb s p" using P(1) e by simp
    let ?x = "slice (rawf s p) (unat offset) (unat sz)"
    have lx: "length ?x = unat sz" using lr P(5) e by simp
    obtain s1 where i: "io_part s p buf 0 sz blkno (offset mod SFS_BLKSIZE) False = Ok (Inr (), splice buf 0 ?x, s1)" "read_only s s1"
      using io_part_read [OF f at P(2,3)] unfolding P(1) by blast
    note D = read_onlyD [OF i(2) f]
    show ?thesis
    proof (cases "nblks = 0")
      case True
      then show ?thesis using i B(2) [OF False] P(6) by auto
    next
      case nz: False
      let ?n = "unat endpos - unat offset - unat sz"
      let ?y = "slice (rawf s p) (unat offset + unat sz) ?n"
      have lb: "unat endpos - unat offset \<le> length (splice buf 0 ?x)" using l lx P(5) by simp
      have e1: "unat endpos \<le> 4096 * nb s1 p" using e(2) D(3) by simp
      have pos: "4096 * unat (blkno + 1) = unat offset + unat sz" using P(7) [OF nz] by simp
      obtain alen s' where j: "io_rest s1 p (splice buf 0 ?x) sz (blkno + 1) (nblks - 1) endpos False =
          Ok (Inr (), splice (splice buf 0 ?x) (unat sz) ?y, alen, s')" "read_only s1 s'" "unat alen = unat endpos - unat offset"
        using io_rest_read [OF D(1) P(7) [OF nz] P(8) [OF nz] e1 lb] unfolding pos D(2) by blast
      have xy: "slice (rawf s p) (unat offset) (unat endpos - unat offset) = ?x @ ?y"
        using slice_split [of "unat offset" "unat sz" ?n "rawf s p"] lr e P(5) by simp
      have ly: "length ?y = ?n" using lr e P(5) by simp
      have lxy: "0 + length (?x @ ?y) \<le> length buf" using lx ly l P(5) by simp
      have "splice (splice buf 0 ?x) (unat sz) ?y = splice buf 0 (slice (rawf s p) (unat offset) (unat endpos - unat offset))"
        unfolding xy using splice_app [OF lxy] unfolding lx add_0 .
      then show ?thesis using i(1) nz B(2) [OF False] j read_only_trans [OF i(2) j(2)] by auto
    qed
  qed
qed

section \<open>Files as byte sequences\<close>

definition regular :: "sfs_fs \<Rightarrow> nat \<Rightarrow> bool" where
  "regular s p \<longleftrightarrow> file_ok s p \<and> din_type (din (sins s p)) \<noteq> SFS_TYPE_DIR \<and> unat (din_size (din (sins s p))) \<le> 4096 * nb s p"

definition content :: "sfs_fs \<Rightarrow> nat \<Rightarrow> u8 list" where
  "content s p = take (unat (din_size (din (sins s p)))) (rawf s p)"

lemma regular_max: "regular s p \<Longrightarrow> unat (din_size (din (sins s p))) \<le> 4096 * NMAX"
proof -
  assume r: "regular s p"
  then have "nb s p \<le> NMAX" by (simp add: regular_def file_ok_def inode_ok_def nb_def)
  then have "4096 * nb s p \<le> 4096 * NMAX" by simp
  then show ?thesis using r unfolding regular_def by linarith
qed

lemma content_length: "regular s p \<Longrightarrow> length (content s p) = unat (din_size (din (sins s p)))"
  by (simp add: regular_def content_def length_rawf)

text \<open>Writing at most at the end of the file replaces bytes and appends the others.\<close>

lemma take_put:
  assumes "off \<le> n" and "n \<le> length r"
  shows "take (max n (off + length bs)) (put r off bs) = splice (take n r) off bs"
proof (rule nth_equalityI)
  have len: "max n (off + length bs) \<le> max (length r) (up4 (off + length bs))"
    using assms up4_ge [of "off + length bs"] by (simp add: max.coboundedI1 max.coboundedI2)
  have ls: "length (splice (take n r) off bs) = max n (off + length bs)"
    using assms by (simp add: splice_def)
  then show "length (take (max n (off + length bs)) (put r off bs)) = length (splice (take n r) off bs)"
    using len by (simp add: length_put)
  fix i
  assume "i < length (take (max n (off + length bs)) (put r off bs))"
  then have i: "i < max n (off + length bs)" by simp
  then have "put r off bs ! i = (if off \<le> i \<and> i < off + length bs then bs ! (i - off) else if i < length r then r ! i else 0)"
    using len by (intro nth_put) (rule less_le_trans)
  moreover have "splice (take n r) off bs ! i = (if off \<le> i \<and> i < off + length bs then bs ! (i - off) else r ! i)"
    using assms i by (auto simp: splice_def nth_append)
  ultimately show "take (max n (off + length bs)) (put r off bs) ! i = splice (take n r) off bs ! i"
    using i assms by auto
qed

lemma small_offset:
  assumes "unat offset + unat len \<le> 4096 * NMAX"
  shows "\<not> sint offset < 0" and "\<not> SFS_MAX_FILE_SIZE \<le> offset" and "unat (offset + len) = unat offset + unat len"
    and "\<not> sint (offset + len) < sint offset" and "\<not> SFS_MAX_FILE_SIZE < offset + len"
proof -
  have b: "unat offset + unat len \<le> 4243456" using assms by (simp add: NMAX_def)
  show u: "unat (offset + len) = unat offset + unat len" using b by (simp add: unat_add_u32)
  have s1: "sint offset = int (unat offset)" "sint (offset + len) = int (unat offset + unat len)"
    using sint_small [of offset] sint_small [of "offset + len"] b u by simp_all
  show "\<not> sint offset < 0" "\<not> sint (offset + len) < sint offset" unfolding s1 by linarith+
  have M: "unat SFS_MAX_FILE_SIZE = 134217728" by (simp add: SFS_MAX_FILE_SIZE_def)
  show "\<not> SFS_MAX_FILE_SIZE \<le> offset" "\<not> SFS_MAX_FILE_SIZE < offset + len"
    unfolding word_le_nat_alt word_less_nat_alt M u using b by linarith+
qed

text \<open>Setting the size and the dirty flag of an inode leaves its blocks alone.\<close>

definition resize :: "sfs_fs \<Rightarrow> nat \<Rightarrow> u32 \<Rightarrow> sfs_fs" where
  "resize s p n = upd_sin (upd_din s p (\<lambda>d. d\<lparr>din_size := n\<rparr>)) p (set_dirty True)"

lemma resize_keeps:
  shows "file_ok (resize s p n) p = file_ok s p" "rawf (resize s p n) p = rawf s p" "nb (resize s p n) p = nb s p"
    "own (resize s p n) p = own s p" "din_size (din (sins (resize s p n) p)) = n" "fb (resize s p n) = fb s"
    "din_type (din (sins (resize s p n) p)) = din_type (din (sins s p))"
    "evolve s0 s p \<Longrightarrow> evolve s0 (resize s p n) p"
proof -
  let ?d = "din (sins s p)" and ?d' = "din (sins (resize s p n) p)"
  have d: "bnum B ?d' = bnum B ?d" "din_blocks ?d' = din_blocks ?d" "din_indirect ?d' = din_indirect ?d"
      "length (din_direct ?d') = length (din_direct ?d)" for B
    by (auto simp: resize_def bnum_def fun_eq_iff)
  have b: "blk (resize s p n) = blk s" "vol_ok (resize s p n) = vol_ok s" "super (resize s p n) = super s"
    by (simp_all add: resize_def)
  show fb: "fb (resize s p n) = fb s" by (simp add: resize_def)
  show fo: "file_ok (resize s p n) p = file_ok s p" by (simp add: file_ok_def inode_ok_def d b fb)
  show "rawf (resize s p n) p = rawf s p" "nb (resize s p n) p = nb s p"
    by (simp_all add: rawf_def raw_def fblocks_def nb_def d b)
  show ow: "own (resize s p n) p = own s p" by (simp add: own_def Let_def fblocks_def d b)
  show "din_size ?d' = n" "din_type ?d' = din_type ?d" by (simp_all add: resize_def)
  show "evolve s0 s p \<Longrightarrow> evolve s0 (resize s p n) p"
    unfolding evolve_def fo ow b by (auto simp: same_but_def resize_def)
qed

lemma sfs_io_write:
  assumes g: "regular s p" and o: "unat offset \<le> unat (din_size (din (sins s p)))"
    and m: "unat offset + unat len \<le> 4096 * NMAX" and l: "unat len \<le> length buf"
  shows "\<exists>r alen s'. sfs_io_nolock s p buf offset len True = Ok (r, buf, alen, s') \<and> regular s' p \<and> evolve s s' p \<and>
    content s' p = splice (content s p) (unat offset) (take (unat alen) buf) \<and>
    (r = Inr () \<and> alen = len \<or> r = Inl E_NO_MEM \<and> alen < len) \<and>
    (2 * ((unat offset + unat len + 4095) div 4096 - nb s p) \<le> card (fb s) \<longrightarrow> r = Inr ())"
proof (cases "len = 0")
  case True
  have f: "file_ok s p" using g by (simp add: regular_def)
  have "evolve s s p" using f by (simp add: evolve_def same_but_def)
  then show ?thesis using g True small_offset [OF m] by (auto simp: sfs_io_nolock_def regular_def splice_def)
next
  case False
  have f: "file_ok s p" and ty: "din_type (din (sins s p)) \<noteq> SFS_TYPE_DIR" and sz: "unat (din_size (din (sins s p))) \<le> 4096 * nb s p"
    using g by (auto simp: regular_def)
  note S = small_offset [OF m]
  have lp: "0 < unat len" using False by (simp add: unat_gt_0)
  have e: "unat offset < unat (offset + len)" "unat (offset + len) \<le> 4096 * NMAX" using S(3) lp m by simp_all
  have diff: "unat (offset + len) - unat offset = unat len" using S(3) by simp
  obtain r alen s1 where b: "io_body s p buf offset (offset + len) True = Ok (r, buf, alen, s1)"
      "outcome s s1 p (unat offset) (slice buf 0 (unat len)) r (unat alen)"
    using io_body_write [OF f _ e, of buf] o sz l unfolding diff by auto
  have lb: "length (slice buf 0 (unat len)) = unat len" using l by simp
  have al: "unat alen \<le> unat len" using b(2) lb by (auto simp: outcome_def)
  have tk: "take (unat alen) (slice buf 0 (unat len)) = take (unat alen) buf" using al by (simp add: slice_def min_def)
  have lt: "length (take (unat alen) buf) = unat alen" using al l by simp
  have w: "wrote s s1 p (unat offset) (take (unat alen) buf)" using b(2) unfolding outcome_def tk by simp
  have uo: "unat (offset + alen) = unat offset + unat alen" using al m by (simp add: unat_add_u32 NMAX_def)
  define s' where "s' = (if din_size (din (sins s1 p)) < offset + alen
      then resize s1 p (offset + alen) else s1)"
  have run: "sfs_io_nolock s p buf offset len True = Ok (r, buf, alen, s')"
    using ty S b(1) False by (simp add: sfs_io_nolock_def Let_def s'_def resize_def)
  have W: "evolve s s1 p" "rawf s1 p = put (rawf s p) (unat offset) (take (unat alen) buf)"
      "din_size (din (sins s1 p)) = din_size (din (sins s p))" "card (fb s) \<le> card (fb s1) + 2 * (nb s1 p - nb s p)"
    using w by (auto simp: wrote_def)
  have n': "unat (din_size (din (sins s' p))) = max (unat (din_size (din (sins s p)))) (unat offset + unat alen)"
    using W(3) uo by (auto simp: s'_def word_less_nat_alt resize_keeps)
  have raw': "rawf s' p = rawf s1 p" "nb s' p = nb s1 p" by (auto simp: s'_def resize_keeps)
  have ev: "evolve s s' p" using W(1) by (auto simp: s'_def resize_keeps)
  have fk: "file_ok s' p" using ev by (simp add: evolve_def)
  have reach: "unat offset + unat alen \<le> 4096 * nb s' p" using wrote_reach [OF f w] lt raw'(2) by simp
  have "nb s p \<le> nb s1 p" using wrote_nb [OF f w] by simp
  then have rg: "regular s' p" using fk ev ty n' reach sz raw'(2) by (auto simp: regular_def evolve_def same_but_def)
  have ct: "content s' p = splice (content s p) (unat offset) (take (unat alen) buf)"
    unfolding content_def n' raw' W(2) using take_put [OF o, of "rawf s p" "take (unat alen) buf"] sz length_rawf [OF f] lt by simp
  have fin: "r = Inr () \<and> alen = len \<or> r = Inl E_NO_MEM \<and> alen < len \<and> card (fb s1) < 2 \<and> 4096 * nb s1 p < unat offset + unat len"
    using b(2) lb by (auto simp: outcome_def word_less_nat_alt word_unat_eq_iff)
  have "r = Inr ()" if space: "2 * ((unat offset + unat len + 4095) div 4096 - nb s p) \<le> card (fb s)"
  proof (rule ccontr)
    assume "r \<noteq> Inr ()"
    then have c: "card (fb s1) < 2" "4096 * nb s1 p < unat offset + unat len" using fin by auto
    then have "nb s1 p < (unat offset + unat len + 4095) div 4096" by simp
    then show False using c(1) space W(4) \<open>nb s p \<le> nb s1 p\<close> by linarith
  qed
  then show ?thesis using run rg ev ct fin by blast
qed

lemma sfs_io_read:
  assumes g: "regular s p" and o: "offset < SFS_MAX_FILE_SIZE" "unat offset + unat len < 2 ^ 31" and l: "unat len \<le> length buf"
  shows "\<exists>alen s'. sfs_io_nolock s p buf offset len False =
      Ok (Inr (), splice buf 0 (slice (content s p) (unat offset) (unat len)), alen, s') \<and> read_only s s' \<and>
    unat alen = length (slice (content s p) (unat offset) (unat len))"
proof -
  define fs where "fs = din_size (din (sins s p))"
  have f: "file_ok s p" and v: "vol_ok s" and ty: "din_type (din (sins s p)) \<noteq> SFS_TYPE_DIR" and sz: "unat fs \<le> 4096 * nb s p"
    using g by (auto simp: regular_def file_ok_def fs_def)
  have fN: "unat fs \<le> 4096 * NMAX" using regular_max [OF g] by (simp add: fs_def)
  have u: "unat (offset + len) = unat offset + unat len" using o(2) by (simp add: unat_add_u32)
  have s1: "sint offset = int (unat offset)" "sint (offset + len) = int (unat offset + unat len)"
    using sint_small [of offset] sint_small [of "offset + len"] o(2) u by simp_all
  have c: "\<not> sint offset < 0" "\<not> sint (offset + len) < sint offset" "\<not> SFS_MAX_FILE_SIZE \<le> offset"
    unfolding s1 using o(1) by (linarith, linarith, simp)
  have empty: ?thesis if e: "slice (content s p) (unat offset) (unat len) = []"
      and r: "sfs_io_nolock s p buf offset len False = Ok (Inr (), buf, 0, s)"
    using r read_only_refl [OF v] unfolding e by simp
  show ?thesis
  proof (cases "len = 0 \<or> fs \<le> offset")
    case True
    have "length (content s p) = unat fs" using content_length [OF g] by (simp add: fs_def)
    then have "slice (content s p) (unat offset) (unat len) = []" using True by (auto simp: slice_def word_le_nat_alt)
    moreover have "sfs_io_nolock s p buf offset len False = Ok (Inr (), buf, 0, s)"
      using True ty c by (auto simp: sfs_io_nolock_def Let_def fs_def)
    ultimately show ?thesis by (rule empty)
  next
    case False
    define e1 where "e1 = (if SFS_MAX_FILE_SIZE < offset + len then SFS_MAX_FILE_SIZE else offset + len)"
    define e2 where "e2 = (if fs < e1 then fs else e1)"
    have lt: "unat offset < unat fs" "0 < unat len" using False by (auto simp: word_le_nat_alt unat_gt_0)
    have M: "unat SFS_MAX_FILE_SIZE = 134217728" by (simp add: SFS_MAX_FILE_SIZE_def)
    have ue: "unat e2 = min (unat fs) (unat offset + unat len)"
      using fN u by (auto simp: e2_def e1_def word_less_nat_alt M NMAX_def)
    have e: "unat offset < unat e2" "unat e2 \<le> 4096 * nb s p" using ue lt sz by auto
    have le: "unat e2 - unat offset \<le> length buf" using ue l by simp
    obtain alen s' where b: "io_body s p buf offset e2 False = Ok (Inr (), splice buf 0 (slice (rawf s p) (unat offset) (unat e2 - unat offset)), alen, s')"
        "read_only s s'" "unat alen = unat e2 - unat offset"
      using io_body_read [OF f e le] by blast
    have "unat (offset + alen) = unat e2" using b(3) e(1) unat_u32_less [of e2] by (subst unat_add_u32) auto
    then have ns: "\<not> din_size (din (sins s' p)) < offset + alen"
      using read_onlyD(4) [OF b(2) f] ue by (simp add: word_less_nat_alt fs_def)
    have sl: "slice (rawf s p) (unat offset) (unat e2 - unat offset) = slice (content s p) (unat offset) (unat len)"
    proof -
      have "unat e2 - unat offset = min (unat len) (unat fs - unat offset)" using ue lt by arith
      then show ?thesis unfolding content_def fs_def [symmetric] slice_def by (simp add: drop_take)
    qed
    have "sfs_io_nolock s p buf offset len False = Ok (Inr (), splice buf 0 (slice (rawf s p) (unat offset) (unat e2 - unat offset)), alen, s')"
      using False ty c b(1) ns by (simp add: sfs_io_nolock_def Let_def fs_def [symmetric] e1_def [symmetric] e2_def [symmetric])
    moreover have "length (slice (rawf s p) (unat offset) (unat e2 - unat offset)) = unat e2 - unat offset"
      using e length_rawf [OF f] by simp
    ultimately show ?thesis using b(2,3) unfolding sl by auto
  qed
qed

section \<open>The operations on transfer buffers\<close>

lemma sfs_write_effect:
  assumes g: "regular s p" and o: "unat (io_offset iob) \<le> length (content s p)"
    and m: "unat (io_offset iob) + unat (io_resid iob) \<le> 4096 * NMAX"
    and l: "io_base iob + unat (io_resid iob) \<le> length (io_mem iob)"
  shows "\<exists>r n iob' s'. sfs_write s p iob = Ok (r, iob', s') \<and> regular s' p \<and> io_mem iob' = io_mem iob \<and>
    unat (io_resid iob') = unat (io_resid iob) - n \<and> io_base iob' = io_base iob + n \<and>
    content s' p = splice (content s p) (unat (io_offset iob)) (slice (io_mem iob) (io_base iob) n) \<and>
    (r = Inr () \<and> n = unat (io_resid iob) \<or> r = Inl E_NO_MEM \<and> n < unat (io_resid iob)) \<and>
    (2 * ((unat (io_offset iob) + unat (io_resid iob) + 4095) div 4096 - nb s p) \<le> card (fb s) \<longrightarrow> r = Inr ()) \<and>
    evolve s s' p"
proof -
  let ?buf = "drop (io_base iob) (io_mem iob)"
  have l': "unat (io_resid iob) \<le> length ?buf" using l by simp
  obtain r alen s' where w: "sfs_io_nolock s p ?buf (io_offset iob) (io_resid iob) True = Ok (r, ?buf, alen, s')"
      "regular s' p" "evolve s s' p" "content s' p = splice (content s p) (unat (io_offset iob)) (take (unat alen) ?buf)"
      "r = Inr () \<and> alen = io_resid iob \<or> r = Inl E_NO_MEM \<and> alen < io_resid iob"
      "2 * ((unat (io_offset iob) + unat (io_resid iob) + 4095) div 4096 - nb s p) \<le> card (fb s) \<longrightarrow> r = Inr ()"
    using sfs_io_write [OF g _ m l'] o content_length [OF g] by auto
  have le: "alen \<le> io_resid iob" using w(5) by auto
  define iob' where "iob' = (if alen \<noteq> 0 then
      iob\<lparr>io_base := io_base iob + unat alen, io_offset := io_offset iob + alen, io_resid := io_resid iob - alen\<rparr> else iob)"
  have "sfs_write s p iob = Ok (r, iob', s')"
    using w(1) le by (simp add: sfs_write_def sfs_io_def iobuf_skip_def iob'_def)
  moreover have "io_mem iob' = io_mem iob" "io_base iob' = io_base iob + unat alen"
      "unat (io_resid iob') = unat (io_resid iob) - unat alen"
    using le by (auto simp: iob'_def unat_sub)
  moreover have "r = Inr () \<and> unat alen = unat (io_resid iob) \<or> r = Inl E_NO_MEM \<and> unat alen < unat (io_resid iob)"
    using w(5) by (auto simp: word_less_nat_alt)
  ultimately show ?thesis using w(2,3,4,6) unfolding slice_def by blast
qed

lemma sfs_read_effect:
  assumes g: "regular s p" and o: "io_offset iob < SFS_MAX_FILE_SIZE" "unat (io_offset iob) + unat (io_resid iob) < 2 ^ 31"
    and l: "io_base iob + unat (io_resid iob) \<le> length (io_mem iob)"
    and bs: "bs = slice (content s p) (unat (io_offset iob)) (unat (io_resid iob))"
  shows "\<exists>iob' s'. sfs_read s p iob = Ok (Inr (), iob', s') \<and> io_mem iob' = splice (io_mem iob) (io_base iob) bs \<and>
    io_base iob' = io_base iob + length bs \<and> unat (io_resid iob') = unat (io_resid iob) - length bs \<and>
    regular s' p \<and> content s' p = content s p \<and> fb s' = fb s \<and> blk s' = blk s \<and> sins s' = sins s"
proof -
  let ?buf = "drop (io_base iob) (io_mem iob)"
  have l': "unat (io_resid iob) \<le> length ?buf" using l by simp
  obtain alen s' where w: "sfs_io_nolock s p ?buf (io_offset iob) (io_resid iob) False = Ok (Inr (), splice ?buf 0 bs, alen, s')"
      "read_only s s'" "unat alen = length bs"
    using sfs_io_read [OF g o l'] unfolding bs by blast
  have lb: "length bs \<le> unat (io_resid iob)" by (simp add: bs slice_def)
  then have le: "alen \<le> io_resid iob" using w(3) by (simp add: word_le_nat_alt)
  have f: "file_ok s p" using g by (simp add: regular_def)
  note D = read_onlyD [OF w(2) f]
  have mem: "take (io_base iob) (io_mem iob) @ splice ?buf 0 bs = splice (io_mem iob) (io_base iob) bs"
    using l lb by (simp add: splice_def add.commute)
  define iob1 where "iob1 = iob\<lparr>io_mem := splice (io_mem iob) (io_base iob) bs\<rparr>"
  define iob' where "iob' = (if alen \<noteq> 0 then
      iob1\<lparr>io_base := io_base iob + unat alen, io_offset := io_offset iob + alen, io_resid := io_resid iob - alen\<rparr> else iob1)"
  have "sfs_read s p iob = Ok (Inr (), iob', s')"
    using w(1) le mem by (simp add: sfs_read_def sfs_io_def iobuf_skip_def iob'_def iob1_def)
  moreover have "io_mem iob' = splice (io_mem iob) (io_base iob) bs" "io_base iob' = io_base iob + length bs"
      "unat (io_resid iob') = unat (io_resid iob) - length bs"
    using le w(3) by (auto simp: iob'_def iob1_def unat_sub)
  moreover have "regular s' p" "content s' p = content s p" using g D by (auto simp: regular_def content_def)
  ultimately show ?thesis using D by blast
qed

end
