(* ===== verification/Sfs_Trunc.thy ===== *)
theory Sfs_Trunc
  imports Sfs_Write Sfs_Node
begin

text \<open>
  Resizing files: \<open>sfs_bmap_free_nolock\<close>, \<open>sfs_bmap_truncate_nolock\<close> and \<open>sfs_truncfile\<close> of
  \<open>kern/fs/sfs/sfs_inode.c\<close>. Taking the last block off a block map is the inverse of \<open>grown\<close>.
\<close>

section \<open>A file with one block less\<close>

lemma inode_ok_shrink:
  assumes ok: "inode_ok N F B d" and n: "unat (din_blocks d) = Suc n"
    and d': "length (din_direct d') = 12" "din_blocks d' = din_blocks d - 1" "din_indirect d' = din_indirect d"
    and map: "\<forall>j < NMAX. bnum B' d' j = (if j = n then 0 else bnum B d j)"
  shows "inode_ok N (insert (unat (bnum B d n)) F) B' d'" and "fblocks B d = fblocks B' d' @ [unat (bnum B d n)]"
proof -
  have "din_blocks d \<noteq> 0" using n by auto
  then have n': "unat (din_blocks d') = n" using n d'(2) by (simp add: unat_minus_one)
  have nm: "Suc n \<le> NMAX" using ok n by (simp add: inode_ok_def)
  have bn: "bnum B' d' j = bnum B d j" if "j < n" for j using map that nm by simp
  have inj: "inj_on (bnum B d) {..<Suc n}" using ok n by (simp add: inode_ok_def)
  have ne: "unat (bnum B d j) \<noteq> unat (bnum B d n)" if "j < n" for j
    using inj_onD [OF inj, of j n] that by (auto simp: word_unat_eq_iff)
  have new: "bused N (insert (unat (bnum B d n)) F) (bnum B' d' j)" if "j < n" for j
    using ok n that ne [OF that] bn [OF that] by (simp add: inode_ok_def bused_def)
  have zero: "bnum B' d' j = 0" if "n \<le> j" "j < NMAX" for j
    using ok map that n by (cases "j = n") (auto simp: inode_ok_def)
  have img: "bnum B' d' ` {..<n} = bnum B d ` {..<n}" using bn by auto
  have "inj_on (bnum B' d') {..<n} = inj_on (bnum B d) {..<n}" using bn by (intro inj_on_cong) simp
  moreover have "inj_on (bnum B d) {..<n}" by (rule inj_on_subset [OF inj]) auto
  ultimately have inj': "inj_on (bnum B' d') {..<n}" by simp
  have ind: "bused N (insert (unat (bnum B d n)) F) (din_indirect d') \<and> din_indirect d' \<notin> bnum B' d' ` {..<n}"
    if "din_indirect d' \<noteq> 0"
  proof -
    have b: "bused N F (din_indirect d)" "din_indirect d \<notin> bnum B d ` {..<Suc n}"
      using ok that d'(3) n by (auto simp: inode_ok_def)
    then have "din_indirect d \<noteq> bnum B d n" by auto
    then have "unat (din_indirect d) \<noteq> unat (bnum B d n)" by (simp add: word_unat_eq_iff)
    then show ?thesis using b d'(3) unfolding img by (auto simp: bused_def)
  qed
  show "inode_ok N (insert (unat (bnum B d n)) F) B' d'"
    unfolding inode_ok_def n' using d'(1) nm new zero inj' ind by auto
  show "fblocks B d = fblocks B' d' @ [unat (bnum B d n)]"
    unfolding fblocks_def n' n using bn by simp
qed

definition shrunk :: "sfs_fs \<Rightarrow> sfs_fs \<Rightarrow> nat \<Rightarrow> bool" where
  "shrunk s s' p \<longleftrightarrow> evolve s s' p \<and> nb s p = Suc (nb s' p) \<and> din_size (din (sins s' p)) = din_size (din (sins s p)) \<and>
     rawf s' p = take (4096 * nb s' p) (rawf s p) \<and> fb s \<subseteq> fb s' \<and> card (fb s') = Suc (card (fb s))"

lemma shrunkI:
  assumes f: "file_ok s p" and d: "d = din (sins s p)" and n: "unat (din_blocks d) = Suc n"
    and s': "vol_ok s'" "fb s' = insert (unat (bnum (blk s) d n)) (fb s)"
    and x: "sins s' = (sins s)(p := x)" "ino x = ino (sins s p)" "reclaim_count x = reclaim_count (sins s p)" "din x = d'"
    and rest: "vnodes s' = vnodes s" "inode_list s' = inode_list s" "hash_list s' = hash_list s" "killed s' = killed s"
      "sb_blocks (super s') = sb_blocks (super s)"
    and d': "length (din_direct d') = 12" "din_blocks d' = din_blocks d - 1" "din_indirect d' = din_indirect d"
      "din_size d' = din_size d" "din_type d' = din_type d" "din_nlinks d' = din_nlinks d"
    and map: "\<forall>j < NMAX. bnum (blk s') d' j = (if j = n then 0 else bnum (blk s) d j)"
    and keep: "\<forall>b. (din_indirect d \<noteq> 0 \<longrightarrow> b \<noteq> unat (din_indirect d)) \<longrightarrow> blk s' b = blk s b"
  shows "shrunk s s' p"
proof -
  let ?b = "unat (bnum (blk s) d n)"
  have v: "vol_ok s" and ok: "inode_ok (nblocks s) (fb s) (blk s) d" using f d by (auto simp: file_ok_def)
  note g = inode_ok_shrink [OF ok n d'(1-3) map]
  have sd: "din (sins s' p) = d'" using x by simp
  have fk: "file_ok s' p" using g(1) s' sd rest(5) by (simp add: file_ok_def)
  have bin: "?b \<in> set (fblocks (blk s) d)" unfolding g(2) by simp
  have "used s' b \<and> b \<notin> own s' p \<and> blk s' b = blk s b" if "used s b" "b \<notin> own s p" for b
  proof -
    have nin: "b \<notin> set (fblocks (blk s) d)" and ni: "din_indirect d \<noteq> 0 \<longrightarrow> b \<noteq> unat (din_indirect d)"
      using that(2) by (auto simp: own_def d Let_def)
    have "b \<noteq> ?b" using bin nin by blast
    then have "used s' b" using that(1) s'(2) rest(5) by (simp add: used_def)
    moreover have "b \<notin> own s' p" using nin ni g(2) d'(3) by (auto simp: own_def sd Let_def)
    ultimately show ?thesis using keep ni by blast
  qed
  then have ev: "evolve s s' p" using fk x rest d' d by (auto simp: evolve_def same_but_def)
  have "blk s' b = blk s b" if "b \<in> set (fblocks (blk s) d)" for b
  proof -
    have "din_indirect d \<noteq> 0 \<longrightarrow> b \<noteq> unat (din_indirect d)" using that fblocks_indirect [OF ok] by metis
    then show ?thesis using keep by blast
  qed
  then have m: "map (blk s') (fblocks (blk s') d') = map (blk s) (fblocks (blk s') d')" using g(2) by simp
  have rw: "rawf s p = rawf s' p @ blk s ?b"
    unfolding rawf_def raw_def sd d [symmetric] g(2) m by simp
  have "din_blocks d \<noteq> 0" using n by auto
  then have nb: "nb s p = Suc (nb s' p)" using n d'(2) sd d by (simp add: nb_def unat_minus_one)
  have "rawf s' p = take (4096 * nb s' p) (rawf s p)" using rw length_rawf [OF fk] by simp
  moreover have "?b \<notin> fb s" using fblocks_used [OF ok bin] by blast
  ultimately show ?thesis using ev nb s'(2) d'(4) sd d by (auto simp: shrunk_def)
qed

lemma bmap_truncate_direct:
  assumes f: "file_ok s p" and n: "nb s p = Suc n" "n < 12"
  shows "\<exists>s'. sfs_bmap_truncate_nolock s p = Ok (Inr (), s') \<and> shrunk s s' p"
proof -
  define d where "d = din (sins s p)"
  define ix where "ix = din_blocks d - 1"
  have v: "vol_ok s" and ok: "inode_ok (nblocks s) (fb s) (blk s) d" using f by (auto simp: file_ok_def d_def)
  have nd: "unat (din_blocks d) = Suc n" using n(1) by (simp add: nb_def d_def)
  then have nz: "din_blocks d \<noteq> 0" by auto
  then have uix: "unat ix = n" using nd by (simp add: ix_def unat_minus_one)
  then have lt: "ix < SFS_NDIRECT" using n(2) by (simp add: SFS_NDIRECT_def word_less_nat_alt)
  define b where "b = bnum (blk s) d n"
  have u: "used s (unat b)" using bnum_used [OF f, of n] nd by (simp add: b_def d_def)
  have db: "din_direct d ! n = b" "b \<noteq> 0" using n(2) u by (auto simp: b_def bnum_def used_def)
  have l12: "length (din_direct d) = 12" using ok by (simp add: inode_ok_def)
  obtain s1 where a: "sfs_block_free s b = Ok s1" "becomes s s1 (insert (unat b) (fb s)) (blk s)"
    using sfs_block_free_ok [OF v u] by blast
  note D = becomesD [OF a(2)]
  define s2 where "s2 = upd_sin (upd_din s1 p (\<lambda>d. d\<lparr>din_direct := (din_direct d)[n := 0]\<rparr>)) p (set_dirty True)"
  define s' where "s' = upd_sin (upd_din s2 p (\<lambda>d. d\<lparr>din_blocks := din_blocks d - 1\<rparr>)) p (set_dirty True)"
  have "sfs_bmap_free_nolock s p ix = Ok (Inr (), s2)"
    using lt a(1) db uix by (simp add: sfs_bmap_free_nolock_def Let_def d_def [symmetric] s2_def)
  then have "sfs_bmap_truncate_nolock s p = Ok (Inr (), s')"
    using nz by (simp add: sfs_bmap_truncate_nolock_def d_def [symmetric] ix_def [symmetric] s'_def)
  moreover have "shrunk s s' p"
  proof (rule shrunkI [OF f d_def nd, where x = "sins s' p" and
        d' = "d\<lparr>din_direct := (din_direct d)[n := 0], din_blocks := din_blocks d - 1\<rparr>"])
    show "\<forall>j<NMAX. bnum (blk s') (d\<lparr>din_direct := (din_direct d)[n := 0], din_blocks := din_blocks d - 1\<rparr>) j =
        (if j = n then 0 else bnum (blk s) d j)"
      using bnum_direct_new [OF n(2) l12, of "blk s'" "blk s"] by (simp add: s'_def s2_def D)
  qed (use l12 in \<open>auto simp: s'_def s2_def D d_def b_def\<close>)
  ultimately show ?thesis by blast
qed

lemma bmap_truncate_indirect:
  assumes f: "file_ok s p" and n: "nb s p = Suc n" "12 \<le> n"
  shows "\<exists>s'. sfs_bmap_truncate_nolock s p = Ok (Inr (), s') \<and> shrunk s s' p"
proof -
  define d where "d = din (sins s p)"
  define ix where "ix = din_blocks d - 1"
  define e where "e = din_indirect d"
  have v: "vol_ok s" and ok: "inode_ok (nblocks s) (fb s) (blk s) d" using f by (auto simp: file_ok_def d_def)
  have nd: "unat (din_blocks d) = Suc n" using n(1) by (simp add: nb_def d_def)
  then have nz: "din_blocks d \<noteq> 0" by auto
  then have uix: "unat ix = n" using nd by (simp add: ix_def unat_minus_one)
  have nlt: "\<not> ix < SFS_NDIRECT" using n(2) uix by (simp add: SFS_NDIRECT_def word_less_nat_alt)
  have nm: "n < NMAX" using ok nd by (simp add: inode_ok_def)
  note I = indirect_index [OF nlt, unfolded uix, OF nm]
  define b where "b = bnum (blk s) d n"
  have u: "used s (unat b)" using bnum_used [OF f, of n] nd by (simp add: b_def d_def)
  have bn: "b \<noteq> 0" using u by (auto simp: used_def)
  then have e0: "e \<noteq> 0" and be: "of_le32 (slice (blk s (unat e)) (4 * (n - 12)) 4) = b"
    using n(2) by (auto simp: b_def bnum_def e_def split: if_splits)
  have ue: "used s (unat e)" using indirect_used [OF f] e0 by (simp add: e_def d_def)
  have o: "unat ((ix - SFS_NDIRECT) * 4) + unat (4 :: u32) \<le> 4096" "unat ((ix - SFS_NDIRECT) * 4) < 4096" using I(5) by auto
  obtain s0 where r: "sfs_rbuf s 4 e ((ix - SFS_NDIRECT) * 4) = Ok (Inr (slice (blk s (unat e)) (4 * (n - 12)) 4), s0)"
      "becomes s s0 (fb s) (blk s)"
    using sfs_rbuf_ok [OF v ue o] I(3) by auto
  note D0 = becomesD [OF r(2)]
  have ue0: "used s0 (unat e)" using ue becomes_used [OF r(2)] by simp
  obtain s1 where w: "sfs_wbuf s0 (le32 0) 4 e ((ix - SFS_NDIRECT) * 4) = Ok (Inr (), s1)"
      "becomes s0 s1 (fb s0) ((blk s0)(unat e := splice (blk s0 (unat e)) (4 * (n - 12)) (slice (le32 0) 0 4)))"
    using sfs_wbuf_ok [OF D0(1) ue0 o, of "le32 0"] I(3) by auto
  let ?B = "(blk s)(unat e := splice (blk s (unat e)) (4 * (n - 12)) (le32 0))"
  have b1: "becomes s s1 (fb s) ?B" using becomes_trans [OF r(2) w(2)] D0(2,3) by (simp add: slice_all)
  note D1 = becomesD [OF b1]
  have "used s1 (unat b)" using u becomes_used [OF b1] by simp
  then obtain s2 where a: "sfs_block_free s1 b = Ok s2" "becomes s1 s2 (insert (unat b) (fb s1)) (blk s1)"
    using sfs_block_free_ok [OF D1(1)] by blast
  have b2: "becomes s s2 (insert (unat b) (fb s)) ?B" using becomes_trans [OF b1 a(2)] D1(2,3) by simp
  note D = becomesD [OF b2]
  define s' where "s' = upd_sin (upd_din s2 p (\<lambda>d. d\<lparr>din_blocks := din_blocks d - 1\<rparr>)) p (set_dirty True)"
  have "sfs_bmap_free_sub_nolock s e (ix - SFS_NDIRECT) = Ok (Inr (), s2)"
    using r(1) w(1) a(1) be bn I(2) assert_inuse_ok [OF v ue] by (simp add: sfs_bmap_free_sub_nolock_def)
  then have "sfs_bmap_free_nolock s p ix = Ok (Inr (), s2)"
    using nlt I(2) e0 by (simp add: sfs_bmap_free_nolock_def Let_def d_def [symmetric] e_def)
  then have "sfs_bmap_truncate_nolock s p = Ok (Inr (), s')"
    using nz by (simp add: sfs_bmap_truncate_nolock_def d_def [symmetric] ix_def [symmetric] s'_def)
  moreover have "shrunk s s' p"
  proof (rule shrunkI [OF f d_def nd, where x = "sins s' p" and d' = "d\<lparr>din_blocks := din_blocks d - 1\<rparr>"])
    show "\<forall>j<NMAX. bnum (blk s') (d\<lparr>din_blocks := din_blocks d - 1\<rparr>) j = (if j = n then 0 else bnum (blk s) d j)"
      using bnum_indirect_new [where B = "blk s" and B' = ?B and i = 0, OF n(2) nm e_def [symmetric] e0 blk_length [OF v]]
      by (simp add: s'_def D)
    show "length (din_direct (d\<lparr>din_blocks := din_blocks d - 1\<rparr>)) = 12" using ok by (simp add: inode_ok_def)
  qed (use e0 in \<open>auto simp: s'_def D d_def b_def e_def\<close>)
  ultimately show ?thesis by blast
qed

lemma bmap_truncate_shrinks:
  assumes "file_ok s p" and "0 < nb s p"
  shows "\<exists>s'. sfs_bmap_truncate_nolock s p = Ok (Inr (), s') \<and> shrunk s s' p"
proof -
  obtain n where n: "nb s p = Suc n" using assms(2) by (auto simp: gr0_conv_Suc)
  show ?thesis using bmap_truncate_direct [OF assms(1) n] bmap_truncate_indirect [OF assms(1) n] by fastforce
qed

section \<open>Resizing\<close>

lemma trunc_shrink_ok:
  assumes "file_ok s p" and "k \<le> nb s p"
  shows "\<exists>s'. trunc_shrink s p k = Ok (Inr (), s') \<and> evolve s s' p \<and> nb s' p = nb s p - k \<and>
    din_size (din (sins s' p)) = din_size (din (sins s p)) \<and> rawf s' p = take (4096 * (nb s p - k)) (rawf s p) \<and>
    fb s \<subseteq> fb s' \<and> card (fb s') = card (fb s) + k"
  using assms
proof (induction k arbitrary: s)
  case 0
  have "evolve s s p" using 0(1) by (simp add: evolve_def same_but_def)
  then show ?case using length_rawf [OF 0(1)] by simp
next
  case (Suc k)
  have "0 < nb s p" using Suc.prems(2) by simp
  then obtain s1 where t: "sfs_bmap_truncate_nolock s p = Ok (Inr (), s1)" "shrunk s s1 p"
    using bmap_truncate_shrinks [OF Suc.prems(1)] by blast
  have s1: "evolve s s1 p" "nb s p = Suc (nb s1 p)" "din_size (din (sins s1 p)) = din_size (din (sins s p))"
      "rawf s1 p = take (4096 * nb s1 p) (rawf s p)" "fb s \<subseteq> fb s1" "card (fb s1) = Suc (card (fb s))"
    using t(2) by (auto simp: shrunk_def)
  have f1: "file_ok s1 p" "k \<le> nb s1 p" using s1(1,2) Suc.prems(2) by (auto simp: evolve_def)
  obtain s' where h: "trunc_shrink s1 p k = Ok (Inr (), s')" "evolve s1 s' p" "nb s' p = nb s1 p - k"
      "din_size (din (sins s' p)) = din_size (din (sins s1 p))" "rawf s' p = take (4096 * (nb s1 p - k)) (rawf s1 p)"
      "fb s1 \<subseteq> fb s'" "card (fb s') = card (fb s1) + k"
    using Suc.IH [OF f1] by blast
  have "rawf s' p = take (4096 * (nb s p - Suc k)) (rawf s p)" using h(5) s1(2,4) by simp
  moreover have "trunc_shrink s p (Suc k) = Ok (Inr (), s')" using t(1) h(1) by simp
  moreover have "evolve s s' p" by (rule evolve_trans [OF s1(1) h(2)])
  ultimately show ?case using h s1 by auto
qed

lemma trunc_grow_ok:
  assumes "file_ok s p" and "nblks = din_blocks (din (sins s p))" and "nb s p + k \<le> NMAX"
  shows "\<exists>r s' j. trunc_grow s p nblks k = Ok (r, s') \<and> evolve s s' p \<and> nb s' p = nb s p + j \<and>
    din_size (din (sins s' p)) = din_size (din (sins s p)) \<and> rawf s' p = rawf s p @ replicate (4096 * j) 0 \<and>
    (r = Inr () \<and> j = k \<or> r = Inl E_NO_MEM \<and> j < k) \<and> (2 * k \<le> card (fb s) \<longrightarrow> r = Inr ())"
  using assms
proof (induction k arbitrary: s nblks)
  case 0
  have "evolve s s p" using 0(1) by (simp add: evolve_def same_but_def)
  then show ?case by simp
next
  case (Suc k)
  have lt: "unat nblks < NMAX" using Suc.prems(2,3) by (simp add: nb_def)
  consider (no) s1 where "sfs_bmap_load_nolock s p nblks = Ok (Inl E_NO_MEM, s1)" "no_space s s1"
    | (yes) i s1 where "sfs_bmap_load_nolock s p nblks = Ok (Inr i, s1)" "grown s s1 p i"
    using bmap_load_new [OF Suc.prems(1,2) lt] by blast
  then show ?case
  proof cases
    case no
    have b: "becomes s s1 (fb s) (blk s1)" "\<forall>b. b \<notin> fb s \<longrightarrow> blk s1 b = blk s b" "card (fb s) < 2" using no(2) by (auto simp: no_space_def)
    note E = evolve_free [OF Suc.prems(1) b(1,2)]
    have "nb s1 p = nb s p" "din_size (din (sins s1 p)) = din_size (din (sins s p))"
      using becomesD(4) [OF b(1)] by (auto simp: nb_def)
    then have "trunc_grow s p nblks (Suc k) = Ok (Inl E_NO_MEM, s1) \<and> evolve s s1 p \<and> nb s1 p = nb s p + 0 \<and>
        din_size (din (sins s1 p)) = din_size (din (sins s p)) \<and> rawf s1 p = rawf s p @ replicate (4096 * 0) 0"
      using no(1) E by (simp add: rawf_def)
    then show ?thesis using b(3) by fastforce
  next
    case yes
    have g: "evolve s s1 p" "card (fb s) \<le> card (fb s1) + 2" "din_blocks (din (sins s1 p)) = din_blocks (din (sins s p)) + 1"
        "din_size (din (sins s1 p)) = din_size (din (sins s p))" "rawf s1 p = rawf s p @ replicate 4096 0"
      using yes(2) by (auto simp: grown_def rawf_def)
    have nb1: "nb s1 p = Suc (nb s p)" using g(3) lt Suc.prems(2) by (simp add: nb_def unat_add_u32 NMAX_def)
    have f1: "file_ok s1 p" "nblks + 1 = din_blocks (din (sins s1 p))" "nb s1 p + k \<le> NMAX"
      using g(1,3) nb1 Suc.prems(2,3) by (auto simp: evolve_def)
    obtain r s' j where h: "trunc_grow s1 p (nblks + 1) k = Ok (r, s')" "evolve s1 s' p" "nb s' p = nb s1 p + j"
        "din_size (din (sins s' p)) = din_size (din (sins s1 p))" "rawf s' p = rawf s1 p @ replicate (4096 * j) 0"
        "r = Inr () \<and> j = k \<or> r = Inl E_NO_MEM \<and> j < k" "2 * k \<le> card (fb s1) \<longrightarrow> r = Inr ()"
      using Suc.IH [OF f1] by blast
    have "rawf s' p = rawf s p @ replicate (4096 * Suc j) 0" using h(5) g(5) by (simp add: replicate_add)
    moreover have "trunc_grow s p nblks (Suc k) = Ok (r, s')" using yes(1) h(1) by simp
    moreover have "evolve s s' p" by (rule evolve_trans [OF g(1) h(2)])
    moreover have "nb s' p = nb s p + Suc j" "din_size (din (sins s' p)) = din_size (din (sins s p))"
      using h(3,4) nb1 g(4) by auto
    moreover have "r = Inr () \<and> Suc j = Suc k \<or> r = Inl E_NO_MEM \<and> Suc j < Suc k" "2 * Suc k \<le> card (fb s) \<longrightarrow> r = Inr ()"
      using h(6,7) g(2) by auto
    ultimately show ?thesis by blast
  qed
qed

lemma truncfile_blocks:
  assumes f: "file_ok s p" and t: "unat tblks \<le> NMAX" and n: "nblks = din_blocks (din (sins s p))"
  shows "\<exists>r s'. (if nblks < tblks then trunc_grow s p nblks (unat (tblks - nblks))
        else if tblks < nblks then trunc_shrink s p (unat (nblks - tblks)) else Ok (Inr (), s)) = Ok (r, s') \<and>
      evolve s s' p \<and> din_size (din (sins s' p)) = din_size (din (sins s p)) \<and>
      (r = Inr () \<and> nb s' p = unat tblks \<and> rawf s' p = take (4096 * unat tblks) (rawf s p @ replicate (4096 * (unat tblks - nb s p)) 0) \<or>
       r = Inl E_NO_MEM \<and> nb s p < unat tblks \<and> (\<exists>j. nb s' p = nb s p + j \<and> rawf s' p = rawf s p @ replicate (4096 * j) 0)) \<and>
      (2 * (unat tblks - nb s p) \<le> card (fb s) \<longrightarrow> r = Inr ()) \<and>
      (unat tblks \<le> nb s p \<longrightarrow> card (fb s') = card (fb s) + (nb s p - unat tblks))"
proof -
  have nb: "unat nblks = nb s p" using n by (simp add: nb_def)
  note L = length_rawf [OF f]
  consider (grow) "nblks < tblks" | (shrink) "tblks < nblks" | (same) "tblks = nblks" by fastforce
  then show ?thesis
  proof cases
    case grow
    define k where "k = unat (tblks - nblks)"
    have k: "nb s p + k = unat tblks" "0 < k" using grow nb by (auto simp: k_def word_less_nat_alt unat_sub word_le_nat_alt)
    then have kn: "nb s p + k \<le> NMAX" using t by simp
    obtain r s' j where h: "trunc_grow s p nblks k = Ok (r, s')" "evolve s s' p" "nb s' p = nb s p + j"
        "din_size (din (sins s' p)) = din_size (din (sins s p))" "rawf s' p = rawf s p @ replicate (4096 * j) 0"
        "r = Inr () \<and> j = k \<or> r = Inl E_NO_MEM \<and> j < k" "2 * k \<le> card (fb s) \<longrightarrow> r = Inr ()"
      using trunc_grow_ok [OF f n kn] by blast
    have tk: "unat tblks - nb s p = k" "\<not> unat tblks \<le> nb s p" "nb s p < unat tblks" using k by linarith+
    have "take (4096 * unat tblks) (rawf s p @ replicate (4096 * k) 0) = rawf s p @ replicate (4096 * k) 0"
      using L k(1) by simp
    then show ?thesis unfolding k_def [symmetric] tk(1) using grow h tk(2,3) k(1) by auto
  next
    case shrink
    define k where "k = unat (nblks - tblks)"
    have k: "k \<le> nb s p" "nb s p - k = unat tblks" "unat tblks < nb s p" "nb s p - unat tblks = k"
      using shrink nb by (auto simp: k_def word_less_nat_alt unat_sub word_le_nat_alt)
    obtain s' where h: "trunc_shrink s p k = Ok (Inr (), s')" "evolve s s' p" "nb s' p = nb s p - k"
        "din_size (din (sins s' p)) = din_size (din (sins s p))" "rawf s' p = take (4096 * (nb s p - k)) (rawf s p)"
        "card (fb s') = card (fb s) + k"
      using trunc_shrink_ok [OF f k(1)] by blast
    have "\<not> nblks < tblks" using shrink by simp
    then show ?thesis unfolding k_def [symmetric] k(4) using shrink h k(2,3) L by auto
  next
    case same
    have "evolve s s p" using f by (simp add: evolve_def same_but_def)
    then show ?thesis using same nb L by auto
  qed
qed

lemma truncfile_effect:
  assumes g: "regular s p" and m: "unat len \<le> 4096 * NMAX" and t: "t = (unat len + 4095) div 4096"
    and eq: "unat (din_size (din (sins s p))) = unat len \<longrightarrow> nb s p = t"
  shows "\<exists>r s'. sfs_truncfile s p len = Ok (r, s') \<and> regular s' p \<and> evolve s s' p \<and>
    (r = Inr () \<and> nb s' p = t \<and> content s' p = take (unat len) (rawf s p @ replicate (4096 * (t - nb s p)) 0) \<or>
     r = Inl E_NO_MEM \<and> nb s p < t \<and> content s' p = content s p) \<and>
    (2 * (t - nb s p) \<le> card (fb s) \<longrightarrow> r = Inr ()) \<and>
    (t \<le> nb s p \<longrightarrow> card (fb s') = card (fb s) + (nb s p - t))"
proof -
  define d where "d = din (sins s p)"
  define tblks where "tblks = ROUNDUP_DIV len SFS_BLKSIZE"
  have f: "file_ok s p" and ty: "din_type d \<noteq> SFS_TYPE_DIR" and sz: "unat (din_size d) \<le> 4096 * nb s p"
    using g by (auto simp: regular_def d_def)
  note L = length_rawf [OF f]
  have m': "unat len \<le> 4243456" using m by (simp add: NMAX_def)
  have "unat (len + SFS_BLKSIZE - 1) = unat len + 4095"
  proof -
    have c: "len + SFS_BLKSIZE - 1 = len + 4095" by (simp add: SFS_BLKSIZE_def)
    show ?thesis unfolding c using m' by (simp add: unat_add_u32)
  qed
  then have ut: "unat tblks = t"
    unfolding tblks_def ROUNDUP_DIV_def unat_div t by (simp add: SFS_BLKSIZE_def)
  have tN: "unat tblks \<le> NMAX" unfolding ut t using m by (simp add: NMAX_def)
  have "sint len = int (unat len)" using m' by (intro sint_small) simp
  then have s0: "\<not> sint len < 0" by simp
  have s1: "\<not> SFS_MAX_FILE_SIZE < len" using m' by (simp add: SFS_MAX_FILE_SIZE_def word_less_nat_alt)
  have lt: "unat len \<le> 4096 * t" unfolding t by simp
  show ?thesis
  proof (cases "din_size d = len")
    case True
    have n: "nb s p = t" using eq True by (simp add: d_def)
    then have "tblks = din_blocks d" using ut by (intro word_unat_eq_iff [THEN iffD2]) (simp add: nb_def d_def)
    then have r: "sfs_truncfile s p len = Ok (Inr (), s)"
      using s0 s1 True by (simp add: sfs_truncfile_def d_def [symmetric] tblks_def [symmetric] Let_def)
    have "evolve s s p" using f by (simp add: evolve_def same_but_def)
    moreover have "content s p = take (unat len) (rawf s p @ replicate (4096 * (t - nb s p)) 0)"
      using True n by (simp add: content_def d_def)
    ultimately show ?thesis using r g n by simp
  next
    case False
    obtain r s1 where b: "(if din_blocks d < tblks then trunc_grow s p (din_blocks d) (unat (tblks - din_blocks d))
          else if tblks < din_blocks d then trunc_shrink s p (unat (din_blocks d - tblks)) else Ok (Inr (), s)) = Ok (r, s1)"
        "evolve s s1 p" "din_size (din (sins s1 p)) = din_size d"
        "r = Inr () \<and> nb s1 p = t \<and> rawf s1 p = take (4096 * t) (rawf s p @ replicate (4096 * (t - nb s p)) 0) \<or>
         r = Inl E_NO_MEM \<and> nb s p < t \<and> (\<exists>j. nb s1 p = nb s p + j \<and> rawf s1 p = rawf s p @ replicate (4096 * j) 0)"
        "2 * (t - nb s p) \<le> card (fb s) \<longrightarrow> r = Inr ()" "t \<le> nb s p \<longrightarrow> card (fb s1) = card (fb s) + (nb s p - t)"
      using truncfile_blocks [OF f tN refl] unfolding ut d_def by blast
    have ty1: "din_type (din (sins s1 p)) \<noteq> SFS_TYPE_DIR" and f1: "file_ok s1 p"
      using b(2) ty by (auto simp: evolve_def same_but_def d_def)
    note T = sfs_truncfile_def [of s p len, unfolded Let_def, folded d_def tblks_def, unfolded b(1)]
    from b(4) show ?thesis
    proof
      assume a: "r = Inr () \<and> nb s1 p = t \<and> rawf s1 p = take (4096 * t) (rawf s p @ replicate (4096 * (t - nb s p)) 0)"
      then have "din_blocks (din (sins s1 p)) = tblks" using ut by (intro word_unat_eq_iff [THEN iffD2]) (simp add: nb_def)
      then have "sfs_truncfile s p len = Ok (Inr (), resize s1 p len)"
        using s0 s1 False a unfolding T by (simp add: resize_def)
      moreover have "regular (resize s1 p len) p" using f1 ty1 a lt by (simp add: regular_def resize_keeps)
      moreover have "content (resize s1 p len) p = take (unat len) (rawf s p @ replicate (4096 * (t - nb s p)) 0)"
        unfolding content_def resize_keeps a [THEN conjunct2, THEN conjunct2] by (simp only: take_take min_absorb1 [OF lt])
      ultimately show ?thesis using a b(2,6) by (auto simp: resize_keeps)
    next
      assume a: "r = Inl E_NO_MEM \<and> nb s p < t \<and> (\<exists>j. nb s1 p = nb s p + j \<and> rawf s1 p = rawf s p @ replicate (4096 * j) 0)"
      then have "sfs_truncfile s p len = Ok (Inl E_NO_MEM, s1)" using s0 s1 False unfolding T by simp
      moreover have "regular s1 p" using f1 ty1 a sz b(3) by (auto simp: regular_def)
      moreover have "content s1 p = content s p" using a sz L b(3) by (auto simp: content_def d_def)
      ultimately show ?thesis using a b(2,5) by auto
    qed
  qed
qed

end
