(* ===== verification/Sfs_Ops.thy ===== *)
theory Sfs_Ops
  imports Sfs_Trunc
begin

text \<open>
  What the operations of the simple file system promise, for any file of any well-formed volume:
  \<open>sfs_write\<close> and \<open>sfs_read\<close> of \<open>kern/fs/sfs/sfs_inode.c\<close> as operations on the sequence of bytes of the
  file, and the growing of block maps.
\<close>

section \<open>Reading and writing\<close>

text \<open>
  All statements below are about a volume that is well formed (\<open>vol_ok\<close>: the drive is present and answers every
  transfer, the volume lies inside the device and below 2 GB, the free map marks only blocks of the volume and
  as many as the superblock counts) and a file of it that is well formed (\<open>file_ok\<close>: its first \<open>blocks\<close> block numbers
  are distinct blocks in use, the others are 0, the indirect block is in use and none of them). A \<open>regular\<close> file is in
  addition not a directory and not longer than its blocks.
\<close>

text \<open>C33: A write to a well-formed file of a well-formed volume that starts at most at the end of the file, stays
  below the 12 + 1024 blocks a block map can represent and whose buffer holds the bytes to write always returns. It replaces the bytes of the file from the offset on by the bytes
  it took from the buffer and appends those past the end; when it takes fewer than requested it reports lack of memory,
  which cannot happen when the volume has two free blocks for every block to be appended. The invariants of volume
  and file are kept and no block in use by anything else changes or becomes free.\<close>

theorem sfs_write_splices:
  assumes "regular s p" and "unat (io_offset iob) \<le> length (content s p)"
    and "unat (io_offset iob) + unat (io_resid iob) \<le> 4096 * NMAX"
    and "io_base iob + unat (io_resid iob) \<le> length (io_mem iob)"
  shows "\<exists>r n iob' s'. sfs_write s p iob = Ok (r, iob', s') \<and> regular s' p \<and> io_mem iob' = io_mem iob \<and>
    unat (io_resid iob') = unat (io_resid iob) - n \<and> io_base iob' = io_base iob + n \<and>
    content s' p = splice (content s p) (unat (io_offset iob)) (slice (io_mem iob) (io_base iob) n) \<and>
    (r = Inr () \<and> n = unat (io_resid iob) \<or> r = Inl E_NO_MEM \<and> n < unat (io_resid iob)) \<and>
    (2 * ((unat (io_offset iob) + unat (io_resid iob) + 4095) div 4096 - nb s p) \<le> card (fb s) \<longrightarrow> r = Inr ()) \<and>
    (\<forall>b. used s b \<and> b \<notin> own s p \<longrightarrow> used s' b \<and> b \<notin> own s' p \<and> blk s' b = blk s b)"
  using sfs_write_effect [OF assms] unfolding evolve_def by blast

text \<open>C34: A read of a well-formed file of a well-formed volume, from an offset below the largest file size, whose end
  is below 2 GB and whose buffer has room for the bytes requested, returns 0, delivers to the buffer exactly the bytes of the file from the offset on, as many
  as are requested and exist, advances the buffer by that number and changes neither the file nor any block of
  the volume.\<close>

theorem sfs_read_delivers:
  assumes "regular s p" and "io_offset iob < SFS_MAX_FILE_SIZE" and "unat (io_offset iob) + unat (io_resid iob) < 2 ^ 31"
    and "io_base iob + unat (io_resid iob) \<le> length (io_mem iob)"
    and "bs = slice (content s p) (unat (io_offset iob)) (unat (io_resid iob))"
  shows "\<exists>iob' s'. sfs_read s p iob = Ok (Inr (), iob', s') \<and> io_mem iob' = splice (io_mem iob) (io_base iob) bs \<and>
    io_base iob' = io_base iob + length bs \<and> unat (io_resid iob') = unat (io_resid iob) - length bs \<and>
    regular s' p \<and> content s' p = content s p \<and> fb s' = fb s \<and> blk s' = blk s \<and> sins s' = sins s"
  by (rule sfs_read_effect [OF assms])

text \<open>C35: What a write puts into a well-formed file of a well-formed volume, a read at the same offset brings back, whatever
  the receiving buffer held before; the write starts at most at the end of the file, stays below 12 + 1024 blocks and
  has two free blocks for every block to be appended.\<close>

theorem sfs_write_then_read:
  assumes g: "regular s p" and o: "unat off \<le> length (content s p)" "unat off + length bs \<le> 4096 * NMAX"
    and room: "2 * ((unat off + length bs + 4095) div 4096 - nb s p) \<le> card (fb s)"
    and b: "length buf = length bs"
  shows "\<exists>iob1 s1 iob2 s2. sfs_write s p (iobuf_init bs (of_nat (length bs)) off) = Ok (Inr (), iob1, s1) \<and>
    sfs_read s1 p (iobuf_init buf (of_nat (length bs)) off) = Ok (Inr (), iob2, s2) \<and> io_mem iob2 = bs \<and> io_resid iob2 = 0"
proof -
  let ?w = "iobuf_init bs (of_nat (length bs)) off" and ?r = "iobuf_init buf (of_nat (length bs)) off"
  have n: "unat off + length bs \<le> 4243456" using o(2) by (simp add: NMAX_def)
  then have u: "unat (of_nat (length bs) :: u32) = length bs" by (simp add: unat_of_nat)
  obtain iob1 s1 where w: "sfs_write s p ?w = Ok (Inr (), iob1, s1)" "regular s1 p"
      "content s1 p = splice (content s p) (unat off) bs"
    using sfs_write_effect [OF g, of ?w] o room by (auto simp: iobuf_init_def u slice_all)
  have sl: "slice (content s1 p) (unat off) (length bs) = bs"
    using o(1) by (simp add: w(3) splice_def slice_def)
  have "off < SFS_MAX_FILE_SIZE" using n by (simp add: SFS_MAX_FILE_SIZE_def word_less_nat_alt)
  then obtain iob2 s2 where r: "sfs_read s1 p ?r = Ok (Inr (), iob2, s2)" "io_mem iob2 = splice buf 0 bs"
      "unat (io_resid iob2) = length bs - length bs"
    using sfs_read_effect [OF w(2), of ?r bs] n b sl by (auto simp: iobuf_init_def u)
  have "splice buf 0 bs = bs" using b by (simp add: splice_def)
  moreover have "io_resid iob2 = 0" using r(3) by (simp add: unat_eq_zero)
  ultimately show ?thesis using w(1) r(1,2) by auto
qed

section \<open>Block maps and resizing\<close>

text \<open>C36: Loading a block of a well-formed file of a well-formed volume, be it one the file has or the next one to be
  appended, below the 12 + 1024 blocks a block map can represent, returns and keeps volume and file well formed: the block number it returns is the one the block map holds at the index afterwards, is in use and inside
  the volume, and the numbers of the blocks the file had are as before. The only error is lack of memory, when the
  index is the number of blocks and fewer than two blocks are free; then the block map is unchanged.\<close>

theorem sfs_bmap_load_well_typed:
  assumes f: "file_ok s p" and ix: "unat index \<le> nb s p" "unat index < NMAX"
  shows "\<exists>r s'. sfs_bmap_load_nolock s p index = Ok (r, s') \<and> file_ok s' p \<and>
    (case r of
       Inl e \<Rightarrow> e = E_NO_MEM \<and> unat index = nb s p \<and> card (fb s) < 2 \<and>
         fblocks (blk s') (din (sins s' p)) = fblocks (blk s) (din (sins s p))
     | Inr b \<Rightarrow> used s' (unat b) \<and> fblocks (blk s') (din (sins s' p)) ! unat index = unat b \<and>
         fblocks (blk s') (din (sins s' p)) =
           (if unat index < nb s p then fblocks (blk s) (din (sins s p)) else fblocks (blk s) (din (sins s p)) @ [unat b]))"
proof (cases "unat index < nb s p")
  case True
  obtain s' where l: "sfs_bmap_load_nolock s p index = Ok (Inr (bnum (blk s) (din (sins s p)) (unat index)), s')"
      "becomes s s' (fb s) (blk s)"
    using bmap_load_present [OF f True [unfolded nb_def]] by blast
  then have "read_only s s'" by (simp add: read_only_def)
  note D = read_onlyD [OF this f]
  have "used s' (unat (bnum (blk s) (din (sins s p)) (unat index)))"
    unfolding D(7) by (rule bnum_used [OF f True [unfolded nb_def]])
  then show ?thesis using l(1) D(1,4,6) True by (auto simp: fblocks_def nb_def)
next
  case False
  then have n: "unat index = nb s p" using ix(1) by simp
  then have e: "index = din_blocks (din (sins s p))" by (intro word_unat_eq_iff [THEN iffD2]) (simp add: nb_def)
  have ln: "length (fblocks (blk s) (din (sins s p))) = unat index" using n by (simp add: fblocks_def nb_def)
  consider (no) s' where "sfs_bmap_load_nolock s p index = Ok (Inl E_NO_MEM, s')" "no_space s s'"
    | (yes) i s' where "sfs_bmap_load_nolock s p index = Ok (Inr i, s')" "grown s s' p i"
    using bmap_load_new [OF f e ix(2)] by blast
  then show ?thesis
  proof cases
    case no
    have b: "becomes s s' (fb s) (blk s')" "\<forall>b. b \<notin> fb s \<longrightarrow> blk s' b = blk s b" "card (fb s) < 2"
      using no(2) by (auto simp: no_space_def)
    have ok: "inode_ok (nblocks s) (fb s) (blk s) (din (sins s p))" using f by (simp add: file_ok_def)
    have "fblocks (blk s') (din (sins s p)) = fblocks (blk s) (din (sins s p))"
      by (rule inode_ok_cong(2) [OF ok]) (use ok b(2) in \<open>simp add: inode_ok_def bused_def\<close>)
    moreover have "file_ok s' p" using evolve_free(1) [OF f b(1,2)] by (simp add: evolve_def)
    ultimately show ?thesis using no(1) b(3) n becomesD(4) [OF b(1)] by simp
  next
    case yes
    have g: "file_ok s' p" "fblocks (blk s') (din (sins s' p)) = fblocks (blk s) (din (sins s p)) @ [unat i]"
      using yes(2) by (auto simp: grown_def evolve_def)
    have ok: "inode_ok (nblocks s') (fb s') (blk s') (din (sins s' p))" using g(1) by (simp add: file_ok_def)
    have "used s' (unat i)" using fblocks_used [OF ok, of "unat i"] g(2) by (simp add: used_def)
    then show ?thesis using yes(1) g False ln by (simp add: nth_append)
  qed
qed

text \<open>C37: Resizing a well-formed file of a well-formed volume, whose number of blocks fits its size, to a size of at most
  12 + 1024 blocks always returns. On success the file has exactly the
  requested size and the number of blocks that takes, keeps its bytes up to the smaller of both sizes, and has
  given back every block it no longer needs; shrinking never fails. Growing may report lack of memory, not when two blocks are free for
  each block to be added, and then the contents are unchanged. Blocks in use by anything else are not touched.\<close>

theorem sfs_truncfile_resizes:
  assumes g: "regular s p" and fit: "nb s p = (length (content s p) + 4095) div 4096" and m: "unat len \<le> 4096 * NMAX"
    and t: "t = (unat len + 4095) div 4096"
  shows "\<exists>r s'. sfs_truncfile s p len = Ok (r, s') \<and> regular s' p \<and>
    (r = Inr () \<and> nb s' p = t \<and> length (content s' p) = unat len \<and>
       take (length (content s p)) (content s' p) = take (unat len) (content s p) \<or>
     r = Inl E_NO_MEM \<and> nb s p < t \<and> content s' p = content s p) \<and>
    (2 * (t - nb s p) \<le> card (fb s) \<longrightarrow> r = Inr ()) \<and>
    (t \<le> nb s p \<longrightarrow> card (fb s') = card (fb s) + (nb s p - t)) \<and>
    (\<forall>b. used s b \<and> b \<notin> own s p \<longrightarrow> used s' b \<and> b \<notin> own s' p \<and> blk s' b = blk s b)"
proof -
  have lc: "length (content s p) = unat (din_size (din (sins s p)))" by (rule content_length [OF g])
  have f: "file_ok s p" and sz: "unat (din_size (din (sins s p))) \<le> 4096 * nb s p" using g by (auto simp: regular_def)
  note L = length_rawf [OF f]
  have eq: "unat (din_size (din (sins s p))) = unat len \<longrightarrow> nb s p = t" using fit lc t by simp
  let ?c = "take (unat len) (rawf s p @ replicate (4096 * (t - nb s p)) 0)"
  obtain r s' where h: "sfs_truncfile s p len = Ok (r, s')" "regular s' p" "evolve s s' p"
      "r = Inr () \<and> nb s' p = t \<and> content s' p = ?c \<or> r = Inl E_NO_MEM \<and> nb s p < t \<and> content s' p = content s p"
      "2 * (t - nb s p) \<le> card (fb s) \<longrightarrow> r = Inr ()" "t \<le> nb s p \<longrightarrow> card (fb s') = card (fb s) + (nb s p - t)"
    using truncfile_effect [OF g m t eq] by blast
  have "unat len \<le> 4096 * t" unfolding t by simp
  then have "unat len \<le> 4096 * nb s p + 4096 * (t - nb s p)" by (cases "t \<le> nb s p") (simp_all add: diff_mult_distrib2)
  then have lc': "length ?c = unat len" using L by simp
  have "take (length (content s p)) ?c = take (unat len) (take (length (content s p)) (rawf s p))"
    using L sz lc by (simp add: take_take min.commute)
  also have "take (length (content s p)) (rawf s p) = content s p" by (simp only: lc) (simp only: content_def)
  finally have "take (length (content s p)) ?c = take (unat len) (content s p)" .
  then show ?thesis using h lc' unfolding evolve_def by metis
qed

section \<open>A volume\<close>

text \<open>64 blocks of which all but the first three are free, and an inode in memory at 0: a file of 10 bytes in block 1,
  whose inode on disk is block 2.\<close>

definition demo_map :: bitmap where
  "demo_map = \<lparr>nbits = 64, nwords = 2, words = [- 8, - 1]\<rparr>"

definition demo_inode :: sfs_inode where
  "demo_inode = \<lparr>din = \<lparr>din_size = 10, din_type = SFS_TYPE_FILE, din_nlinks = 1, din_blocks = 1,
     din_direct = 1 # replicate 11 0, din_indirect = 0\<rparr>, ino = 2, dirty = False, reclaim_count = 1\<rparr>"

definition demo_volume :: sfs_fs where
  "demo_volume = \<lparr>super = \<lparr>sb_magic = SFS_MAGIC, sb_blocks = 64, unused_blocks = 61, sb_info = []\<rparr>,
     dev = demo_disk, freemap = demo_map, super_dirty = False, sfs_buffer = replicate 4096 0,
     inode_list = \<lparr>prev = id, nxt = id\<rparr>, hash_list = \<lparr>prev = id, nxt = id\<rparr>, sins = (\<lambda>_. demo_inode),
     vnodes = (\<lambda>_. \<lparr>in_ops = sfs_node_fileops, ref_count = 1, open_count = 0\<rparr>), killed = []\<rparr>"

lemma demo_bits: "bit (- 8 :: u32) i \<longleftrightarrow> i < 32 \<and> 3 \<le> i"
proof -
  have "(- 8 :: u32) = NOT (mask 3)" by (simp add: mask_eq_exp_minus_1)
  then show ?thesis by (simp only: bit_not_iff bit_mask_iff) auto
qed

lemma demo_free: "free_bits demo_map = {2<..<64}"
proof -
  have "i \<in> free_bits demo_map \<longleftrightarrow> 2 < i \<and> i < 64" for i
  proof (cases "i < 32")
    case True
    then have "i \<in> free_bits demo_map \<longleftrightarrow> bit (- 8 :: u32) i" by (simp add: free_bits_def demo_map_def word_bit_def)
    then show ?thesis unfolding demo_bits using True by auto
  next
    case False
    have "word_bit [- 8, - 1] i" if "i < 64"
    proof -
      have "i div 32 = 1" using False that by linarith
      then have "[- 8, - 1 :: u32] ! (i div 32) = - 1" by simp
      moreover have "bit (- 1 :: u32) (i mod 32)" by (simp only: bit_minus_1_iff) simp
      ultimately show ?thesis unfolding word_bit_def by (simp only:)
    qed
    moreover have "words demo_map = [- 8, - 1]" by (simp add: demo_map_def)
    ultimately have "i \<in> free_bits demo_map \<longleftrightarrow> i < 64" unfolding free_bits_def by (simp only: mem_Collect_eq list.size) auto
    then show ?thesis using False by linarith
  qed
  then show ?thesis unfolding set_eq_iff greaterThanLessThan_iff by blast
qed

lemma demo_vol_ok: "vol_ok demo_volume"
proof -
  have "bitmap_ok demo_map" using demo_free by (auto simp: bitmap_ok_def demo_map_def)
  moreover have "card {2<..<64 :: nat} = 61" by simp
  ultimately show ?thesis using demo_disk_ok
    by (simp add: vol_ok_def demo_volume_def demo_free) (auto simp: demo_disk_def demo_map_def)
qed

lemma demo_bnum: "bnum B (din demo_inode) i = (if i = 0 then 1 else 0)"
  by (cases i) (auto simp: bnum_def demo_inode_def)

lemma demo_regular: "regular demo_volume 0"
proof -
  have "inode_ok 64 {2<..<64} B (din demo_inode)" for B
    unfolding inode_ok_def demo_bnum by (auto simp: demo_inode_def bused_def NMAX_def inj_on_def)
  then show ?thesis using demo_vol_ok
    by (simp add: regular_def file_ok_def demo_volume_def demo_free nb_def)
      (simp add: demo_inode_def SFS_TYPE_FILE_def SFS_TYPE_DIR_def)
qed

lemma demo_file: "nb demo_volume 0 = 1" "card (fb demo_volume) = 61"
  using demo_free by (simp_all add: nb_def demo_volume_def demo_inode_def)

lemma demo_content: "content demo_volume 0 = replicate 10 0"
proof -
  have "blk demo_volume 1 = replicate 4096 0"
    by (simp add: blk_def demo_volume_def demo_disk_def sect_range_def replicate_add [symmetric])
  moreover have "fblocks B (din demo_inode) = [1]" for B
    unfolding fblocks_def demo_bnum by (simp add: demo_inode_def)
  moreover have "sins demo_volume 0 = demo_inode" "unat (din_size (din demo_inode)) = 10"
    by (simp_all add: demo_volume_def demo_inode_def)
  ultimately show ?thesis by (simp add: content_def rawf_def raw_def)
qed

theorem sfs_write_then_read_witness:
  "\<exists>iob1 s1 iob2 s2. sfs_write demo_volume 0 (iobuf_init (replicate 5000 7) 5000 3) = Ok (Inr (), iob1, s1) \<and>
    sfs_read s1 0 (iobuf_init (replicate 5000 0) 5000 3) = Ok (Inr (), iob2, s2) \<and> io_mem iob2 = replicate 5000 7 \<and> io_resid iob2 = 0"
  using sfs_write_then_read [OF demo_regular, of 3 "replicate 5000 7" "replicate 5000 0"]
  by (simp add: demo_file demo_content NMAX_def)

theorem sfs_write_splices_witness:
  "\<exists>iob' s'. sfs_write demo_volume 0 (iobuf_init (replicate 5000 7) 5000 3) = Ok (Inr (), iob', s') \<and>
    content s' 0 = replicate 3 0 @ replicate 5000 7 \<and> unat (io_resid iob') = 0"
proof -
  let ?iob = "iobuf_init (replicate 5000 7) 5000 3"
  have e: "io_base ?iob = 0" "unat (io_resid ?iob) = 5000" "unat (io_offset ?iob) = 3" "io_mem ?iob = replicate 5000 7"
    by (simp_all add: iobuf_init_def)
  show ?thesis using sfs_write_splices [OF demo_regular, of ?iob, unfolded e demo_file demo_content]
    by (auto simp: NMAX_def splice_def slice_def)
qed

theorem sfs_read_delivers_witness:
  "\<exists>iob' s'. sfs_read demo_volume 0 (iobuf_init (replicate 20 9) 20 4) = Ok (Inr (), iob', s') \<and>
     io_mem iob' = replicate 6 0 @ replicate 14 9 \<and> unat (io_resid iob') = 14"
proof -
  let ?iob = "iobuf_init (replicate 20 9) 20 4"
  have e: "io_base ?iob = 0" "io_resid ?iob = 20" "io_offset ?iob = 4" "io_mem ?iob = replicate 20 9"
    by (simp_all add: iobuf_init_def)
  show ?thesis using sfs_read_delivers [OF demo_regular, of ?iob "replicate 6 0", unfolded e demo_content]
    by (auto simp: splice_def slice_def SFS_MAX_FILE_SIZE_def)
qed

theorem sfs_bmap_load_well_typed_witness:
  "\<exists>b s'. sfs_bmap_load_nolock demo_volume 0 1 = Ok (Inr b, s') \<and> file_ok s' 0 \<and> used s' (unat b) \<and>
     fblocks (blk s') (din (sins s' 0)) = [1, unat b]"
proof -
  have f: "file_ok demo_volume 0" using demo_regular by (simp add: regular_def)
  have "fblocks (blk demo_volume) (din (sins demo_volume 0)) = [1]"
    using demo_bnum by (simp add: fblocks_def demo_volume_def) (simp add: demo_inode_def)
  note d = this demo_file
  have i: "unat (1 :: u32) \<le> nb demo_volume 0" "unat (1 :: u32) < NMAX" by (simp_all add: d NMAX_def)
  from sfs_bmap_load_well_typed [OF f i] obtain r s' where r: "sfs_bmap_load_nolock demo_volume 0 1 = Ok (r, s')" "file_ok s' 0"
      "case r of Inl e \<Rightarrow> card (fb demo_volume) < 2 | Inr b \<Rightarrow> used s' (unat b) \<and> fblocks (blk s') (din (sins s' 0)) = [1, unat b]"
    unfolding d by (elim exE conjE) (rename_tac r s', case_tac r, auto)
  then show ?thesis using d by (cases r) auto
qed

theorem sfs_truncfile_resizes_witness:
  "\<exists>s' s''. sfs_truncfile demo_volume 0 9000 = Ok (Inr (), s') \<and> regular s' 0 \<and> length (content s' 0) = 9000 \<and>
     take 10 (content s' 0) = replicate 10 0 \<and>
     sfs_truncfile demo_volume 0 0 = Ok (Inr (), s'') \<and> content s'' 0 = [] \<and> card (fb s'') = 62"
proof -
  have n: "nb demo_volume 0 = (length (content demo_volume 0) + 4095) div 4096"
    by (simp add: demo_content demo_file(1))
  obtain s' where a: "sfs_truncfile demo_volume 0 9000 = Ok (Inr (), s')" "regular s' 0" "length (content s' 0) = 9000"
      "take 10 (content s' 0) = replicate 10 0"
    using sfs_truncfile_resizes [OF demo_regular n, of 9000 3] by (auto simp: demo_file demo_content NMAX_def)
  obtain s'' where b: "sfs_truncfile demo_volume 0 0 = Ok (Inr (), s'')" "content s'' 0 = []" "card (fb s'') = 62"
    using sfs_truncfile_resizes [OF demo_regular n, of 0 0] by (auto simp: demo_file demo_content NMAX_def)
  show ?thesis using a b by blast
qed

end
