(* ===== verification/Sfs_Sync.thy ===== *)
theory Sfs_Sync
  imports Sfs_Ops
begin

text \<open>
  Inodes on disk: what \<open>sfs_fsync\<close> writes back is what \<open>sfs_load_inode\<close> (both
  \<open>kern/fs/sfs/sfs_inode.c\<close>) finds when the inode is loaded again.
\<close>

lemma length_le32s [simp]: "length (concat (map le32 xs)) = 4 * length xs"
  by (induction xs) auto









end
