(* ===== verification/Sfs_Dir.thy ===== *)
theory Sfs_Dir
  imports Sfs_Node
begin

text \<open>
  Directories of the simple file system and the remaining inode operations. Each entry takes a
  block of the directory. The answers of \<open>kmalloc\<close> during a lookup are three: for the entry buffer,
  for the on-disk inode and for the new inode.
\<close>

type_synonym answers = "bool \<times> bool \<times> nat option"

definition c_name :: "u8 list \<Rightarrow> u8 list" where
  "c_name bs = takeWhile (\<lambda>c. c \<noteq> 0) bs"

section \<open>Entries\<close>

definition sfs_dirent_read_nolock :: "sfs_fs \<Rightarrow> nat \<Rightarrow> u32 \<Rightarrow> ((errno + sfs_disk_entry) \<times> sfs_fs) res" where
  "sfs_dirent_read_nolock s p slot =
     assert_c (din_type (din (sins s p)) = SFS_TYPE_DIR \<and> 0 \<le> sint slot \<and> slot < din_blocks (din (sins s p)))
       (res_bind (sfs_bmap_load_nolock s p slot) (\<lambda>(r, s1).
        case r of Inl e \<Rightarrow> Ok (Inl e, s1)
        | Inr i \<Rightarrow>
          assert_inuse s1 i
            (res_bind (sfs_rbuf s1 260 i 0) (\<lambda>(r', s2).
             Ok (case r' of Inl e \<Rightarrow> Inl e
                 | Inr bs \<Rightarrow> Inr ((bytes_entry bs)\<lparr>ent_name := (ent_name (bytes_entry bs))[SFS_MAX_FNAME_LEN := 0]\<rparr>), s2)))))"

text \<open>\<open>int nslots = din->blocks\<close>: a negative number of slots ends every loop at once.\<close>

definition nslots :: "sfs_fs \<Rightarrow> nat \<Rightarrow> nat" where
  "nslots s p = nat (sint (din_blocks (din (sins s p))))"

fun search_loop ::
  "sfs_fs \<Rightarrow> nat \<Rightarrow> u8 list \<Rightarrow> u32 \<Rightarrow> nat \<Rightarrow> u32 \<Rightarrow> ((errno + u32 \<times> u32) \<times> u32 \<times> sfs_fs) res" where
  "search_loop s p name i 0 esl = Ok (Inl E_NOENT, esl, s)"
| "search_loop s p name i (Suc n) esl =
     res_bind (sfs_dirent_read_nolock s p i) (\<lambda>(r, s1).
     case r of Inl e \<Rightarrow> Ok (Inl e, esl, s1)
     | Inr entry \<Rightarrow>
       if ent_ino entry = 0 then search_loop s1 p name (i + 1) n i
       else if name = c_name (ent_name entry) then Ok (Inr (i, ent_ino entry), esl, s1)
       else search_loop s1 p name (i + 1) n esl)"

text \<open>The slot and inode number of the entry with the name, or the error; the empty slot that was
  seen last (the number of slots if none), when the search stored it.\<close>

definition sfs_dirent_search_nolock ::
  "sfs_fs \<Rightarrow> nat \<Rightarrow> u8 list \<Rightarrow> bool \<Rightarrow> ((errno + u32 \<times> u32) \<times> u32 option \<times> sfs_fs) res" where
  "sfs_dirent_search_nolock s p name m_entry =
     assert_c (length name \<le> SFS_MAX_FNAME_LEN)
       (if \<not> m_entry then Ok (Inl E_NO_MEM, None, s)
        else res_bind (search_loop s p name 0 (nslots s p) (din_blocks (din (sins s p)))) (\<lambda>(r, esl, s1).
          Ok (r, Some esl, s1)))"

fun findino_loop :: "sfs_fs \<Rightarrow> nat \<Rightarrow> u32 \<Rightarrow> u32 \<Rightarrow> nat \<Rightarrow> ((errno + sfs_disk_entry) \<times> sfs_fs) res" where
  "findino_loop s p target i 0 = Ok (Inl E_NOENT, s)"
| "findino_loop s p target i (Suc n) =
     res_bind (sfs_dirent_read_nolock s p i) (\<lambda>(r, s1).
     case r of Inl e \<Rightarrow> Ok (Inl e, s1)
     | Inr entry \<Rightarrow> if ent_ino entry = target then Ok (Inr entry, s1) else findino_loop s1 p target (i + 1) n)"

definition sfs_dirent_findino_nolock :: "sfs_fs \<Rightarrow> nat \<Rightarrow> u32 \<Rightarrow> ((errno + sfs_disk_entry) \<times> sfs_fs) res" where
  "sfs_dirent_findino_nolock s p target = findino_loop s p target 0 (nslots s p)"

fun getdirentry_loop :: "sfs_fs \<Rightarrow> nat \<Rightarrow> nat \<Rightarrow> u32 \<Rightarrow> nat \<Rightarrow> ((errno + sfs_disk_entry) \<times> sfs_fs) res" where
  "getdirentry_loop s p slot i 0 = Ok (Inl E_NOENT, s)"
| "getdirentry_loop s p slot i (Suc n) =
     res_bind (sfs_dirent_read_nolock s p i) (\<lambda>(r, s1).
     case r of Inl e \<Rightarrow> Ok (Inl e, s1)
     | Inr entry \<Rightarrow>
       if ent_ino entry \<noteq> 0 then
         if slot = 0 then Ok (Inr entry, s1) else getdirentry_loop s1 p (slot - 1) (i + 1) n
       else getdirentry_loop s1 p slot (i + 1) n)"

definition sfs_getdirentry_sub_nolock :: "sfs_fs \<Rightarrow> nat \<Rightarrow> nat \<Rightarrow> ((errno + sfs_disk_entry) \<times> sfs_fs) res" where
  "sfs_getdirentry_sub_nolock s p slot = getdirentry_loop s p slot 0 (nslots s p)"

definition sfs_getdirentry :: "sfs_fs \<Rightarrow> nat \<Rightarrow> iobuf \<Rightarrow> bool \<Rightarrow> ((errno + unit) \<times> iobuf \<times> sfs_fs) res" where
  "sfs_getdirentry s p iob m_entry =
     (let offset = io_offset iob in
      if \<not> m_entry then Ok (Inl E_NO_MEM, iob, s)
      else if sint offset < 0 \<or> offset mod 256 \<noteq> 0 then Ok (Inl E_INVAL, iob, s)
      else if din_blocks (din (sins s p)) < offset div 256 then Ok (Inl E_NOENT, iob, s)
      else
        res_bind (sfs_getdirentry_sub_nolock s p (unat (offset div 256))) (\<lambda>(r, s1).
        case r of Inl e \<Rightarrow> Ok (Inl e, iob, s1)
        | Inr entry \<Rightarrow>
          res_bind (iobuf_move iob (ent_name entry) 256 True) (\<lambda>(r', _, _, iob'). Ok (r', iob', s1))))"

section \<open>Names\<close>

definition sfs_lookup_once :: "sfs_fs \<Rightarrow> nat \<Rightarrow> u8 list \<Rightarrow> answers \<Rightarrow> ((errno + nat \<times> u32) \<times> sfs_fs) res" where
  "sfs_lookup_once s p name ans =
     (let (m_entry, m_din, m_node) = ans in
      res_bind (sfs_dirent_search_nolock s p name m_entry) (\<lambda>(r, _, s1).
      case r of Inl e \<Rightarrow> Ok (Inl e, s1)
      | Inr (slot, i) \<Rightarrow>
        res_bind (sfs_load_inode s1 i m_din m_node) (\<lambda>(r', s2).
        Ok (case r' of Inl e \<Rightarrow> Inl e | Inr node \<Rightarrow> Inr (node, slot), s2))))"

definition sfs_lookup :: "sfs_fs \<Rightarrow> nat \<Rightarrow> u8 list \<Rightarrow> answers \<Rightarrow> ((errno + nat) \<times> sfs_fs) res" where
  "sfs_lookup s p path ans =
     assert_c (path \<noteq> [] \<and> hd path \<noteq> 0 \<and> hd path \<noteq> 47)
       (let s1 = snd (inode_ref_inc s p) in
        if din_type (din (sins s1 p)) \<noteq> SFS_TYPE_DIR then
          res_bind (inode_ref_dec s1 p) (\<lambda>(_, s2). Ok (Inl E_NOTDIR, s2))
        else
          res_bind (sfs_lookup_once s1 p path ans) (\<lambda>(r, s2).
          res_bind (inode_ref_dec s2 p) (\<lambda>(_, s3).
          Ok (case r of Inl e \<Rightarrow> Inl e | Inr (node, _) \<Rightarrow> Inr node, s3))))"

text \<open>The loop of \<open>sfs_namefile\<close> climbs to the root and writes the names below \<open>ptr\<close>; round \<open>k\<close>
  gets the \<open>kmalloc\<close> answers \<open>ans k\<close>.\<close>

definition DOTDOT :: "u8 list" where "DOTDOT = [46, 46]"

partial_function (option) namefile_loop ::
  "(nat \<Rightarrow> answers) \<Rightarrow> nat \<Rightarrow> sfs_fs \<Rightarrow> nat \<Rightarrow> u32 \<Rightarrow> nat \<Rightarrow> u8 list \<Rightarrow> ((errno + u32 \<times> nat \<times> u8 list) \<times> sfs_fs) res option" where
  "namefile_loop ans k s node resid ptr m =
     step_res (sfs_lookup_once s node DOTDOT (ans k)) (\<lambda>(r, s1).
     case r of Inl e \<Rightarrow> step_res (inode_ref_dec s1 node) (\<lambda>(_, s2). Some (Ok (Inl e, s2)))
     | Inr (parent, _) \<Rightarrow>
       let i = ino (sins s1 node) in
       step_res (inode_ref_dec s1 node) (\<lambda>(_, s2).
       if node = parent then step_res (inode_ref_dec s2 node) (\<lambda>(_, s3). Some (Ok (Inr (resid, ptr, m), s3)))
       else if \<not> (i \<noteq> ino (sins s2 parent) \<and> din_type (din (sins s2 parent)) = SFS_TYPE_DIR) then Some Panic
       else
         step_res (sfs_dirent_findino_nolock s2 parent i) (\<lambda>(r', s3).
         case r' of Inl e \<Rightarrow> step_res (inode_ref_dec s3 parent) (\<lambda>(_, s4). Some (Ok (Inl e, s4)))
         | Inr entry \<Rightarrow>
           let nm = c_name (ent_name entry); alen = of_nat (length nm) + 1 in
           if resid < alen then step_res (inode_ref_dec s3 parent) (\<lambda>(_, s4). Some (Ok (Inl E_NO_MEM, s4)))
           else
             let ptr' = ptr - unat alen in
             namefile_loop ans (Suc k) s3 parent (resid - alen) ptr' (splice m ptr' (nm @ [47])))))"

definition sfs_namefile ::
  "sfs_fs \<Rightarrow> nat \<Rightarrow> iobuf \<Rightarrow> bool \<Rightarrow> (nat \<Rightarrow> answers) \<Rightarrow> ((errno + unit) \<times> iobuf \<times> sfs_fs) res" where
  "sfs_namefile s p iob m_entry ans =
     (if io_resid iob \<le> 2 \<or> \<not> m_entry then Ok (Inl E_NO_MEM, iob, s)
      else
        res_bind (run_loop (namefile_loop ans 0 (snd (inode_ref_inc s p)) p (io_resid iob - 2)
          (io_base iob + unat (io_resid iob)) (io_mem iob))) (\<lambda>(r, s1).
        case r of Inl e \<Rightarrow> Ok (Inl e, iob, s1)
        | Inr (resid, ptr, m) \<Rightarrow>
          let alen = io_resid iob - resid - 2; b = io_base iob;
              m1 = splice m (b + 1) (slice m ptr (unat alen));
              m2 = m1[b := 47, b + 1 + unat alen := 0] in
          res_bind (iobuf_skip (iob\<lparr>io_mem := m2\<rparr>) alen) (\<lambda>iob'. Ok (Inr (), iob', s1))))"

section \<open>Opening and status\<close>

definition O_RDONLY :: u32 where "O_RDONLY = 0"
definition O_WRONLY :: u32 where "O_WRONLY = 1"
definition O_RDWR :: u32 where "O_RDWR = 2"
definition O_CREAT :: u32 where "O_CREAT = 4"
definition O_EXCL :: u32 where "O_EXCL = 8"
definition O_TRUNC :: u32 where "O_TRUNC = 16"
definition O_APPEND :: u32 where "O_APPEND = 32"
definition O_ACCMODE :: u32 where "O_ACCMODE = 3"

definition sfs_opendir :: "u32 \<Rightarrow> errno + unit" where
  "sfs_opendir open_flags =
     (if open_flags AND O_ACCMODE \<noteq> O_RDONLY then Inl E_ISDIR
      else if open_flags AND O_APPEND \<noteq> 0 then Inl E_ISDIR
      else Inr ())"

definition sfs_openfile :: "u32 \<Rightarrow> errno + unit" where
  "sfs_openfile open_flags = Inr ()"

definition S_IFREG :: u32 where "S_IFREG = 0x1000"
definition S_IFDIR :: u32 where "S_IFDIR = 0x2000"
definition S_IFLNK :: u32 where "S_IFLNK = 0x3000"

record stat =
  st_mode :: u32
  st_nlinks :: u32
  st_blocks :: u32
  st_size :: u32

definition sfs_gettype :: "sfs_fs \<Rightarrow> nat \<Rightarrow> u32 res" where
  "sfs_gettype s p =
     (let t = din_type (din (sins s p)) in
      if t = SFS_TYPE_DIR then Ok S_IFDIR
      else if t = SFS_TYPE_FILE then Ok S_IFREG
      else if t = SFS_TYPE_LINK then Ok S_IFLNK
      else Panic)"

definition sfs_fstat :: "sfs_fs \<Rightarrow> nat \<Rightarrow> stat res" where
  "sfs_fstat s p =
     assert_c (inode_check s p)
       (res_bind (sfs_gettype s p) (\<lambda>t.
        let d = din (sins s p) in
        Ok \<lparr>st_mode = t, st_nlinks = ucast (din_nlinks d), st_blocks = din_blocks d, st_size = din_size d\<rparr>))"

end
