(* ===== verification/Sfs_Volume.thy ===== *)
theory Sfs_Volume
  imports Sfs_Dir
begin

text \<open>
  The volume as a whole, \<open>kern/fs/sfs/sfs_fs.c\<close>: mounting, writing back, the root directory and
  unmounting. The \<open>kmalloc\<close> answers of a mount are those for the volume, its buffer (with the bytes it
  happens to hold), the hash lists and the two of the free map.
\<close>

definition le2inode :: "snode \<Rightarrow> nat" where
  "le2inode le = (case le of InodeLink p \<Rightarrow> p | InodeList \<Rightarrow> 0)"

partial_function (option) sync_loop :: "sfs_fs \<Rightarrow> snode \<Rightarrow> sfs_fs res option" where
  "sync_loop s le =
     (let le' = list_next (inode_list s) le in
      if le' = InodeList then Some (Ok s)
      else step_res (vop_fsync s (le2inode le')) (\<lambda>(_, s1). sync_loop s1 le'))"

definition sfs_sync :: "sfs_fs \<Rightarrow> ((errno + unit) \<times> sfs_fs) res" where
  "sfs_sync s =
     res_bind (run_loop (sync_loop s InodeList)) (\<lambda>s1.
     if super_dirty s1 then
       res_bind (sfs_sync_super (s1\<lparr>super_dirty := False\<rparr>)) (\<lambda>(r, s2).
       case r of Inl e \<Rightarrow> Ok (Inl e, s2\<lparr>super_dirty := True\<rparr>)
       | Inr _ \<Rightarrow>
         res_bind (sfs_sync_freemap s2) (\<lambda>(r', s3).
         case r' of Inl e \<Rightarrow> Ok (Inl e, s3\<lparr>super_dirty := True\<rparr>) | Inr _ \<Rightarrow> Ok (Inr (), s3)))
     else Ok (Inr (), s1))"

definition sfs_get_root :: "sfs_fs \<Rightarrow> bool \<Rightarrow> nat option \<Rightarrow> (nat \<times> sfs_fs) res" where
  "sfs_get_root s m_din m_node =
     res_bind (sfs_load_inode s SFS_BLKN_ROOT m_din m_node) (\<lambda>(r, s1).
     case r of Inl e \<Rightarrow> Panic | Inr p \<Rightarrow> Ok (p, s1))"

definition sfs_unmount :: "sfs_fs \<Rightarrow> (errno + unit) res" where
  "sfs_unmount s =
     (if \<not> list_empty (inode_list s) InodeList then Ok (Inl E_BUSY)
      else assert_c (\<not> super_dirty s) (Ok (Inr ())))"

text \<open>At most 32 attempts; the result is the one of the last.\<close>

fun cleanup_loop :: "sfs_fs \<Rightarrow> nat \<Rightarrow> errno + unit \<Rightarrow> ((errno + unit) \<times> sfs_fs) res" where
  "cleanup_loop s 0 ret = Ok (ret, s)"
| "cleanup_loop s (Suc n) ret =
     res_bind (sfs_sync s) (\<lambda>(r, s1). case r of Inr _ \<Rightarrow> Ok (r, s1) | Inl e \<Rightarrow> cleanup_loop s1 n r)"

definition sfs_cleanup :: "sfs_fs \<Rightarrow> sfs_fs res" where
  "sfs_cleanup s = res_bind (cleanup_loop s 32 (Inr ())) (\<lambda>(_, s1). Ok s1)"

section \<open>Mounting\<close>

definition sfs_init_read :: "disk0 \<Rightarrow> u32 \<Rightarrow> u8 list \<Rightarrow> ((errno + unit) \<times> u8 list \<times> disk0) res" where
  "sfs_init_read d blkno buf =
     res_bind (disk0_io d (iobuf_init buf SFS_BLKSIZE (blkno * SFS_BLKSIZE)) False) (\<lambda>(r, d', iob). Ok (r, io_mem iob, d'))"

fun init_freemap_loop :: "disk0 \<Rightarrow> u8 list \<Rightarrow> nat \<Rightarrow> u32 \<Rightarrow> nat \<Rightarrow> ((errno + unit) \<times> u8 list \<times> disk0) res" where
  "init_freemap_loop d data pos blkno 0 = Ok (Inr (), data, d)"
| "init_freemap_loop d data pos blkno (Suc n) =
     res_bind (sfs_init_read d blkno (slice data pos 4096)) (\<lambda>(r, blk, d1).
     case r of Inl e \<Rightarrow> Ok (Inl e, data, d1)
     | Inr _ \<Rightarrow> init_freemap_loop d1 (splice data pos blk) (pos + 4096) (blkno + 1) n)"

definition words_of_bytes :: "u8 list \<Rightarrow> nat \<Rightarrow> u32 list" where
  "words_of_bytes bs n = map (\<lambda>k. of_le32 (drop (4 * k) bs)) [0..<n]"

definition sfs_init_freemap :: "disk0 \<Rightarrow> bitmap \<Rightarrow> u32 \<Rightarrow> u32 \<Rightarrow> ((errno + unit) \<times> bitmap \<times> disk0) res" where
  "sfs_init_freemap d fm blkno nblks =
     (let (ws, len) = bitmap_getdata fm in
      assert_c (len = nblks * SFS_BLKSIZE)
        (res_bind (init_freemap_loop d (concat (map le32 ws)) 0 blkno (unat nblks)) (\<lambda>(r, data, d1).
         Ok (r, fm\<lparr>words := words_of_bytes data (length ws)\<rparr>, d1))))"

fun count_free :: "bitmap \<Rightarrow> u32 \<Rightarrow> nat \<Rightarrow> u32 \<Rightarrow> u32 res" where
  "count_free fm i 0 unused = Ok unused"
| "count_free fm i (Suc n) unused =
     res_bind (bitmap_test fm i) (\<lambda>b. count_free fm (i + 1) n (if b then unused + 1 else unused))"

fun init_hash_lists :: "hnode links \<Rightarrow> nat \<Rightarrow> hnode links" where
  "init_hash_lists h 0 = h"
| "init_hash_lists h (Suc n) = list_init (init_hash_lists h n) (HashList (of_nat n))"

definition SFS_HLIST_SIZE :: nat where "SFS_HLIST_SIZE = 1024"

text \<open>\<open>s0\<close> is the memory of the new volume before it is initialised.\<close>

definition sfs_do_mount ::
  "disk0 \<Rightarrow> sfs_fs option \<Rightarrow> u8 list option \<Rightarrow> bool \<Rightarrow> nat option \<Rightarrow> nat option \<Rightarrow> ((errno + sfs_fs) \<times> disk0) res" where
  "sfs_do_mount d m_fs m_buffer m_hash m_bitmap m_map =
     (if d_blocksize d \<noteq> SFS_BLKSIZE then Ok (Inl E_NA_DEV, d)
      else case m_fs of None \<Rightarrow> Ok (Inl E_NO_MEM, d) | Some s0 \<Rightarrow>
      case m_buffer of None \<Rightarrow> Ok (Inl E_NO_MEM, d) | Some buffer \<Rightarrow>
      res_bind (sfs_init_read d SFS_BLKN_SUPER buffer) (\<lambda>(r, buffer1, d1).
      case r of Inl e \<Rightarrow> Ok (Inl e, d1) | Inr _ \<Rightarrow>
      let sb = bytes_super buffer1 in
      if sb_magic sb \<noteq> SFS_MAGIC then Ok (Inl E_INVAL, d1)
      else if d_blocks d1 < sb_blocks sb then Ok (Inl E_INVAL, d1)
      else
        let sb1 = sb\<lparr>sb_info := (sb_info sb)[31 := 0]\<rparr> in
        if \<not> m_hash then Ok (Inl E_NO_MEM, d1)
        else
          res_bind (bitmap_create (sfs_freemap_bits sb1) m_bitmap m_map) (\<lambda>(fm, _).
          case fm of None \<Rightarrow> Ok (Inl E_NO_MEM, d1) | Some fm1 \<Rightarrow>
          res_bind (sfs_init_freemap d1 fm1 SFS_BLKN_FREEMAP (sfs_freemap_blocks sb1)) (\<lambda>(r', fm2, d2).
          case r' of Inl e \<Rightarrow> Ok (Inl e, d2) | Inr _ \<Rightarrow>
          res_bind (count_free fm2 0 (unat (sfs_freemap_bits sb1)) 0) (\<lambda>unused.
          assert_c (unused = unused_blocks sb1)
            (Ok (Inr (s0\<lparr>dev := d2, sfs_buffer := buffer1[43 := 0], super := sb1, freemap := fm2, super_dirty := False,
               hash_list := init_hash_lists (hash_list s0) SFS_HLIST_SIZE,
               inode_list := list_init (inode_list s0) InodeList\<rparr>), d2)))))))"

end
