(* ===== verification/Spec2Isabelle.thy ===== *)
theory Spec2Isabelle
  imports Page_Manager Printf Sched Page_Fault Sfs_Sync Sfs_Volume
begin

text \<open>
  A verification library for the teaching kernel \<open>lcore\<close>; file names below are relative to
  \<open>src/code-with-comments\<close>.

  \<^bold>\<open>The program.\<close> A 32-bit x86 kernel. Libraries (\<open>libs/\<close>: intrusive lists, skew heaps, C strings, formatted
  printing) carry four subsystems: physical pages with a first-fit allocator (\<open>kern/mm/default_pmm.c\<close>); virtual memory on
  top of it, with page tables (\<open>pmm.c\<close>), swapping (\<open>swap.c\<close>, \<open>swap_fifo.c\<close>) and memory areas with the page fault
  handler (\<open>vmm.c\<close>); a scheduler with exchangeable classes and timers (\<open>kern/schedule/\<close>); and the simple
  file system SFS (\<open>kern/fs/sfs/\<close>) on a block device (\<open>kern/fs/devs/dev_disk0.c\<close>) on an IDE drive.

  \<^bold>\<open>Conventions\<close> (\<open>Prelude\<close>). Machine integers are words and wrap; a C \<open>int\<close> that is only compared is an
  \<open>int\<close>. A function that can stop the kernel returns \<open>'a res\<close>: \<open>Ok\<close>, \<open>Panic\<close> (a failed \<open>assert\<close> or
  \<open>panic\<close>) or \<open>Diverge\<close> (a loop that does not end); an error code is \<open>Inl\<close>. Pointers to structures are numbers
  into stores, links of intrusive lists are in stores of links. The answer of \<open>kmalloc\<close> is an argument. Sections that the
  code brackets by switching interrupts off or by a semaphore are single steps. Log output is left out.

  \<^bold>\<open>Libraries.\<close>
  \<^item> \<open>DList\<close>: \<open>libs/list.h\<close> as stores of pointers; \<open>dl_rep\<close> says that a store represents a sequence, the locale
    \<open>list_store\<close> gives the laws of the operations on sequences and is interpreted on them.
  \<^item> \<open>Skew_Heap\<close>: \<open>libs/skew_heap.h\<close> as pointer code against a functional heap and its multiset.
  \<^item> \<open>X86\<close>, \<open>Cstring\<close>: \<open>libs/string.c\<close> in the variant that is compiled. The routines for which \<open>libs/x86.h\<close> has
    assembly (\<open>__strcmp\<close>, \<open>__strcpy\<close>, \<open>__memset\<close>, \<open>__memcpy\<close>, \<open>__memmove\<close>) are compositions of instructions on
    registers, flags and a flat memory of 32-bit addresses; the others are the C loops. Shown: copying for every overlap,
    comparison of strings, concatenation.
  \<^item> \<open>Printf\<close>: \<open>libs/printfmt.c\<close>, with \<open>putch\<close> acting on a state from which string arguments are read, so that
    output into the memory of an argument is seen. Shown: numbers and \<open>%d\<close> are read back by \<open>strtol\<close>, whose value is the low
    32 bits; \<open>snprintf\<close> stays inside its buffer, and what it stores and returns.

  \<^bold>\<open>Physical pages.\<close> \<open>Blocks\<close> is the specification, a list of free blocks; \<open>First_Fit\<close> and \<open>Page_Release\<close> are
  \<open>default_pmm.c\<close> on page descriptors, flags and the free list, with the invariant \<open>ff_inv\<close> and the refinement of every
  operation; \<open>Page_Manager\<close> states what the struct \<open>pmm_manager\<close> promises as a locale, interpreted on \<open>default_pmm.c\<close>,
  and proves the properties of allocation, release and whole workloads.

  \<^bold>\<open>Virtual memory.\<close> \<open>Mmu\<close>: the macros of \<open>mmu.h\<close>, \<open>memlayout.h\<close>, \<open>pmm.h\<close>. \<open>Vm_State\<close>: the state of memory
  management and the code of \<open>pmm.c\<close>, \<open>swap.c\<close>, \<open>swap_fifo.c\<close>, \<open>swapfs.c\<close>. \<open>Paging\<close>: a two-level table as a
  map from pages to entries. \<open>Address_Space\<close>: inserting and unmapping. \<open>Copy_Range\<close>: copying of an address space.
  \<open>Swap\<close>: eviction of the oldest page and reading back. \<open>Vmm\<close>: areas and the access to user memory. \<open>Vma_List\<close>: the
  sorted list of areas with its cache. \<open>Page_Fault\<close>: the fault handler. The translation cache is part of the
  state; the properties include that no stale translation stays. The swap device is a store of whole pages with one
  result for each slot; \<open>swapfs.c\<close> does not use the buffer of \<open>disk0\<close>.

  \<^bold>\<open>Scheduling.\<close> \<open>Proc_Base\<close>: the descriptor of \<open>proc.h\<close> and the state. \<open>Sched_Class\<close>: \<open>sched.c\<close> over a
  record of class operations, with the laws of a class as the locale \<open>sched_class_laws\<close>; \<open>Sched_Timer\<close>: the timers.
  \<open>Sched_RR\<close> and \<open>Sched_Stride\<close>: the two classes, each an interpretation. \<open>Sched\<close>: the run queue holds exactly
  the runnable processes, nobody starves under round robin, shares under stride scheduling are proportional in spite of
  wrap-around, the timer list with relative times implements absolute ones. \<open>proc_run\<close> ends at the assembly switch of
  contexts. The events of a run are reschedules, sleeps and wakeups of processes other than zombies, for which
  \<open>wakeup_proc\<close> panics.

  \<^bold>\<open>File system.\<close> \<open>Bitmap\<close>: \<open>bitmap.c\<close> as a set of free blocks (locale \<open>block_set\<close>). \<open>Iobuf\<close>: \<open>iobuf.c\<close>.
  \<open>Disk0\<close>: sector transfers of \<open>ide.c\<close> and \<open>dev_disk0.c\<close>. \<open>Sfs_State\<close>: the structures of \<open>sfs.h\<close>, their
  bytes and \<open>sfs_io.c\<close>. \<open>Sfs\<close>, \<open>Sfs_Node\<close>, \<open>Sfs_Dir\<close>: \<open>sfs_inode.c\<close> and the reference counts of
  \<open>vfs/inode.c\<close>. \<open>Sfs_Volume\<close>: \<open>sfs_fs.c\<close>. The proofs see a volume as its set of free blocks and the contents of
  each block (\<open>Sfs_Blocks\<close>), a file as a list of distinct blocks (\<open>Sfs_Bmap\<close>) and as a sequence of bytes
  (\<open>Sfs_File\<close>, \<open>Sfs_Read\<close>, \<open>Sfs_Write\<close>, \<open>Sfs_Trunc\<close>). \<open>Sfs_Ops\<close> and \<open>Sfs_Sync\<close>: reading, writing, resizing,
  loading of blocks and the write-back of inodes refine operations on byte sequences and touch no other block.
  Directories, lookup, mounting and unmounting are modelled; nothing is proved of them.

  \<^bold>\<open>Loops and bounds.\<close> A loop that may not end is a \<open>partial_function\<close> on options, and that it returns is part
  of the property. The three searches of the page allocator have a bound of one more than the number of pages, which no free
  list reaches; under the invariant they return. Files have at most 12 + 1024 blocks, the range of the block map,
  beyond which \<open>sfs_bmap_get_nolock\<close> panics. The volume lies below 2 GB, since offsets are signed.

  \<^bold>\<open>Not modelled.\<close> Assembly other than the string routines, port I/O, interrupt entry and system call dispatch;
  \<open>kmalloc.c\<close>; fork, exec, exit and wait in \<open>proc.c\<close>; semaphores, wait queues and monitors; the virtual file system
  above inodes, open files and other devices; self-tests, debugging, user programs and host tools. They are hardware access,
  callers above the modelled operations, or code outside the kernel.
\<close>

end
